(* ===== verification/GPS_Prelude.thy ===== *)
theory GPS_Prelude
  imports Main "HOL-Library.Word"
begin

text \<open>
  Prelude of the development: the machine-integer types of the sources, the object
  representation of a word on the little-endian hosts the program is built for (iOS, Android,
  x86), the result type of operations that can throw or touch memory they do not own, the
  theorem collections of the component theories, and generic lemmas on words and lists.
\<close>

unbundle bit_operations_syntax

section \<open>Types\<close>

type_synonym byte = "8 word"
type_synonym u8 = "8 word"
type_synonym u16 = "16 word"
type_synonym u32 = "32 word"
type_synonym u64 = "64 word"
type_synonym bytes = "8 word list"

text \<open>
  The outcome of an operation of the C++ code: it returns, it throws an exception, an assertion
  of it fails and aborts the program, or it reads
  or writes memory outside the object it was given (undefined behaviour). The last is a value
  of its own, so that a statement about the code cannot hold by accident of a totalised read.
\<close>

datatype 'a outcome = Returns 'a | Throws | Aborts | OutOfBounds

fun bind_outcome :: "'a outcome \<Rightarrow> ('a \<Rightarrow> 'b outcome) \<Rightarrow> 'b outcome" where
  "bind_outcome (Returns x) f = f x"
| "bind_outcome Throws f = Throws"
| "bind_outcome Aborts f = Aborts"
| "bind_outcome OutOfBounds f = OutOfBounds"

lemma bind_outcome_Returns_iff:
  "bind_outcome m f = Returns y \<longleftrightarrow> (\<exists>x. m = Returns x \<and> f x = Returns y)"
  by (cases m) auto

lemma bind_outcome_assoc:
  "bind_outcome (bind_outcome m f) g = bind_outcome m (\<lambda>x. bind_outcome (f x) g)"
  by (cases m) auto

text \<open>Sequencing of operations that may not end or leave their memory.\<close>

fun bind_run :: "'a outcome option \<Rightarrow> ('a \<Rightarrow> 'b outcome option) \<Rightarrow> 'b outcome option" where
  "bind_run None f = None"
| "bind_run (Some Throws) f = Some Throws"
| "bind_run (Some Aborts) f = Some Aborts"
| "bind_run (Some OutOfBounds) f = Some OutOfBounds"
| "bind_run (Some (Returns x)) f = f x"

lemma bind_run_assoc: "bind_run (bind_run m f) g = bind_run m (\<lambda>x. bind_run (f x) g)"
  by (cases "(m, f)" rule: bind_run.cases) auto

lemma bind_run_return [simp]: "bind_run m (\<lambda>x. Some (Returns x)) = m"
  by (rule bind_run.cases [of "(m, \<lambda>x. Some (Returns x))"]) auto

lemma bind_run_Returns_iff:
  "bind_run m f = Some (Returns y) \<longleftrightarrow> (\<exists>x. m = Some (Returns x) \<and> f x = Some (Returns y))"
  by (cases "(m, f)" rule: bind_run.cases) auto

section \<open>Collections\<close>

named_theorems bits_simps \<open>bit-level facts used to compare words\<close>
named_theorems codec_simps \<open>round-trip equations of encoders and decoders\<close>
named_theorems inv_intros \<open>an operation keeps the invariant of its component\<close>

lemmas [bits_simps] = bit_simps bit_ucast_iff

section \<open>Object representation of words (little endian)\<close>

fun le_bytes :: "nat \<Rightarrow> 'a::len word \<Rightarrow> bytes" where
  "le_bytes 0 w = []"
| "le_bytes (Suc n) w = ucast w # le_bytes n (drop_bit 8 w)"

fun le_word :: "bytes \<Rightarrow> 'a::len word" where
  "le_word [] = 0"
| "le_word (b # bs) = ucast b OR push_bit 8 (le_word bs)"

lemma length_le_bytes [simp]: "length (le_bytes n w) = n"
  by (induction n arbitrary: w) auto

lemma nth_le_bytes: "i < n \<Longrightarrow> le_bytes n w ! i = ucast (drop_bit (8 * i) w)"
proof (induction n arbitrary: w i)
  case 0
  then show ?case by simp
next
  case (Suc n)
  show ?case
  proof (cases i)
    case 0
    then show ?thesis by simp
  next
    case (Suc j)
    with Suc.prems Suc.IH show ?thesis
      by (simp add: drop_bit_drop_bit add.commute)
  qed
qed

lemma le_bytes_2: "le_bytes 2 w = [ucast w, ucast (drop_bit 8 w)]"
  by (simp add: numeral_2_eq_2)

lemma le_bytes_4:
  "le_bytes 4 w = [ucast w, ucast (drop_bit 8 w), ucast (drop_bit 16 w), ucast (drop_bit 24 w)]"
  by (simp add: numeral_eq_Suc drop_bit_drop_bit)

lemma le_bytes_8:
  "le_bytes 8 w = [ucast w, ucast (drop_bit 8 w), ucast (drop_bit 16 w), ucast (drop_bit 24 w),
     ucast (drop_bit 32 w), ucast (drop_bit 40 w), ucast (drop_bit 48 w), ucast (drop_bit 56 w)]"
  by (simp add: numeral_eq_Suc drop_bit_drop_bit)

lemma le_word_le_bytes: "le_word (le_bytes n w) = take_bit (8 * n) w"
proof (induction n arbitrary: w)
  case 0
  then show ?case by simp
next
  case (Suc n)
  show ?case
    by (rule bit_word_eqI) (auto simp: Suc.IH bits_simps)
qed

lemma le_word_le_bytes_full [codec_simps]:
  "LENGTH('a) \<le> 8 * n \<Longrightarrow> le_word (le_bytes n w) = (w :: 'a::len word)"
  by (simp add: le_word_le_bytes take_bit_word_eq_self)

lemma le_bytes_le_word:
  "8 * length bs \<le> LENGTH('a) \<Longrightarrow> le_bytes (length bs) (le_word bs :: 'a::len word) = bs"
proof (induction bs)
  case Nil
  then show ?case by simp
next
  case (Cons b bs)
  have hd: "(ucast (ucast b OR push_bit 8 (le_word bs :: 'a word)) :: byte) = b"
    using Cons.prems by (intro bit_word_eqI) (auto simp: bits_simps)
  have tl: "drop_bit 8 (ucast b OR push_bit 8 (le_word bs :: 'a word))
      = take_bit (LENGTH('a) - 8) (le_word bs :: 'a word)"
    using Cons.prems
    by (intro bit_word_eqI) (auto simp: bits_simps dest: bit_imp_le_length)
  have "le_bytes (length bs) (take_bit (LENGTH('a) - 8) (le_word bs :: 'a word))
      = le_bytes (length bs) (le_word bs :: 'a word)"
  proof (rule nth_equalityI)
    fix i assume "i < length (le_bytes (length bs)
      (take_bit (LENGTH('a) - 8) (le_word bs :: 'a word)))"
    then have i: "i < length bs" by simp
    then show "le_bytes (length bs) (take_bit (LENGTH('a) - 8) (le_word bs :: 'a word)) ! i
        = le_bytes (length bs) (le_word bs :: 'a word) ! i"
      using Cons.prems by (auto simp: nth_le_bytes bits_simps intro!: bit_word_eqI)
  qed simp
  with Cons hd tl show ?case by simp
qed

section \<open>The C library's memory operations and integer conversions\<close>

text \<open>Conversion to a 32-bit \<^verbatim>\<open>int\<close>, as the compilers of the targets do it.\<close>

definition c_int :: "int \<Rightarrow> int" where
  "c_int i = signed_take_bit 31 i"

lemma c_int_id [simp]: "- (2 ^ 31) \<le> i \<Longrightarrow> i < 2 ^ 31 \<Longrightarrow> c_int i = i"
  unfolding c_int_def by (rule signed_take_bit_int_eq_self) simp_all

text \<open>\<^verbatim>\<open>vector::resize\<close> and \<^verbatim>\<open>memcpy(dst + off, src, length src)\<close> within bounds.\<close>

definition vec_resize :: "nat \<Rightarrow> bytes \<Rightarrow> bytes" where
  "vec_resize n xs = take n xs @ replicate (n - length xs) 0"

definition copy_at :: "nat \<Rightarrow> 'a list \<Rightarrow> 'a list \<Rightarrow> 'a list" where
  "copy_at off src dst = take off dst @ src @ drop (off + length src) dst"

lemma length_vec_resize [simp]: "length (vec_resize n xs) = n"
  by (simp add: vec_resize_def)

lemma length_copy_at [simp]:
  "off + length src \<le> length dst \<Longrightarrow> length (copy_at off src dst) = length dst"
  by (simp add: copy_at_def)

lemma vec_resize_grow: "vec_resize (length xs + n) xs = xs @ replicate n 0"
  by (simp add: vec_resize_def)

lemma copy_at_end:
  "length src = length pad \<Longrightarrow> copy_at (length xs) src (xs @ pad) = xs @ src"
  by (simp add: copy_at_def)

lemma copy_at_inside:
  "length old = length src \<Longrightarrow> copy_at (length xs) src (xs @ old @ ys) = xs @ src @ ys"
  by (simp add: copy_at_def)

section \<open>Words as naturals\<close>

lemma unat_bound: "unat (w :: 'a::len word) < 2 ^ LENGTH('a)"
  by (rule unsigned_less)

lemma unat_of_small: "n < 2 ^ LENGTH('a) \<Longrightarrow> unat (word_of_nat n :: 'a::len word) = n"
  by (simp add: unat_of_nat)

section \<open>Lists\<close>

lemma take_drop_Cons_nth: "i < length xs \<Longrightarrow> drop i xs = xs ! i # drop (Suc i) xs"
  by (simp add: Cons_nth_drop_Suc)

lemma take_4_nth:
  assumes "j + 4 \<le> length xs"
  shows "take 4 (drop j xs) = [xs ! j, xs ! (j + 1), xs ! (j + 2), xs ! (j + 3)]"
  using assms by (intro nth_equalityI) (auto simp: less_Suc_eq numeral_eq_Suc nth_Cons')

lemma list_update_append_drop:
  "i + length ys \<le> length xs \<Longrightarrow>
    length (take i xs @ ys @ drop (i + length ys) xs) = length xs"
  by simp

end
