(* ===== verification/Endian.thy ===== *)
theory Endian
  imports GPS_Prelude
begin

text \<open>
  Byte order conversions of \<^verbatim>\<open>xxsocket/src/endian_portable.h\<close>: the swap macros, the
  conversions of 64-bit integers and of floating-point numbers (on their bit patterns), and the
  template \<^verbatim>\<open>ntohv\<close> with its specialisations. \<^verbatim>\<open>htons\<close> and \<^verbatim>\<open>htonl\<close> come from
  \<^verbatim>\<open>arpa/inet.h\<close>; on the little-endian hosts they reverse the bytes of the object.
\<close>

section \<open>The C library's conversions\<close>

definition htons :: "u16 \<Rightarrow> u16" where
  "htons v = le_word (rev (le_bytes 2 v))"

definition htonl :: "u32 \<Rightarrow> u32" where
  "htonl v = le_word (rev (le_bytes 4 v))"

definition ntohs :: "u16 \<Rightarrow> u16" where
  "ntohs v = htons v"

section \<open>The swap macros and the conversions built on them\<close>

definition SWAP_LONG :: "u32 \<Rightarrow> u32" where
  "SWAP_LONG l =
     (drop_bit 24 l AND 0x000000FF) OR
     (drop_bit 8 l AND 0x0000FF00) OR
     (push_bit 8 l AND 0x00FF0000) OR
     (push_bit 24 l AND 0xFF000000)"

definition SWAP_LONGLONG :: "u64 \<Rightarrow> u64" where
  "SWAP_LONGLONG l =
     (drop_bit 56 l AND 0x00000000000000FF) OR
     (drop_bit 40 l AND 0x000000000000FF00) OR
     (drop_bit 24 l AND 0x0000000000FF0000) OR
     (drop_bit 8 l AND 0x00000000FF000000) OR
     (push_bit 8 l AND 0x000000FF00000000) OR
     (push_bit 24 l AND 0x0000FF0000000000) OR
     (push_bit 40 l AND 0x00FF000000000000) OR
     (push_bit 56 l AND 0xFF00000000000000)"

definition htonll :: "u64 \<Rightarrow> u64" where
  "htonll Value = SWAP_LONGLONG Value"

definition ntohll :: "u64 \<Rightarrow> u64" where
  "ntohll Value = SWAP_LONGLONG Value"

text \<open>A \<^verbatim>\<open>float\<close> and a \<^verbatim>\<open>double\<close> are the bit patterns the code reads through a pointer cast.\<close>

definition htonf :: "u32 \<Rightarrow> u32" where
  "htonf Value = (let Tempval = Value; Retval = SWAP_LONG Tempval in Retval)"

definition ntohf :: "u32 \<Rightarrow> u32" where
  "ntohf Value = (let Tempval = SWAP_LONG Value; Retval = Tempval in Retval)"

definition htond :: "u64 \<Rightarrow> u64" where
  "htond Value = (let Tempval = Value; Retval = SWAP_LONGLONG Tempval in Retval)"

definition ntohd :: "u64 \<Rightarrow> u64" where
  "ntohd Value = (let Tempval = SWAP_LONGLONG Value; Retval = Tempval in Retval)"

section \<open>The template and its specialisations\<close>

text \<open>
  The unspecialised template converts its argument to the 32-bit parameter of \<^verbatim>\<open>ntohl\<close> and the
  result back. The signed specialisations do to the bit pattern what the unsigned ones do, so
  one constructor per width covers both.
\<close>

definition ntohv_generic :: "'a::len word \<Rightarrow> 'a word" where
  "ntohv_generic value = ucast (htonl (ucast value))"

datatype scalar = SBool bool | S8 u8 | S16 u16 | S32 u32 | S64 u64

fun ntohv :: "scalar \<Rightarrow> scalar" where
  "ntohv (SBool value) = SBool value"
| "ntohv (S8 value) = S8 value"
| "ntohv (S16 value) = S16 (htons value)"
| "ntohv (S32 value) = S32 (htonl value)"
| "ntohv (S64 value) = S64 (htonll value)"

text \<open>\<^verbatim>\<open>#define htonv ntohv\<close>\<close>

definition htonv :: "scalar \<Rightarrow> scalar" where
  "htonv = ntohv"

section \<open>The conversions reverse the bytes of the object\<close>

lemma le_bytes_htons: "le_bytes 2 (htons v) = rev (le_bytes 2 v)"
  using le_bytes_le_word [of "rev (le_bytes 2 v)", where 'a = 16] by (simp add: htons_def)

lemma le_bytes_htonl: "le_bytes 4 (htonl v) = rev (le_bytes 4 v)"
  using le_bytes_le_word [of "rev (le_bytes 4 v)", where 'a = 32] by (simp add: htonl_def)

lemma byte_masks_32:
  "(0x000000FF :: u32) = mask 8" "(0x0000FF00 :: u32) = push_bit 8 (mask 8)"
  "(0x00FF0000 :: u32) = push_bit 16 (mask 8)" "(0xFF000000 :: u32) = push_bit 24 (mask 8)"
  by (simp_all add: mask_eq_exp_minus_1 push_bit_eq_mult)

lemma byte_masks_64:
  "(0x00000000000000FF :: u64) = mask 8" "(0x000000000000FF00 :: u64) = push_bit 8 (mask 8)"
  "(0x0000000000FF0000 :: u64) = push_bit 16 (mask 8)"
  "(0x00000000FF000000 :: u64) = push_bit 24 (mask 8)"
  "(0x000000FF00000000 :: u64) = push_bit 32 (mask 8)"
  "(0x0000FF0000000000 :: u64) = push_bit 40 (mask 8)"
  "(0x00FF000000000000 :: u64) = push_bit 48 (mask 8)"
  "(0xFF00000000000000 :: u64) = push_bit 56 (mask 8)"
  by (simp_all add: mask_eq_exp_minus_1 push_bit_eq_mult)

lemma le_bytes_SWAP_LONG: "le_bytes 4 (SWAP_LONG l) = rev (le_bytes 4 l)"
  unfolding le_bytes_4 SWAP_LONG_def byte_masks_32 rev.simps append.simps list.inject
  by (intro conjI refl; rule bit_word_eqI; auto simp: bits_simps)

lemma le_bytes_SWAP_LONGLONG: "le_bytes 8 (SWAP_LONGLONG l) = rev (le_bytes 8 l)"
  unfolding le_bytes_8 SWAP_LONGLONG_def byte_masks_64 rev.simps append.simps list.inject
  by (intro conjI refl; rule bit_word_eqI; auto simp: bits_simps)

lemma word_eq_by_bytes:
  "LENGTH('a) \<le> 8 * n \<Longrightarrow> le_bytes n v = le_bytes n w \<Longrightarrow> (v :: 'a::len word) = w"
  by (metis le_word_le_bytes_full)

lemma SWAP_LONG_eq_htonl: "SWAP_LONG l = htonl l"
  by (rule word_eq_by_bytes [where n = 4]) (simp_all add: le_bytes_SWAP_LONG le_bytes_htonl)

lemma htons_htons [codec_simps, simp]: "htons (htons v) = v"
  by (rule word_eq_by_bytes [where n = 2]) (simp_all add: le_bytes_htons)

lemma htonl_htonl [codec_simps, simp]: "htonl (htonl v) = v"
  by (rule word_eq_by_bytes [where n = 4]) (simp_all add: le_bytes_htonl)

lemma SWAP_LONGLONG_SWAP_LONGLONG [codec_simps, simp]: "SWAP_LONGLONG (SWAP_LONGLONG v) = v"
  by (rule word_eq_by_bytes [where n = 8]) (simp_all add: le_bytes_SWAP_LONGLONG)

lemma ntohv_htonv [codec_simps, simp]: "ntohv (htonv v) = v"
  by (cases v) (simp_all add: htonv_def htonll_def)

section \<open>Object representation of scalars\<close>

text \<open>The width tag stands for the template argument the caller instantiates.\<close>

datatype scalar_type = TBool | T8 | T16 | T32 | T64

fun scalar_type_of :: "scalar \<Rightarrow> scalar_type" where
  "scalar_type_of (SBool v) = TBool"
| "scalar_type_of (S8 v) = T8"
| "scalar_type_of (S16 v) = T16"
| "scalar_type_of (S32 v) = T32"
| "scalar_type_of (S64 v) = T64"

fun sizeof :: "scalar_type \<Rightarrow> nat" where
  "sizeof TBool = 1"
| "sizeof T8 = 1"
| "sizeof T16 = 2"
| "sizeof T32 = 4"
| "sizeof T64 = 8"

fun object_bytes :: "scalar \<Rightarrow> bytes" where
  "object_bytes (SBool v) = [if v then 1 else 0]"
| "object_bytes (S8 v) = [v]"
| "object_bytes (S16 v) = le_bytes 2 v"
| "object_bytes (S32 v) = le_bytes 4 v"
| "object_bytes (S64 v) = le_bytes 8 v"

fun object_of :: "scalar_type \<Rightarrow> bytes \<Rightarrow> scalar" where
  "object_of TBool bs = SBool (hd bs \<noteq> 0)"
| "object_of T8 bs = S8 (hd bs)"
| "object_of T16 bs = S16 (le_word bs)"
| "object_of T32 bs = S32 (le_word bs)"
| "object_of T64 bs = S64 (le_word bs)"

lemma length_object_bytes [simp]: "length (object_bytes v) = sizeof (scalar_type_of v)"
  by (cases v) simp_all

lemma object_of_object_bytes [codec_simps, simp]:
  "object_of (scalar_type_of v) (object_bytes v) = v"
  by (cases v) (simp_all add: codec_simps)

lemma scalar_type_of_ntohv [simp]: "scalar_type_of (ntohv v) = scalar_type_of v"
  by (cases v) simp_all

lemma scalar_type_of_htonv [simp]: "scalar_type_of (htonv v) = scalar_type_of v"
  by (simp add: htonv_def)

lemma sizeof_pos [simp]: "0 < sizeof t"
  by (cases t) simp_all

text \<open>Network order: what goes on the wire is the object of the host read backwards.\<close>

lemma network_order: "object_bytes (htonv v) = rev (object_bytes v)"
  by (cases v) (simp_all add: htonv_def htonll_def le_bytes_htons le_bytes_htonl
      le_bytes_SWAP_LONGLONG)

text \<open>The unspecialised template is right for 32-bit integers and loses the upper half of 64-bit ones.\<close>

lemma ntohv_generic_32: "ntohv_generic (v :: u32) = htonl v"
  by (simp add: ntohv_generic_def)

lemma ntohv_generic_64: "ntohv_generic (v :: u64) = ucast (htonl (ucast v))"
  by (simp add: ntohv_generic_def)

end
