(* ===== verification/Codec.thy ===== *)
theory Codec
  imports GPS_Prelude
begin

text \<open>
  The contract between a writer and a reader of a message: writing a value appends its
  encoding, and reading a value of the same shape from a stream that starts with that encoding
  returns the value and leaves the rest. Sequences of values follow once for every pair of
  streams that keeps the contract.
\<close>

fun write_all :: "('o \<Rightarrow> 'v \<Rightarrow> 'o) \<Rightarrow> 'o \<Rightarrow> 'v list \<Rightarrow> 'o" where
  "write_all wr st [] = st"
| "write_all wr st (v # vs) = write_all wr (wr st v) vs"

fun read_all :: "('k \<Rightarrow> 'i \<Rightarrow> 'v outcome \<times> 'i) \<Rightarrow> 'k list \<Rightarrow> 'i \<Rightarrow> 'v list outcome \<times> 'i" where
  "read_all rd [] st = (Returns [], st)"
| "read_all rd (k # ks) st =
     (case rd k st of
        (Returns v, st') \<Rightarrow>
          (let (r, st'') = read_all rd ks st' in (bind_outcome r (\<lambda>vs. Returns (v # vs)), st''))
      | (Throws, st') \<Rightarrow> (Throws, st')
      | (Aborts, st') \<Rightarrow> (Aborts, st')
      | (OutOfBounds, st') \<Rightarrow> (OutOfBounds, st'))"

locale stream_codec =
  fixes write_one :: "'o \<Rightarrow> 'v \<Rightarrow> 'o"
    and read_one :: "'k \<Rightarrow> 'i \<Rightarrow> 'v outcome \<times> 'i"
    and shape :: "'v \<Rightarrow> 'k"
    and encoding :: "'v \<Rightarrow> bytes"
    and encodable :: "'v \<Rightarrow> bool"
    and written :: "'o \<Rightarrow> bytes"
    and pending :: "'i \<Rightarrow> bytes"
    and good :: "'i \<Rightarrow> bool"
  assumes written_write: "written (write_one st v) = written st @ encoding v"
    and read_encoding: "good i \<Longrightarrow> encodable v \<Longrightarrow> pending i = encoding v @ rest \<Longrightarrow>
      \<exists>i'. read_one (shape v) i = (Returns v, i') \<and> good i' \<and> pending i' = rest"
begin

lemma written_write_all:
  "written (write_all write_one st vs) = written st @ concat (map encoding vs)"
  by (induction vs arbitrary: st) (simp_all add: written_write)

lemma read_all_encoding:
  "good i \<Longrightarrow> \<forall>v \<in> set vs. encodable v \<Longrightarrow> pending i = concat (map encoding vs) @ rest \<Longrightarrow>
    \<exists>i'. read_all read_one (map shape vs) i = (Returns vs, i') \<and> good i' \<and> pending i' = rest"
proof (induction vs arbitrary: i)
  case Nil
  then show ?case by simp
next
  case (Cons v vs)
  obtain i' where step: "read_one (shape v) i = (Returns v, i')" and "good i'"
    and "pending i' = concat (map encoding vs) @ rest"
    using read_encoding [of i v "concat (map encoding vs) @ rest"] Cons.prems by auto
  with Cons.IH [of i'] Cons.prems(2) obtain i''
    where "read_all read_one (map shape vs) i' = (Returns vs, i'')" "good i''" "pending i'' = rest"
    by auto
  with step show ?case by simp
qed

lemma read_back:
  assumes "good i" and "\<forall>v \<in> set vs. encodable v"
    and "pending i = written (write_all write_one st vs)" and "written st = []"
  shows "\<exists>i'. read_all read_one (map shape vs) i = (Returns vs, i') \<and> good i' \<and> pending i' = []"
  using read_all_encoding [of i vs "[]"] assms by (simp add: written_write_all)

end

end
