(* ===== verification/BinaryStream.thy ===== *)
theory BinaryStream
  imports Endian Codec
begin

text \<open>
  The binary message streams, \<^verbatim>\<open>xxsocket/src/obinarystream.h\<close>, \<^verbatim>\<open>obinarystream.cpp\<close>,
  \<^verbatim>\<open>ibinarystream.h\<close> and \<^verbatim>\<open>ibinarystream.cpp\<close>: a writer that appends to a byte vector and a
  reader that walks over memory it does not own. A read is an \<^typ>\<open>'a outcome\<close>: the code reads
  the memory first and checks the remaining count afterwards, so a read past the memory is not
  the exception of \<^verbatim>\<open>consume\<close> but an access outside the object.
\<close>

section \<open>The writer\<close>

record obinarystream =
  os_buffer :: bytes

definition obinarystream_new :: "nat \<Rightarrow> obinarystream" where
  "obinarystream_new buffersize = \<lparr>os_buffer = []\<rparr>"

definition obinarystream_copy :: "obinarystream \<Rightarrow> obinarystream" where
  "obinarystream_copy right = \<lparr>os_buffer = os_buffer right\<rparr>"

text \<open>\<^verbatim>\<open>move\<close> hands the vector out; the stream is left with an empty one.\<close>

definition obinarystream_move :: "obinarystream \<Rightarrow> bytes \<times> obinarystream" where
  "obinarystream_move os = (os_buffer os, os\<lparr>os_buffer := []\<rparr>)"

definition write_i :: "obinarystream \<Rightarrow> scalar \<Rightarrow> obinarystream \<times> nat" where
  "write_i os value =
     (let offset = length (os_buffer os);
          nv = htonv value
      in (os\<lparr>os_buffer := os_buffer os @ object_bytes nv\<rparr>, offset))"

definition write_i_float :: "obinarystream \<Rightarrow> u32 \<Rightarrow> obinarystream \<times> nat" where
  "write_i_float os value =
     (let offset = length (os_buffer os);
          nv = htonf value
      in (os\<lparr>os_buffer := os_buffer os @ le_bytes 4 nv\<rparr>, offset))"

definition write_i_double :: "obinarystream \<Rightarrow> u64 \<Rightarrow> obinarystream \<times> nat" where
  "write_i_double os value =
     (let offset = length (os_buffer os);
          nv = htond value
      in (os\<lparr>os_buffer := os_buffer os @ le_bytes 8 nv\<rparr>, offset))"

text \<open>The length header is the size converted to 16 bits.\<close>

definition write_v :: "obinarystream \<Rightarrow> bytes \<Rightarrow> obinarystream" where
  "write_v os value =
     (let sz = length value;
          l = htonv (S16 (word_of_nat sz));
          append_size = 2 + sz;
          offset = length (os_buffer os);
          b0 = vec_resize (offset + append_size) (os_buffer os);
          b1 = copy_at offset (object_bytes l) b0;
          b2 = (if sz > 0 then copy_at (offset + 2) value b1 else b1)
      in os\<lparr>os_buffer := b2\<rparr>)"

text \<open>
  The pointer overload takes an \<^verbatim>\<open>int\<close>: the new size is computed in \<^verbatim>\<open>size_t\<close> and wraps for a
  negative one; \<open>max_size\<close> is the largest vector (\<^verbatim>\<open>PTRDIFF_MAX\<close> bytes), beyond which
  \<^verbatim>\<open>resize\<close> throws.
\<close>

definition vec_max_size :: int where
  "vec_max_size = 2 ^ 63 - 1"

definition write_v_ptr :: "obinarystream \<Rightarrow> bytes \<Rightarrow> int \<Rightarrow> obinarystream outcome" where
  "write_v_ptr os v sz =
     (let l = htonv (S16 (word_of_int sz));
          append_size = (2 + sz) mod 2 ^ 64;
          offset = length (os_buffer os);
          new_size = (int offset + append_size) mod 2 ^ 64
      in if new_size > vec_max_size then Throws
         else if new_size < int offset + 2 then OutOfBounds
         else if sz > int (length v) then OutOfBounds
         else let b0 = vec_resize (nat new_size) (os_buffer os);
                  b1 = copy_at offset (object_bytes l) b0;
                  b2 = (if sz > 0 then copy_at (offset + 2) (take (nat sz) v) b1 else b1)
              in Returns (os\<lparr>os_buffer := b2\<rparr>))"

definition write_array_ptr :: "obinarystream \<Rightarrow> bytes \<Rightarrow> int \<Rightarrow> obinarystream outcome" where
  "write_array_ptr os v vl =
     (if vl > 0 then
        if vl > int (length v) then OutOfBounds
        else let offset = length (os_buffer os);
                 b0 = vec_resize (offset + nat vl) (os_buffer os)
             in Returns (os\<lparr>os_buffer := copy_at offset (take (nat vl) v) b0\<rparr>)
      else Returns os)"

definition write_array :: "obinarystream \<Rightarrow> bytes \<Rightarrow> obinarystream outcome" where
  "write_array os v = write_array_ptr os v (c_int (int (length v)))"

definition modify_i :: "obinarystream \<Rightarrow> int \<Rightarrow> scalar \<Rightarrow> obinarystream outcome" where
  "modify_i os offset value =
     (let nv = object_bytes (htonv value)
      in if offset < 0 \<or> nat offset + length nv > length (os_buffer os) then OutOfBounds
         else Returns (os\<lparr>os_buffer := copy_at (nat offset) nv (os_buffer os)\<rparr>))"

definition set_length :: "obinarystream \<Rightarrow> obinarystream outcome" where
  "set_length os = modify_i os 0 (S16 (word_of_nat (length (os_buffer os))))"

text \<open>\<^verbatim>\<open>save\<close>: the bytes handed to the file; \<^verbatim>\<open>front\<close> of an empty vector is undefined.\<close>

definition save_bytes :: "obinarystream \<Rightarrow> bytes outcome" where
  "save_bytes os = (if os_buffer os = [] then OutOfBounds else Returns (os_buffer os))"

section \<open>The reader\<close>

text \<open>
  \<open>is_mem\<close> is the memory the caller's pointer may be read through, \<open>is_ptr\<close> an offset in it,
  \<open>is_remain\<close> the caller's count of the bytes left.
\<close>

record ibinarystream =
  is_mem :: bytes
  is_ptr :: nat
  is_remain :: int

definition vassign :: "bytes \<Rightarrow> int \<Rightarrow> ibinarystream" where
  "vassign data sz = \<lparr>is_mem = data, is_ptr = 0, is_remain = sz\<rparr>"

definition consume :: "nat \<Rightarrow> ibinarystream \<Rightarrow> int outcome \<times> ibinarystream" where
  "consume sz s =
     (let s' = s\<lparr>is_ptr := is_ptr s + sz, is_remain := c_int (is_remain s - int sz)\<rparr>
      in if is_remain s' < 0 then (Throws, s') else (Returns (is_remain s'), s'))"

text \<open>\<open>n\<close> bytes through the pointer, when the memory holds them.\<close>

definition peek :: "nat \<Rightarrow> ibinarystream \<Rightarrow> bytes outcome" where
  "peek n s = (if is_ptr s + n \<le> length (is_mem s) then Returns (take n (drop (is_ptr s) (is_mem s)))
     else OutOfBounds)"

definition read_i :: "scalar_type \<Rightarrow> ibinarystream \<Rightarrow> scalar outcome \<times> ibinarystream" where
  "read_i t s =
     (case peek (sizeof t) s of
        Returns bs \<Rightarrow>
          (let ov = ntohv (object_of t bs);
               (r, s') = consume (sizeof t) s
           in (bind_outcome r (\<lambda>_. Returns ov), s'))
      | Throws \<Rightarrow> (Throws, s)
      | Aborts \<Rightarrow> (Aborts, s)
      | OutOfBounds \<Rightarrow> (OutOfBounds, s))"

definition read_i_float :: "ibinarystream \<Rightarrow> u32 outcome \<times> ibinarystream" where
  "read_i_float s =
     (case peek 4 s of
        Returns bs \<Rightarrow>
          (let ov = ntohf (le_word bs); (r, s') = consume 4 s
           in (bind_outcome r (\<lambda>_. Returns ov), s'))
      | Throws \<Rightarrow> (Throws, s)
      | Aborts \<Rightarrow> (Aborts, s)
      | OutOfBounds \<Rightarrow> (OutOfBounds, s))"

definition read_i_double :: "ibinarystream \<Rightarrow> u64 outcome \<times> ibinarystream" where
  "read_i_double s =
     (case peek 8 s of
        Returns bs \<Rightarrow>
          (let ov = ntohd (le_word bs); (r, s') = consume 8 s
           in (bind_outcome r (\<lambda>_. Returns ov), s'))
      | Throws \<Rightarrow> (Throws, s)
      | Aborts \<Rightarrow> (Aborts, s)
      | OutOfBounds \<Rightarrow> (OutOfBounds, s))"

text \<open>
  \<^verbatim>\<open>read_v(std::string&)\<close>: \<open>ov\<close> is the caller's string, returned as the code leaves it,
  together with the count returned.
\<close>

definition read_v :: "bytes \<Rightarrow> ibinarystream \<Rightarrow> (int \<times> bytes) outcome \<times> ibinarystream" where
  "read_v ov s =
     (case peek 2 s of
        Returns bs \<Rightarrow>
          (let n = unat (ntohs (le_word bs));
               (r, s1) = consume 2 s
           in case r of
                Returns _ \<Rightarrow>
                  if n > 0 then
                    (case peek n s1 of
                       Returns ov' \<Rightarrow>
                         (let (r', s2) = consume n s1
                          in (bind_outcome r' (\<lambda>k. Returns (k, ov')), s2))
                     | Throws \<Rightarrow> (Throws, s1)
                     | Aborts \<Rightarrow> (Aborts, s1)
                     | OutOfBounds \<Rightarrow> (OutOfBounds, s1))
                  else (Returns (is_remain s1, ov), s1)
              | Throws \<Rightarrow> (Throws, s1)
              | Aborts \<Rightarrow> (Aborts, s1)
              | OutOfBounds \<Rightarrow> (OutOfBounds, s1))
      | Throws \<Rightarrow> (Throws, s)
      | Aborts \<Rightarrow> (Aborts, s)
      | OutOfBounds \<Rightarrow> (OutOfBounds, s))"

text \<open>
  \<^verbatim>\<open>read_v(void*, int len)\<close>: \<open>dst\<close> is the caller's memory, \<open>len\<close> the bytes it says it
  has. The count is clamped to \<open>len\<close> by an assignment to the 16-bit \<^verbatim>\<open>n\<close>.
\<close>

definition read_v_ptr ::
    "bytes \<Rightarrow> int \<Rightarrow> ibinarystream \<Rightarrow> (int \<times> bytes) outcome \<times> ibinarystream" where
  "read_v_ptr dst len s =
     (case peek 2 s of
        Returns bs \<Rightarrow>
          (let n0 = unat (ntohs (le_word bs));
               (r, s1) = consume 2 s
           in case r of
                Returns _ \<Rightarrow>
                  if n0 > 0 then
                    (let n = (if len < int n0 then unat (word_of_int len :: u16) else n0)
                     in if n > length dst then (OutOfBounds, s1)
                        else case peek n s1 of
                          Returns bs' \<Rightarrow>
                            (let (r', s2) = consume n s1
                             in (bind_outcome r' (\<lambda>k. Returns (k, copy_at 0 bs' dst)), s2))
                        | Throws \<Rightarrow> (Throws, s1)
                        | Aborts \<Rightarrow> (Aborts, s1)
                        | OutOfBounds \<Rightarrow> (OutOfBounds, s1))
                  else (Returns (is_remain s1, dst), s1)
              | Throws \<Rightarrow> (Throws, s1)
              | Aborts \<Rightarrow> (Aborts, s1)
              | OutOfBounds \<Rightarrow> (OutOfBounds, s1))
      | Throws \<Rightarrow> (Throws, s)
      | Aborts \<Rightarrow> (Aborts, s)
      | OutOfBounds \<Rightarrow> (OutOfBounds, s))"

definition read_array_ptr ::
    "bytes \<Rightarrow> int \<Rightarrow> ibinarystream \<Rightarrow> (int \<times> bytes) outcome \<times> ibinarystream" where
  "read_array_ptr dst len s =
     (if len > 0 then
        if nat len > length dst then (OutOfBounds, s)
        else case peek (nat len) s of
          Returns bs \<Rightarrow>
            (let (r, s') = consume (nat len) s
             in (bind_outcome r (\<lambda>k. Returns (k, copy_at 0 bs dst)), s'))
        | Throws \<Rightarrow> (Throws, s)
        | Aborts \<Rightarrow> (Aborts, s)
        | OutOfBounds \<Rightarrow> (OutOfBounds, s)
      else (Returns (0, dst), s))"

definition read_array :: "bytes \<Rightarrow> int \<Rightarrow> ibinarystream \<Rightarrow> (int \<times> bytes) outcome \<times> ibinarystream"
where
  "read_array oav len s =
     (if len > 0 then read_array_ptr (vec_resize (nat len) oav) len s
      else (Returns (0, oav), s))"

section \<open>The writer appends network-order encodings\<close>

definition str_encoding :: "bytes \<Rightarrow> bytes" where
  "str_encoding v = rev (le_bytes 2 (word_of_nat (length v) :: u16)) @ v"

lemma write_i_buffer: "os_buffer (fst (write_i os v)) = os_buffer os @ rev (object_bytes v)"
  by (simp add: write_i_def Let_def network_order)

lemma write_v_buffer: "os_buffer (write_v os v) = os_buffer os @ str_encoding v"
proof -
  let ?l = "object_bytes (htonv (S16 (word_of_nat (length v))))"
  have l: "?l = rev (le_bytes 2 (word_of_nat (length v) :: u16))"
    by (simp add: network_order)
  have "vec_resize (length (os_buffer os) + (2 + length v)) (os_buffer os)
      = os_buffer os @ replicate 2 0 @ replicate (length v) 0"
    by (simp only: vec_resize_grow replicate_add)
  moreover have "copy_at (length (os_buffer os)) ?l (os_buffer os @ replicate 2 0 @ replicate (length v) 0)
      = os_buffer os @ ?l @ replicate (length v) 0"
    by (rule copy_at_inside) (simp add: l)
  moreover have "copy_at (length (os_buffer os) + 2) v (os_buffer os @ ?l @ replicate (length v) 0)
      = os_buffer os @ ?l @ v"
    using copy_at_end [of v "replicate (length v) 0" "os_buffer os @ ?l"] by (simp add: l)
  ultimately show ?thesis
    by (cases "v = []") (simp_all add: write_v_def Let_def str_encoding_def network_order)
qed

section \<open>The reader on a well-formed message\<close>

text \<open>The count agrees with the memory left: what \<^verbatim>\<open>vassign(data, size)\<close> sets up and reads keep.\<close>

definition in_step :: "ibinarystream \<Rightarrow> bool" where
  "in_step s \<longleftrightarrow> int (is_ptr s) + is_remain s = int (length (is_mem s))
     \<and> is_ptr s \<le> length (is_mem s) \<and> length (is_mem s) < 2 ^ 31"

definition unread :: "ibinarystream \<Rightarrow> bytes" where
  "unread s = drop (is_ptr s) (is_mem s)"

lemma in_step_vassign: "length data < 2 ^ 31 \<Longrightarrow> in_step (vassign data (int (length data)))"
  by (simp add: in_step_def vassign_def)

lemma unread_vassign [simp]: "unread (vassign data n) = data"
  by (simp add: unread_def vassign_def)

lemma consume_in_step:
  assumes "in_step s" and "n \<le> length (unread s)"
  shows "consume n s = (Returns (is_remain s - int n),
      s\<lparr>is_ptr := is_ptr s + n, is_remain := is_remain s - int n\<rparr>)"
proof -
  have "int n \<le> is_remain s" "is_remain s < 2 ^ 31"
    using assms by (auto simp: in_step_def unread_def)
  then show ?thesis by (simp add: consume_def Let_def)
qed

lemma advance_in_step [inv_intros]:
  "in_step s \<Longrightarrow> n \<le> length (unread s) \<Longrightarrow>
    in_step (s\<lparr>is_ptr := is_ptr s + n, is_remain := is_remain s - int n\<rparr>)"
  by (auto simp: in_step_def unread_def)

lemma unread_advance:
  "unread (s\<lparr>is_ptr := is_ptr s + n, is_remain := k\<rparr>) = drop n (unread s)"
  by (simp add: unread_def add.commute)

lemma peek_unread: "n \<le> length (unread s) \<Longrightarrow> 0 < n \<Longrightarrow> peek n s = Returns (take n (unread s))"
  by (auto simp: peek_def unread_def)

lemmas reader_simps = consume_in_step peek_unread unread_advance bind_outcome.simps

lemma read_i_encoding:
  assumes "in_step s" and "unread s = rev (object_bytes v) @ rest"
  shows "read_i (scalar_type_of v) s = (Returns v,
      s\<lparr>is_ptr := is_ptr s + sizeof (scalar_type_of v),
        is_remain := is_remain s - int (sizeof (scalar_type_of v))\<rparr>)"
proof -
  have "object_of (scalar_type_of v) (rev (object_bytes v)) = htonv v"
    using object_of_object_bytes [of "htonv v"] by (simp add: network_order)
  with assms show ?thesis
    by (simp add: read_i_def reader_simps Let_def)
qed

lemma read_v_encoding:
  assumes "in_step s" and "unread s = str_encoding v @ rest" and "length v < 2 ^ 16"
  shows "read_v ov s = (Returns (is_remain s - int (2 + length v), if v = [] then ov else v),
      s\<lparr>is_ptr := is_ptr s + (2 + length v),
        is_remain := is_remain s - int (2 + length v)\<rparr>)"
proof -
  let ?n = "word_of_nat (length v) :: u16"
  let ?s1 = "s\<lparr>is_ptr := is_ptr s + 2, is_remain := is_remain s - 2\<rparr>"
  have hdr: "take 2 (unread s) = rev (le_bytes 2 ?n)"
    using assms(2) by (simp add: str_encoding_def)
  have "rev (le_bytes 2 ?n) = le_bytes 2 (htons ?n)"
    by (simp add: le_bytes_htons)
  then have n: "ntohs (le_word (rev (le_bytes 2 ?n))) = ?n"
    by (simp add: ntohs_def codec_simps)
  have un: "unat ?n = length v"
    using assms(3) by (simp add: unat_of_nat)
  have len: "2 \<le> length (unread s)"
    using assms(2) by (simp add: str_encoding_def)
  have s1: "in_step ?s1"
    using advance_in_step [OF assms(1) len] by simp
  have u1: "unread ?s1 = v @ rest"
    unfolding unread_advance using assms(2) by (simp add: str_encoding_def)
  show ?thesis
  proof (cases "v = []")
    case True
    with assms(1) len hdr n un show ?thesis
      by (simp add: read_v_def reader_simps Let_def)
  next
    case False
    then have "peek (length v) ?s1 = Returns v"
      using peek_unread [of "length v" ?s1] u1 by simp
    with False assms(1) len hdr n un consume_in_step [OF s1, of "length v"] u1 show ?thesis
      by (simp add: read_v_def reader_simps Let_def algebra_simps)
  qed
qed

section \<open>Messages: sequences of scalars and strings\<close>

text \<open>A message is written and read field by field; the reader names the types it expects.\<close>

datatype field = FScalar scalar | FString bytes

datatype field_kind = KScalar scalar_type | KString

fun kind_of :: "field \<Rightarrow> field_kind" where
  "kind_of (FScalar v) = KScalar (scalar_type_of v)"
| "kind_of (FString v) = KString"

fun write_field :: "obinarystream \<Rightarrow> field \<Rightarrow> obinarystream" where
  "write_field os (FScalar v) = fst (write_i os v)"
| "write_field os (FString v) = write_v os v"

fun read_field :: "field_kind \<Rightarrow> ibinarystream \<Rightarrow> field outcome \<times> ibinarystream" where
  "read_field (KScalar t) s =
     (let (r, s') = read_i t s in (bind_outcome r (\<lambda>v. Returns (FScalar v)), s'))"
| "read_field KString s =
     (let (r, s') = read_v [] s in (bind_outcome r (\<lambda>(k, v). Returns (FString v)), s'))"

fun field_encoding :: "field \<Rightarrow> bytes" where
  "field_encoding (FScalar v) = rev (object_bytes v)"
| "field_encoding (FString v) = str_encoding v"

fun field_fits :: "field \<Rightarrow> bool" where
  "field_fits (FScalar v) = True"
| "field_fits (FString v) = (length v < 2 ^ 16)"

lemma length_str_encoding [simp]: "length (str_encoding v) = 2 + length v"
  by (simp add: str_encoding_def)

lemma read_field_encoding:
  assumes "in_step s" and "field_fits v" and "unread s = field_encoding v @ rest"
  shows "\<exists>s'. read_field (kind_of v) s = (Returns v, s') \<and> in_step s' \<and> unread s' = rest"
proof (cases v)
  case (FScalar w)
  let ?n = "sizeof (scalar_type_of w)"
  have "?n \<le> length (unread s)" using assms FScalar by simp
  from advance_in_step [OF assms(1) this] show ?thesis
    using assms FScalar by (simp add: read_i_encoding unread_advance)
next
  case (FString w)
  have n: "2 + length w \<le> length (unread s)" using assms FString by simp
  have "read_v [] s = (Returns (is_remain s - int (2 + length w), w),
      s\<lparr>is_ptr := is_ptr s + (2 + length w), is_remain := is_remain s - int (2 + length w)\<rparr>)"
    using read_v_encoding [OF assms(1), of w rest "[]"] assms FString by simp
  moreover have "unread (s\<lparr>is_ptr := is_ptr s + (2 + length w),
      is_remain := is_remain s - int (2 + length w)\<rparr>) = rest"
    unfolding unread_advance using assms FString by simp
  ultimately show ?thesis
    using advance_in_step [OF assms(1) n] FString by simp
qed

text \<open>No read changes the memory the stream walks over.\<close>

lemma consume_mem: "is_mem (snd (consume n s)) = is_mem s"
  by (simp add: consume_def Let_def)

lemma read_i_mem: "is_mem (snd (read_i t s)) = is_mem s"
  using consume_mem [of "sizeof t" s]
  by (auto simp: read_i_def Let_def split: outcome.split prod.split)

lemma read_v_mem: "is_mem (snd (read_v ov s)) = is_mem s"
  using consume_mem
  by (auto simp: read_v_def Let_def split: outcome.split prod.split) (metis snd_conv)+

lemma read_field_mem: "is_mem (snd (read_field k s)) = is_mem s"
  using read_i_mem [where s = s] read_v_mem [where s = s]
  by (cases k) (auto split: prod.split, metis snd_conv, metis snd_conv)

lemma read_all_mem: "read_all read_field ks s = (r, s') \<Longrightarrow> is_mem s' = is_mem s"
proof (induction ks arbitrary: s r)
  case Nil
  then show ?case by simp
next
  case (Cons k ks)
  with read_field_mem [of k s] show ?case
    by (auto split: prod.splits outcome.splits)
qed

interpretation message: stream_codec write_field read_field kind_of field_encoding field_fits
    os_buffer unread in_step
proof unfold_locales
  fix st v
  show "os_buffer (write_field st v) = os_buffer st @ field_encoding v"
    by (cases v) (simp_all add: write_i_buffer write_v_buffer)
next
  fix i v rest
  assume "in_step i" "field_fits v" "unread i = field_encoding v @ rest"
  then show "\<exists>i'. read_field (kind_of v) i = (Returns v, i') \<and> in_step i' \<and> unread i' = rest"
    by (rule read_field_encoding)
qed

section \<open>Properties\<close>

text \<open>
  C40. Reading back a message: for any sequence of booleans, 8/16/32/64-bit integers and strings
  of fewer than 65536 bytes, reading the buffer that writing the sequence produced, field by
  field, returns the same values and consumes the whole buffer, with no read outside it.
\<close>

theorem message_roundtrip:
  assumes "\<forall>v \<in> set vs. field_fits v"
    and "b = os_buffer (write_all write_field (obinarystream_new n) vs)"
    and "length b < 2 ^ 31"
  shows "\<exists>s'. read_all read_field (map kind_of vs) (vassign b (int (length b))) = (Returns vs, s')
    \<and> is_ptr s' = length b \<and> is_remain s' = 0"
proof -
  obtain s' where s': "read_all read_field (map kind_of vs) (vassign b (int (length b))) = (Returns vs, s')"
    and "in_step s'" "unread s' = []" "is_mem s' = b"
  proof -
    obtain s' where r: "read_all read_field (map kind_of vs) (vassign b (int (length b))) = (Returns vs, s')"
      and "in_step s'" "unread s' = []"
      using message.read_back [of "vassign b (int (length b))" vs "obinarystream_new n"] assms
      by (auto simp: in_step_vassign obinarystream_new_def)
    moreover have "is_mem s' = b"
      using read_all_mem [OF r] by (simp add: vassign_def)
    ultimately show ?thesis using that by blast
  qed
  then show ?thesis by (auto simp: in_step_def unread_def)
qed

theorem message_roundtrip_witness:
  "\<exists>s'. read_all read_field [KScalar T16, KString, KScalar TBool] (vassign
      (os_buffer (write_all write_field (obinarystream_new 0)
        [FScalar (S16 258), FString [7, 8], FScalar (SBool True)])) 7)
    = (Returns [FScalar (S16 258), FString [7, 8], FScalar (SBool True)], s')
    \<and> is_ptr s' = 7 \<and> is_remain s' = 0"
proof -
  let ?vs = "[FScalar (S16 258), FString [7, 8], FScalar (SBool True)]"
  have len: "length (os_buffer (write_all write_field (obinarystream_new 0) ?vs)) = 7"
    by (simp add: message.written_write_all del: write_all.simps)
      (simp add: obinarystream_new_def)
  show ?thesis
    using message_roundtrip [of ?vs, OF _ refl, of 0] len by simp
qed

text \<open>The number of bytes the header in front of the stream declares.\<close>

definition declared :: "ibinarystream \<Rightarrow> nat" where
  "declared s = unat (ntohs (le_word (take 2 (unread s))))"

lemma peek_in_step:
  "in_step s \<Longrightarrow> peek n s = (if n \<le> length (unread s) then Returns (take n (unread s)) else OutOfBounds)"
  by (auto simp: peek_def unread_def in_step_def)

text \<open>
  A truncated message is read out of bounds instead of being refused: on a stream whose
  count agrees with its memory the exception of \<^verbatim>\<open>consume\<close> is never the first thing to happen.
  A scalar read is out of bounds exactly when fewer bytes than its size are left, a string read
  exactly when the header or the declared length runs past the memory; otherwise both return.
\<close>

theorem truncated_read_out_of_bounds:
  assumes "in_step s"
  shows "fst (read_i t s) \<noteq> Throws \<and> fst (read_v ov s) \<noteq> Throws
    \<and> (fst (read_i t s) = OutOfBounds \<longleftrightarrow> length (unread s) < sizeof t)
    \<and> (fst (read_v ov s) = OutOfBounds \<longleftrightarrow>
        length (unread s) < 2 \<or> length (unread s) < 2 + declared s)"
proof -
  let ?s1 = "s\<lparr>is_ptr := is_ptr s + 2, is_remain := is_remain s - int 2\<rparr>"
  have i: "fst (read_i t s) \<noteq> Throws \<and> (fst (read_i t s) = OutOfBounds \<longleftrightarrow> length (unread s) < sizeof t)"
    using assms by (simp add: read_i_def peek_in_step consume_in_step Let_def)
  have "fst (read_v ov s) \<noteq> Throws \<and> (fst (read_v ov s) = OutOfBounds \<longleftrightarrow>
        length (unread s) < 2 \<or> length (unread s) < 2 + declared s)"
  proof (cases "2 \<le> length (unread s)")
    case False
    with assms show ?thesis by (simp add: read_v_def peek_in_step)
  next
    case True
    have s1: "in_step ?s1" by (rule advance_in_step [OF assms True])
    have u1: "length (unread ?s1) = length (unread s) - 2"
      by (simp only: unread_advance length_drop)
    show ?thesis
      using assms True peek_in_step [OF s1] consume_in_step [OF s1] u1
      by (auto simp: read_v_def peek_in_step consume_in_step declared_def Let_def)
  qed
  with i show ?thesis by blast
qed

theorem truncated_read_out_of_bounds_witness:
  "fst (read_v [] (vassign [0, 5, 65] 3)) = OutOfBounds"
proof -
  have "in_step (vassign [0, 5, 65] 3)" using in_step_vassign [of "[0, 5, 65]"] by simp
  moreover have "declared (vassign [0, 5, 65] 3) = 5"
    by (simp add: declared_def ntohs_def htons_def le_bytes_2)
  ultimately show ?thesis
    using truncated_read_out_of_bounds [of "vassign [0, 5, 65] 3" TBool "[]"] by simp
qed

text \<open>
  The 16-bit header bounds what a string field can carry: reading back a string of any
  length that \<^verbatim>\<open>write_v\<close> wrote returns its first \<open>length v mod 65536\<close> bytes and leaves the
  others unread, and where that number is 0 the caller's string keeps its old contents.
\<close>

theorem write_v_read_v_length:
  assumes "in_step s" and "unread s = os_buffer (write_v (obinarystream_new n) v) @ rest"
  shows "\<exists>s'. read_v ov s = (Returns (is_remain s', if length v mod 2 ^ 16 = 0 then ov
        else take (length v mod 2 ^ 16) v), s')
    \<and> in_step s' \<and> unread s' = drop (length v mod 2 ^ 16) v @ rest"
proof -
  let ?m = "length v mod 2 ^ 16"
  let ?w = "take ?m v"
  have m: "?m \<le> length v" by simp
  have lw: "length ?w = ?m" using m by simp
  have "(word_of_nat (length v) :: u16) = word_of_nat ?m"
    by (rule word_unat_eq_iff [THEN iffD2]) (simp add: unat_of_nat)
  then have enc: "str_encoding v = str_encoding ?w @ drop ?m v"
    using lw by (simp add: str_encoding_def)
  then have un: "unread s = str_encoding ?w @ drop ?m v @ rest"
    using assms(2) by (simp add: write_v_buffer obinarystream_new_def)
  have n: "2 + length ?w \<le> length (unread s)" by (simp add: un)
  have "(?w = []) = (?m = 0)" using lw by auto
  with read_v_encoding [OF assms(1) un, of ov] lw
  have "read_v ov s = (Returns (is_remain s - int (2 + length ?w), if ?m = 0 then ov else ?w),
      s\<lparr>is_ptr := is_ptr s + (2 + length ?w), is_remain := is_remain s - int (2 + length ?w)\<rparr>)"
    by simp
  moreover have "unread (s\<lparr>is_ptr := is_ptr s + (2 + length ?w),
      is_remain := is_remain s - int (2 + length ?w)\<rparr>) = drop ?m v @ rest"
    unfolding unread_advance by (simp add: un)
  ultimately show ?thesis using advance_in_step [OF assms(1) n] by auto
qed

theorem write_v_read_v_length_witness:
  "\<exists>s'. read_v [] (vassign (os_buffer (write_v (obinarystream_new 0) (replicate 65537 9))) 65539)
      = (Returns (is_remain s', [9]), s') \<and> in_step s' \<and> unread s' = replicate 65536 9"
proof -
  let ?b = "os_buffer (write_v (obinarystream_new 0) (replicate 65537 9))"
  have len: "length ?b = 65539"
    by (simp add: write_v_buffer obinarystream_new_def)
  then have "in_step (vassign ?b 65539)"
    using in_step_vassign [of ?b] by (simp)
  then show ?thesis
    using write_v_read_v_length [of "vassign ?b 65539" 0 "replicate 65537 9" "[]" "[]"]
    by (simp)
qed

text \<open>
  The pointer overload of \<^verbatim>\<open>read_v\<close> skips only the bytes it copies, so a field longer than the
  caller's buffer leaves its tail in front of the next read.
\<close>

lemma read_v_ptr_leaves_tail:
  assumes "in_step s" and "unread s = str_encoding v @ rest" and "length v < 2 ^ 16"
    and "k < length v" and "k \<le> length dst" and "0 < k"
  shows "\<exists>s'. read_v_ptr dst (int k) s = (Returns (is_remain s', copy_at 0 (take k v) dst), s')
    \<and> in_step s' \<and> unread s' = drop k v @ rest"
proof -
  let ?n = "word_of_nat (length v) :: u16"
  let ?s1 = "s\<lparr>is_ptr := is_ptr s + 2, is_remain := is_remain s - int 2\<rparr>"
  let ?s2 = "?s1\<lparr>is_ptr := is_ptr ?s1 + k, is_remain := is_remain ?s1 - int k\<rparr>"
  have hdr: "take 2 (unread s) = rev (le_bytes 2 ?n)"
    using assms(2) by (simp add: str_encoding_def)
  have "rev (le_bytes 2 ?n) = le_bytes 2 (htons ?n)"
    by (simp add: le_bytes_htons)
  then have n: "unat (ntohs (le_word (rev (le_bytes 2 ?n)))) = length v"
    using assms(3) by (simp add: ntohs_def codec_simps unat_of_nat)
  have len: "2 \<le> length (unread s)" using assms(2) by simp
  have s1: "in_step ?s1" by (rule advance_in_step [OF assms(1) len])
  have u1: "unread ?s1 = v @ rest"
    unfolding unread_advance using assms(2) by (simp add: str_encoding_def)
  have v: "v \<noteq> []" using assms(4) by auto
  have k1: "k \<le> length (unread ?s1)" using assms(4) u1 by simp
  have k16: "unat (word_of_int (int k) :: u16) = k"
    using assms(3,4) by (simp add: unat_of_nat)
  have "read_v_ptr dst (int k) s = (Returns (is_remain ?s2, copy_at 0 (take k v) dst), ?s2)"
    using v assms len hdr n k16 peek_in_step [OF s1, of k] consume_in_step [OF s1 k1] k1 u1
    by (simp add: read_v_ptr_def peek_in_step consume_in_step [OF assms(1) len] Let_def
        del: of_nat_numeral)
  moreover have "unread ?s2 = drop k v @ rest"
  proof -
    have "unread ?s2 = drop k (unread ?s1)" by (rule unread_advance)
    also have "\<dots> = drop k v @ rest" unfolding u1 using assms(4) by simp
    finally show ?thesis .
  qed
  ultimately show ?thesis using advance_in_step [OF s1 k1] by blast
qed

text \<open>\<^verbatim>\<open>set_length\<close> overwrites the first two bytes with the size in network order, and nothing else.\<close>

lemma set_length_buffer:
  "2 \<le> length (os_buffer os) \<Longrightarrow>
    set_length os = Returns (os\<lparr>os_buffer :=
      rev (le_bytes 2 (word_of_nat (length (os_buffer os)) :: u16)) @ drop 2 (os_buffer os)\<rparr>)"
  by (simp add: set_length_def modify_i_def Let_def copy_at_def network_order numeral_2_eq_2)

lemma set_length_short: "length (os_buffer os) < 2 \<Longrightarrow> set_length os = OutOfBounds"
  by (simp add: set_length_def modify_i_def Let_def)

end
