(* ===== verification/Hashing.thy ===== *)
theory Hashing
  imports GPS_Prelude
begin

text \<open>
  The contract of an incremental message digest: a context represents the message fed so far,
  \<open>update\<close> appends to it, \<open>finish\<close> returns the digest of the whole. The sizes the code accepts
  are a parameter, and a run that does not end or leaves its memory is no run of the contract.
\<close>

fun feed :: "('c \<Rightarrow> bytes \<Rightarrow> 'c outcome option) \<Rightarrow> 'c \<Rightarrow> bytes list \<Rightarrow> 'c outcome option" where
  "feed upd c [] = Some (Returns c)"
| "feed upd c (b # bs) = bind_run (upd c b) (\<lambda>c'. feed upd c' bs)"

locale incremental_hash =
  fixes update :: "'c \<Rightarrow> bytes \<Rightarrow> 'c outcome option"
    and finish :: "'c \<Rightarrow> 'd outcome option"
    and represents :: "'c \<Rightarrow> bytes \<Rightarrow> bool"
    and accepted :: "bytes \<Rightarrow> bool"
    and digest :: "bytes \<Rightarrow> 'd"
  assumes update_represents: "represents c m \<Longrightarrow> accepted b \<Longrightarrow>
      \<exists>c'. update c b = Some (Returns c') \<and> represents c' (m @ b)"
    and finish_digest: "represents c m \<Longrightarrow> finish c = Some (Returns (digest m))"
begin

lemma feed_represents:
  "represents c m \<Longrightarrow> \<forall>b \<in> set bs. accepted b \<Longrightarrow>
    \<exists>c'. feed update c bs = Some (Returns c') \<and> represents c' (m @ concat bs)"
proof (induction bs arbitrary: c m)
  case Nil
  then show ?case by simp
next
  case (Cons b bs)
  then obtain c' where "update c b = Some (Returns c')" "represents c' (m @ b)"
    using update_represents by fastforce
  with Cons.IH [of c' "m @ b"] Cons.prems show ?case by simp
qed

lemma feed_finish:
  assumes "represents c m" and "\<forall>b \<in> set bs. accepted b"
  shows "bind_run (feed update c bs) finish = Some (Returns (digest (m @ concat bs)))"
  using feed_represents [OF assms] finish_digest by auto

lemma chunks_irrelevant:
  assumes "represents c m" and "\<forall>b \<in> set bs. accepted b" and "\<forall>b \<in> set bs'. accepted b"
    and "concat bs = concat bs'"
  shows "bind_run (feed update c bs) finish = bind_run (feed update c bs') finish"
  by (simp add: feed_finish [OF assms(1,2)] feed_finish [OF assms(1,3)] assms(4))

end

end
