(* ===== verification/MD5.thy ===== *)
theory MD5
  imports Hashing
begin

text \<open>
  The message digest of \<^verbatim>\<open>GPSIOSDemo/MD5.hpp\<close> and \<^verbatim>\<open>MD5.cpp\<close>: the context with its
  bit counter and 64-byte buffer, the unrolled block transform, \<^verbatim>\<open>update\<close>, \<^verbatim>\<open>finalize\<close> and
  \<^verbatim>\<open>hexdigest\<close>, against the table-driven description of RFC 1321.
\<close>

section \<open>The block transform\<close>

definition md5_F :: "u32 \<Rightarrow> u32 \<Rightarrow> u32 \<Rightarrow> u32" where
  "md5_F x y z = (x AND y) OR (NOT x AND z)"

definition md5_G :: "u32 \<Rightarrow> u32 \<Rightarrow> u32 \<Rightarrow> u32" where
  "md5_G x y z = (x AND z) OR (y AND NOT z)"

definition md5_H :: "u32 \<Rightarrow> u32 \<Rightarrow> u32 \<Rightarrow> u32" where
  "md5_H x y z = x XOR y XOR z"

definition md5_I :: "u32 \<Rightarrow> u32 \<Rightarrow> u32 \<Rightarrow> u32" where
  "md5_I x y z = y XOR (x OR NOT z)"

definition rotate_left :: "u32 \<Rightarrow> nat \<Rightarrow> u32" where
  "rotate_left x n = push_bit n x OR drop_bit (32 - n) x"

text \<open>The macros' \<open>a\<close> is a reference; the functions return its new value.\<close>

definition md5_FF :: "u32 \<Rightarrow> u32 \<Rightarrow> u32 \<Rightarrow> u32 \<Rightarrow> u32 \<Rightarrow> nat \<Rightarrow> u32 \<Rightarrow> u32" where
  "md5_FF a b c d x s ac = rotate_left (a + md5_F b c d + x + ac) s + b"

definition md5_GG :: "u32 \<Rightarrow> u32 \<Rightarrow> u32 \<Rightarrow> u32 \<Rightarrow> u32 \<Rightarrow> nat \<Rightarrow> u32 \<Rightarrow> u32" where
  "md5_GG a b c d x s ac = rotate_left (a + md5_G b c d + x + ac) s + b"

definition md5_HH :: "u32 \<Rightarrow> u32 \<Rightarrow> u32 \<Rightarrow> u32 \<Rightarrow> u32 \<Rightarrow> nat \<Rightarrow> u32 \<Rightarrow> u32" where
  "md5_HH a b c d x s ac = rotate_left (a + md5_H b c d + x + ac) s + b"

definition md5_II :: "u32 \<Rightarrow> u32 \<Rightarrow> u32 \<Rightarrow> u32 \<Rightarrow> u32 \<Rightarrow> nat \<Rightarrow> u32 \<Rightarrow> u32" where
  "md5_II a b c d x s ac = rotate_left (a + md5_I b c d + x + ac) s + b"

type_synonym md5_state = "u32 \<times> u32 \<times> u32 \<times> u32"

type_synonym md5_op = "u32 \<Rightarrow> u32 \<Rightarrow> u32 \<Rightarrow> u32 \<Rightarrow> u32 \<Rightarrow> nat \<Rightarrow> u32 \<Rightarrow> u32"

text \<open>The four argument orders of the statements of \<^verbatim>\<open>transform\<close>, named after the variable assigned.\<close>

fun on_a :: "md5_op \<Rightarrow> u32 \<Rightarrow> nat \<Rightarrow> u32 \<Rightarrow> md5_state \<Rightarrow> md5_state" where
  "on_a f x s ac (a, b, c, d) = (f a b c d x s ac, b, c, d)"

fun on_d :: "md5_op \<Rightarrow> u32 \<Rightarrow> nat \<Rightarrow> u32 \<Rightarrow> md5_state \<Rightarrow> md5_state" where
  "on_d f x s ac (a, b, c, d) = (a, b, c, f d a b c x s ac)"

fun on_c :: "md5_op \<Rightarrow> u32 \<Rightarrow> nat \<Rightarrow> u32 \<Rightarrow> md5_state \<Rightarrow> md5_state" where
  "on_c f x s ac (a, b, c, d) = (a, b, f c d a b x s ac, d)"

fun on_b :: "md5_op \<Rightarrow> u32 \<Rightarrow> nat \<Rightarrow> u32 \<Rightarrow> md5_state \<Rightarrow> md5_state" where
  "on_b f x s ac (a, b, c, d) = (a, f b c d a x s ac, c, d)"

abbreviation (input) "S11 \<equiv> 7 :: nat"
abbreviation (input) "S12 \<equiv> 12 :: nat"
abbreviation (input) "S13 \<equiv> 17 :: nat"
abbreviation (input) "S14 \<equiv> 22 :: nat"
abbreviation (input) "S21 \<equiv> 5 :: nat"
abbreviation (input) "S22 \<equiv> 9 :: nat"
abbreviation (input) "S23 \<equiv> 14 :: nat"
abbreviation (input) "S24 \<equiv> 20 :: nat"
abbreviation (input) "S31 \<equiv> 4 :: nat"
abbreviation (input) "S32 \<equiv> 11 :: nat"
abbreviation (input) "S33 \<equiv> 16 :: nat"
abbreviation (input) "S34 \<equiv> 23 :: nat"
abbreviation (input) "S41 \<equiv> 6 :: nat"
abbreviation (input) "S42 \<equiv> 10 :: nat"
abbreviation (input) "S43 \<equiv> 15 :: nat"
abbreviation (input) "S44 \<equiv> 21 :: nat"

definition md5_statements :: "u32 list \<Rightarrow> (md5_state \<Rightarrow> md5_state) list" where
  "md5_statements x =
     [on_a md5_FF (x ! 0) S11 0xd76aa478,
      on_d md5_FF (x ! 1) S12 0xe8c7b756,
      on_c md5_FF (x ! 2) S13 0x242070db,
      on_b md5_FF (x ! 3) S14 0xc1bdceee,
      on_a md5_FF (x ! 4) S11 0xf57c0faf,
      on_d md5_FF (x ! 5) S12 0x4787c62a,
      on_c md5_FF (x ! 6) S13 0xa8304613,
      on_b md5_FF (x ! 7) S14 0xfd469501,
      on_a md5_FF (x ! 8) S11 0x698098d8,
      on_d md5_FF (x ! 9) S12 0x8b44f7af,
      on_c md5_FF (x ! 10) S13 0xffff5bb1,
      on_b md5_FF (x ! 11) S14 0x895cd7be,
      on_a md5_FF (x ! 12) S11 0x6b901122,
      on_d md5_FF (x ! 13) S12 0xfd987193,
      on_c md5_FF (x ! 14) S13 0xa679438e,
      on_b md5_FF (x ! 15) S14 0x49b40821,
      on_a md5_GG (x ! 1) S21 0xf61e2562,
      on_d md5_GG (x ! 6) S22 0xc040b340,
      on_c md5_GG (x ! 11) S23 0x265e5a51,
      on_b md5_GG (x ! 0) S24 0xe9b6c7aa,
      on_a md5_GG (x ! 5) S21 0xd62f105d,
      on_d md5_GG (x ! 10) S22 0x2441453,
      on_c md5_GG (x ! 15) S23 0xd8a1e681,
      on_b md5_GG (x ! 4) S24 0xe7d3fbc8,
      on_a md5_GG (x ! 9) S21 0x21e1cde6,
      on_d md5_GG (x ! 14) S22 0xc33707d6,
      on_c md5_GG (x ! 3) S23 0xf4d50d87,
      on_b md5_GG (x ! 8) S24 0x455a14ed,
      on_a md5_GG (x ! 13) S21 0xa9e3e905,
      on_d md5_GG (x ! 2) S22 0xfcefa3f8,
      on_c md5_GG (x ! 7) S23 0x676f02d9,
      on_b md5_GG (x ! 12) S24 0x8d2a4c8a,
      on_a md5_HH (x ! 5) S31 0xfffa3942,
      on_d md5_HH (x ! 8) S32 0x8771f681,
      on_c md5_HH (x ! 11) S33 0x6d9d6122,
      on_b md5_HH (x ! 14) S34 0xfde5380c,
      on_a md5_HH (x ! 1) S31 0xa4beea44,
      on_d md5_HH (x ! 4) S32 0x4bdecfa9,
      on_c md5_HH (x ! 7) S33 0xf6bb4b60,
      on_b md5_HH (x ! 10) S34 0xbebfbc70,
      on_a md5_HH (x ! 13) S31 0x289b7ec6,
      on_d md5_HH (x ! 0) S32 0xeaa127fa,
      on_c md5_HH (x ! 3) S33 0xd4ef3085,
      on_b md5_HH (x ! 6) S34 0x4881d05,
      on_a md5_HH (x ! 9) S31 0xd9d4d039,
      on_d md5_HH (x ! 12) S32 0xe6db99e5,
      on_c md5_HH (x ! 15) S33 0x1fa27cf8,
      on_b md5_HH (x ! 2) S34 0xc4ac5665,
      on_a md5_II (x ! 0) S41 0xf4292244,
      on_d md5_II (x ! 7) S42 0x432aff97,
      on_c md5_II (x ! 14) S43 0xab9423a7,
      on_b md5_II (x ! 5) S44 0xfc93a039,
      on_a md5_II (x ! 12) S41 0x655b59c3,
      on_d md5_II (x ! 3) S42 0x8f0ccc92,
      on_c md5_II (x ! 10) S43 0xffeff47d,
      on_b md5_II (x ! 1) S44 0x85845dd1,
      on_a md5_II (x ! 8) S41 0x6fa87e4f,
      on_d md5_II (x ! 15) S42 0xfe2ce6e0,
      on_c md5_II (x ! 6) S43 0xa3014314,
      on_b md5_II (x ! 13) S44 0x4e0811a1,
      on_a md5_II (x ! 4) S41 0xf7537e82,
      on_d md5_II (x ! 11) S42 0xbd3af235,
      on_c md5_II (x ! 2) S43 0x2ad7d2bb,
      on_b md5_II (x ! 9) S44 0xeb86d391]"

text \<open>\<^verbatim>\<open>decode\<close> and \<^verbatim>\<open>encode\<close> of \<open>len\<close> bytes, a multiple of 4.\<close>

definition md5_decode :: "bytes \<Rightarrow> nat \<Rightarrow> u32 list" where
  "md5_decode input len = map (\<lambda>i. let j = 4 * i in
     ucast (input ! j) OR push_bit 8 (ucast (input ! (j + 1)))
     OR push_bit 16 (ucast (input ! (j + 2))) OR push_bit 24 (ucast (input ! (j + 3))))
     [0 ..< len div 4]"

definition md5_encode :: "u32 list \<Rightarrow> nat \<Rightarrow> bytes" where
  "md5_encode input len = concat (map (\<lambda>i.
     [ucast (input ! i AND 0xff), ucast (drop_bit 8 (input ! i) AND 0xff),
      ucast (drop_bit 16 (input ! i) AND 0xff), ucast (drop_bit 24 (input ! i) AND 0xff)])
     [0 ..< len div 4])"

fun add_state :: "md5_state \<Rightarrow> md5_state \<Rightarrow> md5_state" where
  "add_state (s0, s1, s2, s3) (a, b, c, d) = (s0 + a, s1 + b, s2 + c, s3 + d)"

definition md5_transform :: "md5_state \<Rightarrow> bytes \<Rightarrow> md5_state" where
  "md5_transform s block =
     (let x = md5_decode block 64
      in add_state s (fold (\<lambda>stm. stm) (md5_statements x) s))"

section \<open>The context\<close>

record md5_ctx =
  md_finalized :: bool
  md_buffer :: bytes
  md_count0 :: u32
  md_count1 :: u32
  md_state :: md5_state
  md_digest :: bytes

text \<open>
  \<^verbatim>\<open>init\<close> leaves \<^verbatim>\<open>buffer\<close> and \<^verbatim>\<open>digest\<close> as the object has them: \<open>buf\<close> and \<open>dig\<close> are their
  indeterminate contents in a new object.
\<close>

definition md5_init :: "bytes \<Rightarrow> bytes \<Rightarrow> md5_ctx" where
  "md5_init buf dig = \<lparr>md_finalized = False, md_buffer = buf, md_count0 = 0, md_count1 = 0,
     md_state = (0x67452301, 0xefcdab89, 0x98badcfe, 0x10325476), md_digest = dig\<rparr>"

text \<open>
  The loop over whole blocks. \<open>i + 64\<close> is a 32-bit sum: it wraps for a length close to
  \<^term>\<open>2 ^ 32 :: nat\<close>, and the loop then leaves the input or does not end (\<^term>\<open>None\<close>).
\<close>

partial_function (option) md5_blocks ::
    "bytes \<Rightarrow> u32 \<Rightarrow> u32 \<Rightarrow> md5_state \<Rightarrow> (u32 \<times> md5_state) outcome option" where
  "md5_blocks input len i s =
     (if i + 64 \<le> len then
        if unat i + 64 \<le> length input
        then md5_blocks input len (i + 64) (md5_transform s (take 64 (drop (unat i) input)))
        else Some OutOfBounds
      else Some (Returns (i, s)))"

definition md5_update :: "md5_ctx \<Rightarrow> bytes \<Rightarrow> u32 \<Rightarrow> md5_ctx outcome option" where
  "md5_update c input len =
     (let index = unat (md_count0 c div 8 mod 64);
          count0 = md_count0 c + push_bit 3 len;
          carry = (if count0 < push_bit 3 len then 1 else 0);
          count1 = md_count1 c + carry + drop_bit 29 len;
          c1 = c\<lparr>md_count0 := count0, md_count1 := count1\<rparr>;
          firstpart = 64 - index
      in if unat len > length input then Some OutOfBounds
         else if firstpart \<le> unat len then
           (let buf = copy_at index (take firstpart input) (md_buffer c);
                s = md5_transform (md_state c) buf
            in case md5_blocks input len (word_of_nat firstpart) s of
                 None \<Rightarrow> None
               | Some OutOfBounds \<Rightarrow> Some OutOfBounds
               | Some Throws \<Rightarrow> Some Throws
               | Some Aborts \<Rightarrow> Some Aborts
               | Some (Returns (i, s')) \<Rightarrow>
                   Some (Returns (c1\<lparr>md_buffer :=
                       copy_at 0 (take (unat (len - i)) (drop (unat i) input)) buf,
                     md_state := s'\<rparr>)))
         else Some (Returns (c1\<lparr>md_buffer :=
                copy_at index (take (unat len) input) (md_buffer c)\<rparr>)))"

definition md5_padding :: bytes where
  "md5_padding = 0x80 # replicate 63 0"

definition state_words :: "md5_state \<Rightarrow> u32 list" where
  "state_words s = (case s of (a, b, c, d) \<Rightarrow> [a, b, c, d])"

definition md5_finalize :: "md5_ctx \<Rightarrow> md5_ctx outcome option" where
  "md5_finalize c =
     (if md_finalized c then Some (Returns c)
      else
        let bits = md5_encode [md_count0 c, md_count1 c] 8;
            index = md_count0 c div 8 mod 64;
            pad_len = (if index < 56 then 56 - index else 120 - index)
        in bind_run (md5_update c md5_padding pad_len) (\<lambda>c1.
           bind_run (md5_update c1 bits 8) (\<lambda>c2.
           Some (Returns (c2\<lparr>md_digest := md5_encode (state_words (md_state c2)) 16,
             md_buffer := replicate 64 0, md_count0 := 0, md_count1 := 0,
             md_finalized := True\<rparr>)))))"

definition hex_digit :: "nat \<Rightarrow> char" where
  "hex_digit n = ''0123456789abcdef'' ! n"

definition hex_byte :: "byte \<Rightarrow> string" where
  "hex_byte b = [hex_digit (unat b div 16), hex_digit (unat b mod 16)]"

definition md5_hexdigest :: "md5_ctx \<Rightarrow> string" where
  "md5_hexdigest c =
     (if md_finalized c then concat (map (\<lambda>i. hex_byte (md_digest c ! i)) [0 ..< 16]) else [])"

text \<open>The constructor from a string: its length is converted to the 32-bit \<^verbatim>\<open>size_type\<close>.\<close>

definition md5_of_string :: "bytes \<Rightarrow> bytes \<Rightarrow> bytes \<Rightarrow> md5_ctx outcome option" where
  "md5_of_string buf dig text =
     bind_run (md5_update (md5_init buf dig) text (word_of_nat (length text))) md5_finalize"

definition md5 :: "bytes \<Rightarrow> bytes \<Rightarrow> bytes \<Rightarrow> string outcome option" where
  "md5 buf dig str = bind_run (md5_of_string buf dig str) (\<lambda>c. Some (Returns (md5_hexdigest c)))"

section \<open>RFC 1321\<close>

definition rfc_K :: "u32 list" where
  "rfc_K =
     [0xd76aa478, 0xe8c7b756, 0x242070db, 0xc1bdceee,
      0xf57c0faf, 0x4787c62a, 0xa8304613, 0xfd469501,
      0x698098d8, 0x8b44f7af, 0xffff5bb1, 0x895cd7be,
      0x6b901122, 0xfd987193, 0xa679438e, 0x49b40821,
      0xf61e2562, 0xc040b340, 0x265e5a51, 0xe9b6c7aa,
      0xd62f105d, 0x2441453, 0xd8a1e681, 0xe7d3fbc8,
      0x21e1cde6, 0xc33707d6, 0xf4d50d87, 0x455a14ed,
      0xa9e3e905, 0xfcefa3f8, 0x676f02d9, 0x8d2a4c8a,
      0xfffa3942, 0x8771f681, 0x6d9d6122, 0xfde5380c,
      0xa4beea44, 0x4bdecfa9, 0xf6bb4b60, 0xbebfbc70,
      0x289b7ec6, 0xeaa127fa, 0xd4ef3085, 0x4881d05,
      0xd9d4d039, 0xe6db99e5, 0x1fa27cf8, 0xc4ac5665,
      0xf4292244, 0x432aff97, 0xab9423a7, 0xfc93a039,
      0x655b59c3, 0x8f0ccc92, 0xffeff47d, 0x85845dd1,
      0x6fa87e4f, 0xfe2ce6e0, 0xa3014314, 0x4e0811a1,
      0xf7537e82, 0xbd3af235, 0x2ad7d2bb, 0xeb86d391]"

definition rfc_s :: "nat list" where
  "rfc_s = concat (replicate 4 [7, 12, 17, 22]) @ concat (replicate 4 [5, 9, 14, 20])
     @ concat (replicate 4 [4, 11, 16, 23]) @ concat (replicate 4 [6, 10, 15, 21])"

text \<open>The word of the block and the auxiliary function of step \<open>i\<close>.\<close>

definition rfc_g :: "nat \<Rightarrow> nat" where
  "rfc_g i = (if i < 16 then i else if i < 32 then (5 * i + 1) mod 16
     else if i < 48 then (3 * i + 5) mod 16 else (7 * i) mod 16)"

definition rfc_f :: "nat \<Rightarrow> u32 \<Rightarrow> u32 \<Rightarrow> u32 \<Rightarrow> u32" where
  "rfc_f i x y z = (if i < 16 then (x AND y) OR (NOT x AND z)
     else if i < 32 then (x AND z) OR (y AND NOT z)
     else if i < 48 then x XOR y XOR z else y XOR (x OR NOT z))"

definition rfc_step :: "u32 list \<Rightarrow> nat \<Rightarrow> md5_state \<Rightarrow> md5_state" where
  "rfc_step X i s = (case s of (a, b, c, d) \<Rightarrow>
     (d, b + word_rotl (rfc_s ! i) (a + rfc_f i b c d + X ! rfc_g i + rfc_K ! i), b, c))"

definition rfc_words :: "bytes \<Rightarrow> u32 list" where
  "rfc_words block = map (\<lambda>i. le_word (take 4 (drop (4 * i) block))) [0 ..< 16]"

definition rfc_compress :: "md5_state \<Rightarrow> bytes \<Rightarrow> md5_state" where
  "rfc_compress s block = add_state s (fold (rfc_step (rfc_words block)) [0 ..< 64] s)"

fun rfc_absorb :: "nat \<Rightarrow> md5_state \<Rightarrow> bytes \<Rightarrow> md5_state" where
  "rfc_absorb 0 s m = s"
| "rfc_absorb (Suc n) s m = rfc_absorb n (rfc_compress s (take 64 m)) (drop 64 m)"

definition rfc_init :: md5_state where
  "rfc_init = (0x67452301, 0xefcdab89, 0x98badcfe, 0x10325476)"

text \<open>A one bit, zeros up to 56 modulo 64 bytes, the bit length modulo $2^{64}$, low byte first.\<close>

definition rfc_pad :: "bytes \<Rightarrow> bytes" where
  "rfc_pad m = m @ 0x80 # replicate ((119 - length m mod 64) mod 64) 0
     @ le_bytes 8 (word_of_nat (8 * length m) :: u64)"

definition rfc_output :: "md5_state \<Rightarrow> bytes" where
  "rfc_output s = concat (map (le_bytes 4) (state_words s))"

definition rfc_md5 :: "bytes \<Rightarrow> bytes" where
  "rfc_md5 m = rfc_output (rfc_absorb (length (rfc_pad m) div 64) rfc_init (rfc_pad m))"

section \<open>The unrolled transform is the table-driven one\<close>

lemma rotate_left_rotl:
  assumes "0 < n" and "n < 32"
  shows "rotate_left x n = word_rotl n x"
proof (rule bit_word_eqI)
  fix i assume "i < LENGTH(32)"
  then have i: "i < 32" by simp
  show "bit (rotate_left x n) i \<longleftrightarrow> bit (word_rotl n x) i"
  proof (cases "n \<le> i")
    case True
    then have "(i + (32 - n)) mod 32 = i - n"
      using i assms by (simp add: mod_if)
    moreover have "\<not> bit x (32 - n + i)"
      using True assms by (auto dest: bit_imp_le_length)
    ultimately show ?thesis
      using True i assms by (auto simp: rotate_left_def bits_simps bit_word_rotl_iff)
  next
    case False
    then have "(i + (32 - n)) mod 32 = 32 - n + i"
      using assms by auto
    then show ?thesis
      using False i assms by (simp add: rotate_left_def bits_simps bit_word_rotl_iff)
  qed
qed

definition op_step :: "md5_op \<Rightarrow> u32 \<Rightarrow> nat \<Rightarrow> u32 \<Rightarrow> md5_state \<Rightarrow> md5_state" where
  "op_step f x s ac st = (case st of (a, b, c, d) \<Rightarrow> (d, f a b c d x s ac, b, c))"

lemma four_statements:
  "on_b f x3 s3 k3 (on_c f x2 s2 k2 (on_d f x1 s1 k1 (on_a f x0 s0 k0 st)))
   = op_step f x3 s3 k3 (op_step f x2 s2 k2 (op_step f x1 s1 k1 (op_step f x0 s0 k0 st)))"
  by (cases st) (simp add: op_step_def)

definition rfc_op :: "nat \<Rightarrow> md5_op" where
  "rfc_op i = (if i < 16 then md5_FF else if i < 32 then md5_GG else if i < 48 then md5_HH else md5_II)"

lemma rfc_s_list: "rfc_s = [7, 12, 17, 22, 7, 12, 17, 22, 7, 12, 17, 22, 7, 12, 17, 22,
    5, 9, 14, 20, 5, 9, 14, 20, 5, 9, 14, 20, 5, 9, 14, 20,
    4, 11, 16, 23, 4, 11, 16, 23, 4, 11, 16, 23, 4, 11, 16, 23,
    6, 10, 15, 21, 6, 10, 15, 21, 6, 10, 15, 21, 6, 10, 15, 21]"
  by code_simp

lemma rfc_s_bounds: "i < 64 \<Longrightarrow> 0 < rfc_s ! i \<and> rfc_s ! i < 32"
proof -
  assume "i < 64"
  moreover have "length rfc_s = 64" by (simp add: rfc_s_list)
  moreover have "\<forall>s \<in> set rfc_s. 0 < s \<and> s < 32" by (simp add: rfc_s_list)
  ultimately show ?thesis by simp
qed

lemma rfc_step_op:
  assumes "i < 64"
  shows "rfc_step X i = op_step (rfc_op i) (X ! rfc_g i) (rfc_s ! i) (rfc_K ! i)"
proof
  fix st :: md5_state
  obtain a b c d where "st = (a, b, c, d)" by (cases st)
  then show "rfc_step X i st = op_step (rfc_op i) (X ! rfc_g i) (rfc_s ! i) (rfc_K ! i) st"
    using rfc_s_bounds [OF assms]
    by (simp add: rfc_step_def op_step_def rfc_op_def rfc_f_def md5_FF_def md5_GG_def md5_HH_def md5_II_def
      md5_F_def md5_G_def md5_H_def md5_I_def rotate_left_rotl add.commute)
qed

lemma upt_64: "[0 ..< 64] = [0, 1, 2, 3, 4, 5, 6, 7, 8, 9, 10, 11, 12, 13, 14, 15, 16, 17, 18, 19, 20, 21, 22, 23, 24,
    25, 26, 27, 28, 29, 30, 31, 32, 33, 34, 35, 36, 37, 38, 39, 40, 41, 42, 43, 44, 45, 46,
    47, 48, 49, 50, 51, 52, 53, 54, 55, 56, 57, 58, 59, 60, 61, 62, 63 :: nat]"
  by code_simp

lemma rounds: "fold (\<lambda>stm. stm) (md5_statements X) st = fold (rfc_step X) [0 ..< 64] st"
  by (simp add: upt_64 md5_statements_def four_statements rfc_step_op rfc_op_def rfc_g_def rfc_s_list rfc_K_def)

lemma md5_decode_words: "length block = 64 \<Longrightarrow> md5_decode block 64 = rfc_words block"
  unfolding md5_decode_def rfc_words_def
proof (rule map_cong)
  fix i assume len: "length block = 64" and "i \<in> set [0 ..< 16]"
  then have "take 4 (drop (4 * i) block)
      = [block ! (4 * i), block ! (4 * i + 1), block ! (4 * i + 2), block ! (4 * i + 3)]"
    by (intro take_4_nth) simp
  then show "(let j = 4 * i in ucast (block ! j) OR push_bit 8 (ucast (block ! (j + 1)))
     OR push_bit 16 (ucast (block ! (j + 2))) OR push_bit 24 (ucast (block ! (j + 3))))
    = (le_word (take 4 (drop (4 * i) block)) :: u32)"
    by (simp add: push_bit_or or.assoc Let_def)
qed simp

lemma md5_transform_rfc: "length block = 64 \<Longrightarrow> md5_transform s block = rfc_compress s block"
  by (simp add: md5_transform_def rfc_compress_def md5_decode_words rounds)

lemma ucast_and_ff: "(ucast (w AND 0xff) :: byte) = ucast (w :: u32)"
  proof -
  have m: "(0xff :: u32) = mask 8" by (simp add: mask_eq_exp_minus_1)
  show ?thesis unfolding m by (rule bit_word_eqI) (simp add: bits_simps)
qed

lemma md5_encode_le_bytes:
  "length ws = n \<Longrightarrow> md5_encode ws (4 * n) = concat (map (le_bytes 4) ws)"
proof -
  assume n: "length ws = n"
  have "map (\<lambda>i. le_bytes 4 (ws ! i)) [0 ..< n] = map (le_bytes 4) ws"
    using n by (intro nth_equalityI) simp_all
  then show ?thesis
    by (simp add: md5_encode_def ucast_and_ff flip: le_bytes_4)
qed

section \<open>The bit counter\<close>

definition bit_count :: "md5_ctx \<Rightarrow> nat" where
  "bit_count c = unat (md_count1 c) * 2 ^ 32 + unat (md_count0 c)"

lemma carry_word: "(x :: u32) + y < y \<longleftrightarrow> unat x + unat y \<ge> 2 ^ 32"
  using unat_bound [of x] unat_bound [of y]
  by (auto simp: word_less_nat_alt unat_word_ariths mod_if)

lemma counter_add:
  fixes c0 c1 len :: u32
  assumes "n0 = c0 + push_bit 3 len"
    and "n1 = c1 + (if n0 < push_bit 3 len then 1 else 0) + drop_bit 29 len"
  shows "unat n1 * 2 ^ 32 + unat n0
    = (unat c1 * 2 ^ 32 + unat c0 + 8 * unat len) mod 2 ^ 64"
proof -
  let ?l = "unat (push_bit 3 len)" and ?h = "unat (drop_bit 29 len)"
  have l: "?l = 8 * unat len mod 2 ^ 32"
    by (simp add: push_bit_eq_mult unat_word_ariths mult.commute)
  have h: "?h = 8 * unat len div 2 ^ 32"
    by (simp add: drop_bit_eq_div unat_div)
  have lh: "8 * unat len = ?h * 2 ^ 32 + ?l"
    unfolding l h by (rule div_mult_mod_eq [symmetric])
  have n0: "unat n0 = (unat c0 + ?l) mod 2 ^ 32"
    using assms(1) by (simp add: unat_word_ariths)
  have "unat (if n0 < push_bit 3 len then 1 else 0 :: u32) = (unat c0 + ?l) div 2 ^ 32"
    using unat_bound [of c0] unat_bound [of "push_bit 3 len"]
    by (auto simp: assms(1) carry_word)
  then have n1: "unat n1 = (unat c1 + (unat c0 + ?l) div 2 ^ 32 + ?h) mod 2 ^ 32"
    unfolding assms(2) by (simp add: unat_word_ariths mod_simps)
  let ?s = "unat c1 * 2 ^ 32 + unat c0 + 8 * unat len"
  have s: "?s = (unat c0 + ?l) + (unat c1 + ?h) * 2 ^ 32"
    using lh by (simp add: algebra_simps)
  have "?s div 2 ^ 32 = unat c1 + (unat c0 + ?l) div 2 ^ 32 + ?h"
    and "?s mod 2 ^ 32 = (unat c0 + ?l) mod 2 ^ 32"
    unfolding s by (simp, rule mod_mult_self1)
  moreover have "?s mod 2 ^ 64 = 2 ^ 32 * (?s div 2 ^ 32 mod 2 ^ 32) + ?s mod 2 ^ 32"
    using mod_mult2_eq [of ?s "2 ^ 32" "2 ^ 32"] by simp
  ultimately show ?thesis using n0 n1 by simp
qed

section \<open>Whole blocks\<close>

lemma rfc_absorb_append:
  "rfc_absorb (a + b) s m = rfc_absorb b (rfc_absorb a s m) (drop (64 * a) m)"
  by (induction a arbitrary: s m) (simp_all add: add.commute)

lemma rfc_absorb_prefix: "64 * n \<le> length m \<Longrightarrow> rfc_absorb n s (m @ m') = rfc_absorb n s m"
  by (induction n arbitrary: s m) simp_all

lemma md5_blocks_absorb:
  assumes "unat i + 64 * n \<le> unat len" and "unat len - (unat i + 64 * n) < 64"
    and "unat len < 2 ^ 32 - 64" and "unat len \<le> length input"
  shows "md5_blocks input len i s = Some (Returns (i + word_of_nat (64 * n),
    rfc_absorb n s (drop (unat i) input)))"
  using assms(1,2)
proof (induction n arbitrary: i s)
  case 0
  then have "unat (i + 64) = unat i + 64"
    using assms(3) by (simp add: unat_word_ariths)
  moreover have "\<not> unat i + 64 \<le> unat len"
    using 0 by simp
  ultimately show ?case
    by (subst md5_blocks.simps) (simp add: word_le_nat_alt)
next
  case (Suc n)
  have i64: "unat (i + 64) = unat i + 64"
    using assms(3) Suc.prems by (simp add: unat_word_ariths)
  have blk: "length (take 64 (drop (unat i) input)) = 64"
    using assms(4) Suc.prems by simp
  have "md5_blocks input len i s
      = md5_blocks input len (i + 64) (rfc_compress s (take 64 (drop (unat i) input)))"
    using i64 assms(4) Suc.prems
    by (subst md5_blocks.simps) (simp add: word_le_nat_alt md5_transform_rfc)
  also have "\<dots> = Some (Returns (i + 64 + word_of_nat (64 * n),
      rfc_absorb n (rfc_compress s (take 64 (drop (unat i) input))) (drop (unat i + 64) input)))"
    using Suc.IH [of "i + 64"] Suc.prems by (simp add: i64)
  finally show ?case
    by (simp add: algebra_simps)
qed

section \<open>What a context represents\<close>

definition full_blocks :: "bytes \<Rightarrow> nat" where
  "full_blocks m = length m div 64"

lemma full_blocks_eq:
  "length x = 64 * k + i \<Longrightarrow> i < 64 \<Longrightarrow> full_blocks x = k \<and> length x mod 64 = i"
  by (simp add: full_blocks_def)

definition represents :: "md5_ctx \<Rightarrow> bytes \<Rightarrow> bool" where
  "represents c m \<longleftrightarrow> \<not> md_finalized c \<and> length (md_buffer c) = 64
     \<and> bit_count c = 8 * length m mod 2 ^ 64
     \<and> take (length m mod 64) (md_buffer c) = drop (64 * full_blocks m) m
     \<and> md_state c = rfc_absorb (full_blocks m) rfc_init m"

lemma init_represents: "length buf = 64 \<Longrightarrow> represents (md5_init buf dig) []"
  by (simp add: represents_def md5_init_def bit_count_def full_blocks_def rfc_init_def)

lemma index_represents:
  assumes "represents c m"
  shows "unat (md_count0 c div 8 mod 64) = length m mod 64"
proof -
  have "unat (md_count0 c) = bit_count c mod 2 ^ 32"
    using unat_bound [of "md_count0 c"] by (simp add: bit_count_def)
  also have "\<dots> = 8 * length m mod 2 ^ 32"
    using assms by (simp add: represents_def mod_mod_cancel)
  finally have "unat (md_count0 c) div 8 mod 64 = 8 * length m mod 2 ^ 32 div 8 mod 64"
    by simp
  also have "\<dots> = length m mod 2 ^ 29 mod 64"
    using mod_mult_mult1 [of 8 "length m" "2 ^ 29"] by simp
  also have "\<dots> = length m mod 64"
    by (simp add: mod_mod_cancel)
  finally show ?thesis by (simp add: unat_div unat_mod)
qed

text \<open>The bytes of \<open>m @ b\<close> in front of its last partial block.\<close>

lemma update_represents:
  assumes rep: "represents c m" and len: "unat len = length b" and small: "length b < 2 ^ 32 - 64"
  shows "\<exists>c'. md5_update c (b @ x) len = Some (Returns c') \<and> represents c' (m @ b)"
proof -
  obtain i k where ik: "i = length m mod 64" "k = full_blocks m" by simp
  then have m: "length m = 64 * k + i" and i: "i < 64" by (simp_all add: full_blocks_def)
  have buf: "length (md_buffer c) = 64" "take i (md_buffer c) = drop (64 * k) m"
    and st: "md_state c = rfc_absorb k rfc_init m" and fin: "\<not> md_finalized c"
    and cnt: "bit_count c = 8 * length m mod 2 ^ 64"
    using rep ik by (auto simp: represents_def)
  define n0 where "n0 = md_count0 c + push_bit 3 len"
  define n1 where "n1 = md_count1 c + (if n0 < push_bit 3 len then 1 else 0) + drop_bit 29 len"
  have count: "unat n1 * 2 ^ 32 + unat n0 = 8 * length (m @ b) mod 2 ^ 64"
  proof -
    have "unat n1 * 2 ^ 32 + unat n0 = (bit_count c + 8 * length b) mod 2 ^ 64"
      unfolding counter_add [OF n0_def n1_def] bit_count_def len by (rule refl)
    also have "\<dots> = (8 * length m + 8 * length b) mod 2 ^ 64"
      unfolding cnt by (rule mod_add_left_eq)
    finally show ?thesis by (simp only: length_append distrib_left)
  qed
  have idx: "unat (md_count0 c div 8 mod 64) = i"
    using index_represents [OF rep] ik by simp
  note upd = md5_update_def Let_def idx len n0_def [symmetric] n1_def [symmetric]
  show ?thesis
  proof (cases "64 - i \<le> length b")
    case False
    then have short: "i + length b < 64" by simp
    then have k: "full_blocks (m @ b) = k" "length (m @ b) mod 64 = i + length b"
      using full_blocks_eq [of "m @ b" k "i + length b"] m by simp_all
    have "take (i + length b) (copy_at i b (md_buffer c)) = drop (64 * k) (m @ b)"
      using buf short m i by (simp add: copy_at_def)
    then have "represents (c\<lparr>md_count0 := n0, md_count1 := n1,
        md_buffer := copy_at i b (md_buffer c)\<rparr>) (m @ b)"
      using buf short st fin count m
      by (simp add: represents_def k bit_count_def rfc_absorb_prefix del: length_append)
    moreover have "md5_update c (b @ x) len = Some (Returns (c\<lparr>md_count0 := n0, md_count1 := n1,
        md_buffer := copy_at i b (md_buffer c)\<rparr>))"
      using False by (simp add: upd)
    ultimately show ?thesis by blast
  next
    case True
    define q where "q = (length b - (64 - i)) div 64"
    define j where "j = 64 - i + 64 * q"
    define buf' where "buf' = copy_at i (take (64 - i) b) (md_buffer c)"
    have j: "j \<le> length b" "length b - j < 64"
      using True unfolding j_def q_def by linarith+
    have kq: "full_blocks (m @ b) = k + Suc q" "length (m @ b) mod 64 = length b - j"
      using full_blocks_eq [of "m @ b" "k + 1 + q" "length b - j"] m j i by (auto simp: j_def)
    have dk: "drop (64 * k) (m @ b) = take i (md_buffer c) @ b"
      using buf m by simp
    have buf': "buf' = take 64 (drop (64 * k) (m @ b))" "length buf' = 64"
      using buf m i True by (simp_all add: buf'_def dk copy_at_def)
    have d1: "drop 64 (drop (64 * k) (m @ b)) = drop (64 - i) b"
      using m i by simp
    have state: "rfc_absorb (full_blocks (m @ b)) rfc_init (m @ b)
        = rfc_absorb q (md5_transform (md_state c) buf') (drop (64 - i) b)"
    proof -
      have "rfc_absorb (full_blocks (m @ b)) rfc_init (m @ b)
          = rfc_absorb (Suc q) (rfc_absorb k rfc_init (m @ b)) (drop (64 * k) (m @ b))"
        unfolding kq(1) by (simp only: rfc_absorb_append )
      also have "\<dots> = rfc_absorb q (rfc_compress (md_state c) buf') (drop (64 - i) b)"
        unfolding rfc_absorb.simps d1 buf'(1) [symmetric] using m by (simp add: st rfc_absorb_prefix)
      finally show ?thesis using md5_transform_rfc [OF buf'(2)] by simp
    qed
    have w: "unat (word_of_nat (64 - i) :: u32) = 64 - i" "unat (word_of_nat j :: u32) = j"
      using j small i by (simp_all add: unat_of_small del: of_nat_diff)
    have pre: "rfc_absorb q s (drop (64 - i) (b @ x)) = rfc_absorb q s (drop (64 - i) b)" for s
      using True j by (simp add: j_def rfc_absorb_prefix)
    have bl: "md5_blocks (b @ x) len (word_of_nat (64 - i)) s
        = Some (Returns (word_of_nat j, rfc_absorb q s (drop (64 - i) b)))" for s
      using md5_blocks_absorb [of "word_of_nat (64 - i)" q len "b @ x" s] w j small
      by (simp add: len j_def of_nat_add pre del: of_nat_diff drop_append)
    have rest: "unat (len - word_of_nat j) = length b - j"
      using j w len by (simp add: unat_sub word_le_nat_alt)
    have dj: "drop (64 * full_blocks (m @ b)) (m @ b) = drop j b"
      using m i by (simp add: kq(1) j_def)
    let ?c' = "c\<lparr>md_count0 := n0, md_count1 := n1, md_buffer := copy_at 0 (drop j b) buf',
      md_state := rfc_absorb q (md5_transform (md_state c) buf') (drop (64 - i) b)\<rparr>"
    have tail: "length (copy_at 0 (drop j b) buf') = 64"
        "take (length b - j) (copy_at 0 (drop j b) buf') = drop j b"
      using j buf'(2) by (simp_all add: copy_at_def)
    have "represents ?c' (m @ b)"
      unfolding represents_def dj state kq(2)
      using fin count by (simp add: bit_count_def tail del: length_append)
    moreover have "md5_update c (b @ x) len = Some (Returns ?c')"
      using True j by (simp add: upd bl rest w buf'_def [symmetric] del: of_nat_diff)
    ultimately show ?thesis by blast
  qed
qed

section \<open>Finalisation\<close>

lemma length_state_words [simp]: "length (state_words s) = 4"
  by (cases s) (simp add: state_words_def)

lemma digest_output: "md5_encode (state_words s) 16 = rfc_output s"
  using md5_encode_le_bytes [of "state_words s" 4] by (simp add: rfc_output_def)

lemma le_bytes_counter:
  fixes lo hi :: u32
  shows "le_bytes 4 lo @ le_bytes 4 hi = le_bytes 8 (word_of_nat (unat hi * 2 ^ 32 + unat lo) :: u64)"
proof -
  let ?w = "word_of_nat (unat hi * 2 ^ 32 + unat lo) :: u64"
  have w: "?w = push_bit 32 (ucast hi) OR ucast lo"
  proof -
    have "?w = push_bit 32 (ucast hi) + ucast lo"
      by (simp add: push_bit_eq_mult mult.commute unsigned_ucast_eq)
    also have "\<dots> = push_bit 32 (ucast hi) OR ucast lo"
      by (rule disjunctive_add) (auto simp: bits_simps dest: bit_imp_le_length)
    finally show ?thesis .
  qed
  have hi: "\<not> bit lo n" if "32 \<le> n" for n
    using that by (auto dest: bit_imp_le_length)
  show ?thesis
    unfolding w le_bytes_4 le_bytes_8
    by (auto simp: bits_simps hi intro!: bit_word_eqI)
qed

lemma bits_represents:
  assumes "represents c m"
  shows "md5_encode [md_count0 c, md_count1 c] 8 = le_bytes 8 (word_of_nat (8 * length m) :: u64)"
proof -
  have "md5_encode [md_count0 c, md_count1 c] 8 = le_bytes 4 (md_count0 c) @ le_bytes 4 (md_count1 c)"
    using md5_encode_le_bytes [of "[md_count0 c, md_count1 c]" 2] by simp
  also have "\<dots> = le_bytes 8 (word_of_nat (bit_count c) :: u64)"
    unfolding bit_count_def by (rule le_bytes_counter)
  also have "(word_of_nat (bit_count c) :: u64) = word_of_nat (8 * length m)"
  proof (rule word_unat_eq_iff [THEN iffD2])
    have "bit_count c = 8 * length m mod 2 ^ 64" using assms by (simp add: represents_def)
    then show "unat (word_of_nat (bit_count c) :: u64) = unat (word_of_nat (8 * length m) :: u64)"
      by (simp only: unat_of_nat mod_mod_trivial len_num0 len_bit0 mult_1_right, simp)
  qed
  finally show ?thesis .
qed

definition pad_zeros :: "nat \<Rightarrow> nat" where
  "pad_zeros i = (119 - i) mod 64"

lemma pad_zeros_simps:
  "i < 56 \<Longrightarrow> pad_zeros i = 55 - i"
  "56 \<le> i \<Longrightarrow> i < 64 \<Longrightarrow> pad_zeros i = 119 - i"
  by (auto simp: pad_zeros_def mod_if)

lemma rfc_pad_split:
  "rfc_pad m = m @ (0x80 # replicate (pad_zeros (length m mod 64)) 0) @
     le_bytes 8 (word_of_nat (8 * length m) :: u64)"
  by (simp add: rfc_pad_def pad_zeros_def)

lemma rfc_pad_length: "length (rfc_pad m) mod 64 = 0"
proof -
  obtain i k where ik: "length m mod 64 = i" "length m = 64 * k + i" "i < 64"
    by (metis mult_div_mod_eq mod_less_divisor zero_less_numeral)
  then have "length (rfc_pad m) = 64 * k + i + 9 + pad_zeros i"
    by (simp add: rfc_pad_split)
  also have "\<dots> = 64 * (if i < 56 then k + 1 else k + 2)"
    using ik(3) by (simp add: pad_zeros_simps)
  finally show ?thesis by simp
qed

lemma pad_len_word:
  fixes w :: u32
  assumes "unat w = i" and "i < 64"
  shows "unat (if w < 56 then 56 - w else 120 - w) = 1 + pad_zeros i"
  using assms by (auto simp: word_less_nat_alt unat_sub word_le_nat_alt pad_zeros_simps)

lemma finalize_represents:
  assumes "represents c m"
  shows "\<exists>c'. md5_finalize c = Some (Returns c') \<and> md_finalized c' \<and> md_digest c' = rfc_md5 m"
proof -
  let ?i = "length m mod 64" and ?ix = "md_count0 c div 8 mod 64"
  let ?p = "if ?ix < 56 then 56 - ?ix else 120 - ?ix"
  have p: "unat ?p = 1 + pad_zeros ?i"
    by (rule pad_len_word [OF index_represents [OF assms]]) simp
  then have p64: "unat ?p \<le> 64" by (simp add: pad_zeros_def)
  define pad where "pad = take (unat ?p) md5_padding"
  have "md5_padding = pad @ drop (unat ?p) md5_padding"
    unfolding pad_def by (rule append_take_drop_id [symmetric])
  moreover have "length pad = unat ?p" "pad = 0x80 # replicate (pad_zeros ?i) 0"
    unfolding pad_def p using p64 by (simp_all add: md5_padding_def p)
  ultimately have pad: "length pad = unat ?p" "md5_padding = pad @ drop (unat ?p) md5_padding"
    "pad = 0x80 # replicate (pad_zeros ?i) 0" by blast+
  define bits where "bits = md5_encode [md_count0 c, md_count1 c] 8"
  have bits: "bits = le_bytes 8 (word_of_nat (8 * length m) :: u64)"
    unfolding bits_def by (rule bits_represents [OF assms])
  obtain c1 where c1: "md5_update c md5_padding ?p = Some (Returns c1)" "represents c1 (m @ pad)"
    using update_represents [OF assms pad(1) [symmetric], of "drop (unat ?p) md5_padding"] pad p64
    by auto
  obtain c2 where c2: "md5_update c1 bits 8 = Some (Returns c2)" "represents c2 (rfc_pad m)"
    using update_represents [OF c1(2), of 8 bits "[]"] pad(3) by (auto simp: bits rfc_pad_split)
  have "rfc_output (md_state c2) = rfc_md5 m"
    using c2(2) by (simp add: represents_def rfc_md5_def full_blocks_def)
  moreover have "\<not> md_finalized c" using assms by (simp add: represents_def)
  ultimately show ?thesis
    using c1(1) c2(1) by (simp add: md5_finalize_def Let_def digest_output flip: bits_def)
qed

text \<open>The digest keeps the contract of an incremental hash, for updates below 4 GiB.\<close>

definition md5_update_all :: "md5_ctx \<Rightarrow> bytes \<Rightarrow> md5_ctx outcome option" where
  "md5_update_all c b = md5_update c b (word_of_nat (length b))"

definition md5_finish :: "md5_ctx \<Rightarrow> string outcome option" where
  "md5_finish c = bind_run (md5_finalize c) (\<lambda>c'. Some (Returns (md5_hexdigest c')))"

definition md5_accepted :: "bytes \<Rightarrow> bool" where
  "md5_accepted b \<longleftrightarrow> length b < 2 ^ 32 - 64"

lemma length_rfc_md5 [simp]: "length (rfc_md5 m) = 16"
  by (simp add: rfc_md5_def rfc_output_def state_words_def split: prod.splits)

lemma hexdigest_rfc:
  "md_finalized c \<Longrightarrow> md_digest c = rfc_md5 m \<Longrightarrow> md5_hexdigest c = concat (map hex_byte (rfc_md5 m))"
proof -
  have "map (\<lambda>i. hex_byte (rfc_md5 m ! i)) [0 ..< 16] = map hex_byte (rfc_md5 m)"
    by (intro nth_equalityI) simp_all
  then show "md_finalized c \<Longrightarrow> md_digest c = rfc_md5 m \<Longrightarrow>
      md5_hexdigest c = concat (map hex_byte (rfc_md5 m))"
    by (simp add: md5_hexdigest_def)
qed

interpretation md5_hash: incremental_hash md5_update_all md5_finish represents md5_accepted
  "\<lambda>m. concat (map hex_byte (rfc_md5 m))"
proof
  fix c m b assume "represents c m" "md5_accepted b"
  then show "\<exists>c'. md5_update_all c b = Some (Returns c') \<and> represents c' (m @ b)"
    using update_represents [of c m "word_of_nat (length b)" b "[]"]
    by (simp add: md5_accepted_def md5_update_all_def unat_of_small)
next
  fix c m assume "represents c m"
  then show "md5_finish c = Some (Returns (concat (map hex_byte (rfc_md5 m))))"
    using finalize_represents [of c m] by (auto simp: md5_finish_def hexdigest_rfc)
qed

section \<open>Properties\<close>

lemma md5_string_feed:
  "md5 buf dig s = bind_run (feed md5_update_all (md5_init buf dig) [s]) md5_finish"
  by (simp add: md5_def md5_of_string_def md5_update_all_def md5_finish_def [abs_def] bind_run_assoc)

text \<open>
  C13. A string shorter than \<^term>\<open>2 ^ 32 - 64 :: nat\<close> bytes gets its RFC 1321 digest, in lower-case
  hexadecimal, whatever the indeterminate contents of the new object's arrays.
\<close>

theorem md5_is_rfc1321:
  assumes "length buf = 64" and "length s < 2 ^ 32 - 64"
  shows "md5 buf dig s = Some (Returns (concat (map hex_byte (rfc_md5 s))))"
  using md5_hash.feed_finish [OF init_represents [OF assms(1)], of "[s]"] assms(2)
  by (simp add: md5_string_feed md5_accepted_def)

lemma rfc_md5_abc: "map unat (rfc_md5 (map (\<lambda>c. of_char c) ''abc''))
    = [0x90, 0x01, 0x50, 0x98, 0x3c, 0xd2, 0x4f, 0xb0, 0xd6, 0x96, 0x3f, 0x7d, 0x28, 0xe1, 0x7f, 0x72]"
  by code_simp

theorem md5_is_rfc1321_witness:
  "md5 (replicate 64 0) [] [97, 98, 99] = Some (Returns ''900150983cd24fb0d6963f7d28e17f72'')"
proof -
  have "concat (map hex_byte (rfc_md5 [97, 98, 99])) = ''900150983cd24fb0d6963f7d28e17f72''"
    by code_simp
  then show ?thesis
    using md5_is_rfc1321 [of "replicate 64 0" "[97, 98, 99]" "[]"] by simp
qed

text \<open>
  However a message is cut into updates (each shorter than \<^term>\<open>2 ^ 32 - 64 :: nat\<close> bytes), the
  digest is that of the concatenation.
\<close>

theorem md5_chunks:
  assumes "length buf = 64" and "\<forall>b \<in> set bs. length b < 2 ^ 32 - 64"
  shows "bind_run (feed md5_update_all (md5_init buf dig) bs) md5_finish
    = Some (Returns (concat (map hex_byte (rfc_md5 (concat bs)))))"
  using md5_hash.feed_finish [OF init_represents [OF assms(1)], of bs dig] assms(2)
  by (simp add: md5_accepted_def)

theorem md5_chunks_witness:
  "bind_run (feed md5_update_all (md5_init (replicate 64 0) []) [[97], [], [98, 99]]) md5_finish
    = md5 (replicate 64 0) [] [97, 98, 99]"
  using md5_chunks [of "replicate 64 0" "[[97], [], [98, 99]]" "[]"]
    md5_chunks [of "replicate 64 0" "[[97, 98, 99]]" "[]"]
  by (simp add: md5_string_feed)

text \<open>
  The 64 unrolled statements of \<^verbatim>\<open>transform\<close> are the table-driven compression of RFC 1321 on
  every state and block.
\<close>

theorem transform_is_compress:
  assumes "length block = 64"
  shows "md5_transform s block = rfc_compress s block"
  by (rule md5_transform_rfc [OF assms])

theorem transform_is_compress_witness:
  "md5_transform rfc_init (replicate 64 0) = rfc_compress rfc_init (replicate 64 0)"
  by (rule transform_is_compress) simp

text \<open>
  The block loop compares \<open>i + 64\<close> after a 32-bit wrap: for an update of
  \<^term>\<open>2 ^ 32 - 64 :: nat\<close> bytes or more it passes its bound and reads beyond the input.
\<close>

lemma md5_blocks_wrap:
  assumes "unat i + 64 * n = 2 ^ 32 - 64" and "2 ^ 32 - 64 \<le> unat len" and "length input < 2 ^ 32"
    and "unat len \<le> length input"
  shows "md5_blocks input len i s = Some OutOfBounds"
  using assms(1)
proof (induction n arbitrary: i s)
  case 0
  then have "unat (i + 64) = 0" by (simp add: unat_word_ariths)
  then have "i + 64 \<le> len" by (simp add: word_le_nat_alt)
  moreover have "\<not> unat i + 64 \<le> length input" using 0 assms(3) by simp
  ultimately show ?case by (subst md5_blocks.simps) simp
next
  case (Suc n)
  have i64: "unat (i + 64) = unat i + 64"
    using Suc.prems by (simp add: unat_word_ariths)
  then have "i + 64 \<le> len" using Suc.prems assms(2) by (simp add: word_le_nat_alt)
  moreover have "unat i + 64 \<le> length input"
    using Suc.prems assms(2,4) by simp
  ultimately show ?case
    using Suc.IH [of "i + 64"] Suc.prems i64 by (subst md5_blocks.simps) simp
qed

text \<open>
  A string of at least \<^term>\<open>2 ^ 32 - 64 :: nat\<close> bytes (and below 4 GiB) makes \<^verbatim>\<open>update\<close> read
  past its end.
\<close>

theorem md5_huge_out_of_bounds:
  assumes "length buf = 64" and "2 ^ 32 - 64 \<le> length s" and "length s < 2 ^ 32"
  shows "md5 buf dig s = Some OutOfBounds"
proof -
  have len: "unat (word_of_nat (length s) :: u32) = length s"
    using assms(3) by (simp add: unat_of_small)
  have "md5_blocks s (word_of_nat (length s)) 64 st = Some OutOfBounds" for st
    using md5_blocks_wrap [of 64 "2 ^ 26 - 2" "word_of_nat (length s)" s st] assms len by simp
  then show ?thesis
    using assms len
    by (simp add: md5_def md5_of_string_def md5_update_def Let_def md5_init_def)
qed

theorem md5_huge_out_of_bounds_witness:
  "md5 (replicate 64 0) [] (replicate (2 ^ 32 - 1) 0) = Some OutOfBounds"
  by (rule md5_huge_out_of_bounds) simp_all

end
