(* ===== verification/Allocator.thy ===== *)
theory Allocator
  imports GPS_Prelude
begin

text \<open>
  The contract of an allocator of cells: an allocation answers a cell that is not live, and
  changes the live set by that cell only; a release of a live cell takes it out. \<open>fits\<close> is what
  the allocator needs of the memory the C library hands it.
\<close>

fun alloc_all :: "('m \<Rightarrow> 's \<Rightarrow> ('a \<times> 's) outcome) \<Rightarrow> 'm list \<Rightarrow> 's \<Rightarrow> ('a list \<times> 's) outcome" where
  "alloc_all al [] s = Returns ([], s)"
| "alloc_all al (m # ms) s =
     bind_outcome (al m s) (\<lambda>(a, s'). bind_outcome (alloc_all al ms s') (\<lambda>(as, s''). Returns (a # as, s'')))"

fun fits_all :: "('m \<Rightarrow> 's \<Rightarrow> ('a \<times> 's) outcome) \<Rightarrow> ('m \<Rightarrow> 's \<Rightarrow> bool) \<Rightarrow> 'm list \<Rightarrow> 's \<Rightarrow> bool" where
  "fits_all al ft [] s = True"
| "fits_all al ft (m # ms) s =
     (ft m s \<and> (case al m s of Returns (a, s') \<Rightarrow> fits_all al ft ms s' | _ \<Rightarrow> True))"

locale allocator =
  fixes alloc :: "'m \<Rightarrow> 's \<Rightarrow> ('a \<times> 's) outcome"
    and free :: "'a \<Rightarrow> 's \<Rightarrow> 's"
    and inv :: "'s \<Rightarrow> bool"
    and live :: "'s \<Rightarrow> 'a set"
    and fits :: "'m \<Rightarrow> 's \<Rightarrow> bool"
  assumes alloc_fresh: "inv s \<Longrightarrow> fits m s \<Longrightarrow>
      \<exists>a s'. alloc m s = Returns (a, s') \<and> inv s' \<and> a \<notin> live s \<and> live s' = insert a (live s)"
    and free_live: "inv s \<Longrightarrow> a \<in> live s \<Longrightarrow> inv (free a s) \<and> live (free a s) = live s - {a}"
begin

lemma allocs_distinct:
  "inv s \<Longrightarrow> fits_all alloc fits ms s \<Longrightarrow>
    \<exists>as s'. alloc_all alloc ms s = Returns (as, s') \<and> inv s' \<and> length as = length ms
      \<and> distinct as \<and> set as \<inter> live s = {} \<and> live s' = set as \<union> live s"
proof (induction ms arbitrary: s)
  case Nil
  then show ?case by simp
next
  case (Cons m ms)
  then obtain a s1 where al: "alloc m s = Returns (a, s1)" "inv s1" "a \<notin> live s"
      "live s1 = insert a (live s)"
    using alloc_fresh [of s m] by auto
  with Cons.prems Cons.IH [of s1] obtain as s2
    where "alloc_all alloc ms s1 = Returns (as, s2)" "inv s2" "length as = length ms"
      "distinct as" "set as \<inter> live s1 = {}" "live s2 = set as \<union> live s1"
    by auto
  with al show ?case by auto
qed

lemma frees_live:
  "inv s \<Longrightarrow> distinct as \<Longrightarrow> set as \<subseteq> live s \<Longrightarrow>
    inv (fold free as s) \<and> live (fold free as s) = live s - set as"
proof (induction as arbitrary: s)
  case Nil
  then show ?case by simp
next
  case (Cons a as)
  then have "inv (free a s)" "live (free a s) = live s - {a}"
    using free_live by auto
  with Cons.IH [of "free a s"] Cons.prems show ?case by auto
qed

lemma allocs_then_frees:
  assumes "inv s" and "fits_all alloc fits ms s"
  shows "\<exists>as s'. alloc_all alloc ms s = Returns (as, s') \<and> inv (fold free as s')
    \<and> live (fold free as s') = live s"
proof -
  obtain as s' where *: "alloc_all alloc ms s = Returns (as, s')" "inv s'" "distinct as"
      "set as \<inter> live s = {}" "live s' = set as \<union> live s"
    using allocs_distinct [OF assms] by auto
  then show ?thesis using frees_live [of s' as] by auto
qed

end

end
