(* ===== verification/ObjectPool.thy ===== *)
theory ObjectPool
  imports Allocator
begin

text \<open>
  The object pool, \<^verbatim>\<open>xxsocket/src/object_pool.h\<close>: chunks of \<^verbatim>\<open>_ElemCount\<close> cells obtained from
  \<^verbatim>\<open>malloc\<close>, the free cells threaded through their own memory. A cell is named by its address,
  \<open>links\<close> is what the first word of every cell reads as when taken for a link, \<open>es\<close> is
  \<^verbatim>\<open>elem_size\<close> and \<open>n\<close> is \<^verbatim>\<open>_ElemCount\<close>. The address \<^verbatim>\<open>malloc\<close> answers is an argument.
\<close>

section \<open>The pool\<close>

definition sz_align :: "u64 \<Rightarrow> u64 \<Rightarrow> u64" where
  "sz_align d a = (d + (a - 1)) AND NOT (a - 1)"

definition elem_size :: "u64 \<Rightarrow> nat" where
  "elem_size sizeof_ty = unat (sz_align sizeof_ty 8)"

record object_pool =
  my_head :: "nat option"
  my_chunk :: "nat list"
  my_count :: u64
  links :: "nat \<Rightarrow> nat option"

fun link_cells :: "nat \<Rightarrow> nat \<Rightarrow> nat \<Rightarrow> (nat \<Rightarrow> nat option) \<Rightarrow> (nat \<Rightarrow> nat option)" where
  "link_cells es 0 ptr h = h"
| "link_cells es (Suc k) ptr h = link_cells es k (ptr + es) (h(ptr := Some (ptr + es)))"

definition enlarge :: "nat \<Rightarrow> nat \<Rightarrow> nat \<Rightarrow> object_pool \<Rightarrow> object_pool" where
  "enlarge es n new_chunk p =
     (let begin_p = new_chunk;
          rbegin = begin_p + (n - 1) * es;
          h = link_cells es (n - 1) begin_p (links p)
      in p\<lparr>my_chunk := new_chunk # my_chunk p, links := h(rbegin := None), my_head := Some begin_p\<rparr>)"

definition pool_new :: "nat \<Rightarrow> nat \<Rightarrow> nat \<Rightarrow> (nat \<Rightarrow> nat option) \<Rightarrow> object_pool" where
  "pool_new es n new_chunk mem =
     enlarge es n new_chunk \<lparr>my_head = None, my_chunk = [], my_count = 0, links = mem\<rparr>"

definition pool_get :: "nat \<Rightarrow> nat \<Rightarrow> nat \<Rightarrow> object_pool \<Rightarrow> (nat \<times> object_pool) outcome" where
  "pool_get es n new_chunk p =
     (let p1 = (if my_head p = None then enlarge es n new_chunk p else p)
      in case my_head p1 of
           None \<Rightarrow> OutOfBounds
         | Some ptr \<Rightarrow> Returns (ptr, p1\<lparr>my_head := links p1 ptr, my_count := my_count p1 + 1\<rparr>))"

definition pool_release :: "nat \<Rightarrow> object_pool \<Rightarrow> object_pool" where
  "pool_release ptr p =
     p\<lparr>links := (links p)(ptr := my_head p), my_head := Some ptr, my_count := my_count p - 1\<rparr>"

text \<open>The owner of a cell writes to it: its first word then reads as any link.\<close>

definition pool_store :: "nat \<Rightarrow> nat option \<Rightarrow> object_pool \<Rightarrow> object_pool" where
  "pool_store ptr v p = p\<lparr>links := (links p)(ptr := v)\<rparr>"

text \<open>\<^verbatim>\<open>cleanup\<close>: chunk after chunk, the last cell of each is linked to the next chunk only.\<close>

fun relink_chunks ::
    "nat \<Rightarrow> nat \<Rightarrow> nat option \<Rightarrow> nat list \<Rightarrow> (nat \<Rightarrow> nat option) \<Rightarrow> (nat \<Rightarrow> nat option)" where
  "relink_chunks es n prev [] h = h"
| "relink_chunks es n prev (c # cs) h =
     (let h1 = (case prev of None \<Rightarrow> h | Some q \<Rightarrow> h(q := Some c));
          h2 = link_cells es (n - 1) c h1
      in relink_chunks es n (Some (c + (n - 1) * es)) cs h2)"

definition pool_cleanup :: "nat \<Rightarrow> nat \<Rightarrow> object_pool \<Rightarrow> object_pool" where
  "pool_cleanup es n p =
     (case my_chunk p of
        [] \<Rightarrow> p
      | c # cs \<Rightarrow> p\<lparr>links := relink_chunks es n None (c # cs) (links p), my_head := Some c,
          my_count := 0\<rparr>)"

definition pool_purge :: "object_pool \<Rightarrow> object_pool" where
  "pool_purge p = p\<lparr>my_head := None, my_chunk := [], my_count := 0\<rparr>"

text \<open>The cell holds the object, is a multiple of the pointer size, and wastes less than one.\<close>

lemma elem_size_bounds:
  assumes "unat s + 7 < 2 ^ 64"
  shows "unat s \<le> elem_size s \<and> elem_size s < unat s + 8 \<and> 8 dvd elem_size s"
proof -
  let ?w = "s + 7"
  have m: "(7 :: u64) = mask 3" by (simp add: mask_eq_exp_minus_1)
  have "?w AND NOT (mask 3) = push_bit 3 (drop_bit 3 ?w)"
    by (rule bit_word_eqI) (auto simp: bits_simps)
  then have "sz_align s 8 = push_bit 3 (drop_bit 3 ?w)"
    by (simp add: sz_align_def flip: m)
  moreover have w: "unat ?w = unat s + 7"
    using assms by (simp add: unat_word_ariths)
  have "unat (drop_bit 3 ?w) = (unat s + 7) div 8"
    by (simp add: drop_bit_eq_div unat_div w)
  then have "unat (push_bit 3 (drop_bit 3 ?w)) = (unat s + 7) div 8 * 8"
    using assms by (simp add: push_bit_eq_mult unat_word_ariths)
  ultimately have "elem_size s = (unat s + 7) div 8 * 8" by (simp add: elem_size_def)
  then show ?thesis by auto
qed
section \<open>Free and live cells\<close>

definition chunk_cells :: "nat \<Rightarrow> nat \<Rightarrow> nat \<Rightarrow> nat list" where
  "chunk_cells es n c = map (\<lambda>k. c + k * es) [0 ..< n]"

definition pool_cells :: "nat \<Rightarrow> nat \<Rightarrow> object_pool \<Rightarrow> nat list" where
  "pool_cells es n p = concat (map (chunk_cells es n) (my_chunk p))"

fun follow :: "(nat \<Rightarrow> nat option) \<Rightarrow> nat \<Rightarrow> nat option \<Rightarrow> nat list" where
  "follow h 0 a = []"
| "follow h (Suc k) None = []"
| "follow h (Suc k) (Some a) = a # follow h k (h a)"

fun chain :: "(nat \<Rightarrow> nat option) \<Rightarrow> nat option \<Rightarrow> nat list \<Rightarrow> bool" where
  "chain h a [] = (a = None)"
| "chain h a (x # xs) = (a = Some x \<and> chain h (h x) xs)"

definition pool_free :: "nat \<Rightarrow> nat \<Rightarrow> object_pool \<Rightarrow> nat list" where
  "pool_free es n p = follow (links p) (length (pool_cells es n p)) (my_head p)"

definition pool_live :: "nat \<Rightarrow> nat \<Rightarrow> object_pool \<Rightarrow> nat set" where
  "pool_live es n p = set (pool_cells es n p) - set (pool_free es n p)"

text \<open>Chunks do not overlap; that is what \<^verbatim>\<open>malloc\<close> promises of a new one.\<close>

definition apart :: "nat \<Rightarrow> nat \<Rightarrow> nat \<Rightarrow> bool" where
  "apart sz c d \<longleftrightarrow> c + sz \<le> d \<or> d + sz \<le> c"

fun separated :: "nat \<Rightarrow> nat list \<Rightarrow> bool" where
  "separated sz [] = True"
| "separated sz (c # cs) = (list_all (apart sz c) cs \<and> separated sz cs)"

definition fresh_chunk :: "nat \<Rightarrow> nat \<Rightarrow> nat \<Rightarrow> object_pool \<Rightarrow> bool" where
  "fresh_chunk es n c p \<longleftrightarrow> list_all (apart (n * es) c) (my_chunk p)"

definition pool_inv :: "nat \<Rightarrow> nat \<Rightarrow> object_pool \<Rightarrow> bool" where
  "pool_inv es n p \<longleftrightarrow> 0 < es \<and> 0 < n \<and> separated (n * es) (my_chunk p)
     \<and> chain (links p) (my_head p) (pool_free es n p)
     \<and> distinct (pool_free es n p) \<and> set (pool_free es n p) \<subseteq> set (pool_cells es n p)
     \<and> my_count p = word_of_nat (card (pool_live es n p))"

lemma pool_cells_update [simp]:
  "pool_cells es n (p\<lparr>my_head := a\<rparr>) = pool_cells es n p"
  "pool_cells es n (p\<lparr>my_count := k\<rparr>) = pool_cells es n p"
  "pool_cells es n (p\<lparr>links := h\<rparr>) = pool_cells es n p"
  by (simp_all add: pool_cells_def)

lemma follow_chain: "chain h a xs \<Longrightarrow> length xs \<le> k \<Longrightarrow> follow h k a = xs"
  by (induction xs arbitrary: a k; case_tac k) auto

lemma chain_upd: "a \<notin> set xs \<Longrightarrow> chain (h(a := v)) b xs = chain h b xs"
  by (induction xs arbitrary: b) auto

lemma link_cells_apply:
  "0 < es \<Longrightarrow> link_cells es k ptr h a =
    (if \<exists>j < k. a = ptr + j * es then Some (a + es) else h a)"
proof (induction k arbitrary: ptr h)
  case 0
  then show ?case by simp
next
  case (Suc k)
  have "(\<exists>j < Suc k. a = ptr + j * es) \<longleftrightarrow> a = ptr \<or> (\<exists>j < k. a = ptr + es + j * es)"
    by (simp add: Bex_def less_Suc_eq_0_disj) (auto simp: add_ac)
  with Suc show ?case by auto
qed

lemma chunk_cells_Cons: "chunk_cells es (Suc n) c = c # chunk_cells es n (c + es)"
  by (simp add: chunk_cells_def upt_conv_Cons map_Suc_upt [symmetric] del: upt_Suc)

lemma in_chunk_cells: "a \<in> set (chunk_cells es n c) \<longleftrightarrow> (\<exists>k < n. a = c + k * es)"
  by (auto simp: chunk_cells_def)

lemma distinct_chunk_cells: "0 < es \<Longrightarrow> distinct (chunk_cells es n c)"
  by (auto simp: chunk_cells_def distinct_map inj_on_def)

text \<open>The cells of a chunk as the loop leaves them: a chain of all of them, ending in \<open>e\<close>.\<close>

lemma cells_chain:
  "(\<And>j. j < k \<Longrightarrow> h (c + j * es) = Some (c + Suc j * es)) \<Longrightarrow> chain h (h (c + k * es)) xs \<Longrightarrow>
    chain h (Some c) (chunk_cells es (Suc k) c @ xs)"
proof (induction k arbitrary: c)
  case 0
  then show ?case by (simp add: chunk_cells_def)
next
  case (Suc k)
  have "h (c + es + j * es) = Some (c + es + Suc j * es)" if "j < k" for j
    using Suc.prems(1) [of "Suc j"] that by (simp add: add_ac)
  moreover have "h (c + es + k * es) = h (c + Suc k * es)"
    by (simp add: add_ac)
  ultimately have "chain h (Some (c + es)) (chunk_cells es (Suc k) (c + es) @ xs)"
    using Suc.IH [of "c + es"] Suc.prems(2) by simp
  moreover have "h c = Some (c + es)" using Suc.prems(1) [of 0] by simp
  ultimately show ?case
    by (simp add: chunk_cells_Cons [of es "Suc k" c])
qed

lemma link_cells_before_last:
  assumes "0 < es" and "j < n - 1"
  shows "link_cells es (n - 1) c h (c + j * es) = Some (c + Suc j * es)"
  using assms by (auto simp: link_cells_apply add_ac)

lemma link_cells_last: "0 < es \<Longrightarrow> link_cells es k c h (c + k * es) = h (c + k * es)"
  by (simp add: link_cells_apply)

lemma chunk_chain:
  assumes "0 < es" and "0 < n"
  shows "chain ((link_cells es (n - 1) c h)(c + (n - 1) * es := None)) (Some c) (chunk_cells es n c)"
proof -
  have "j * es \<noteq> (n - 1) * es" if "j < n - 1" for j
    using that assms by simp
  then show ?thesis
    using cells_chain [of "n - 1" "(link_cells es (n - 1) c h)(c + (n - 1) * es := None)" c es "[]"]
      link_cells_before_last [OF assms(1), of _ n c h] assms(2)
    by simp
qed

lemma apart_cells:
  assumes "0 < es" and "apart (n * es) c d"
  shows "set (chunk_cells es n c) \<inter> set (chunk_cells es n d) = {}"
proof -
  have "c + j * es \<noteq> d + k * es" if "j < n" "k < n" for j k
  proof -
    have "j * es < n * es" "k * es < n * es"
      using that assms(1) by simp_all
    then show ?thesis using assms(2) unfolding apart_def by linarith
  qed
  then show ?thesis by (auto simp: in_chunk_cells)
qed

lemma fresh_cells:
  assumes "0 < es" and "fresh_chunk es n c p"
  shows "set (chunk_cells es n c) \<inter> set (pool_cells es n p) = {}"
proof -
  have "set (chunk_cells es n c) \<inter> set (chunk_cells es n d) = {}" if "d \<in> set (my_chunk p)" for d
    using assms that by (intro apart_cells) (auto simp: fresh_chunk_def list_all_iff)
  then show ?thesis by (auto simp: pool_cells_def)
qed

section \<open>The operations keep the invariant\<close>

lemma length_free_le:
  assumes "distinct fs" and "set fs \<subseteq> set cs"
  shows "length fs \<le> length cs"
  using card_mono [OF _ assms(2)] card_length [of cs] assms(1) by (simp add: distinct_card)

lemma pool_free_eq:
  assumes "chain (links p) (my_head p) fs" and "distinct fs" and "set fs \<subseteq> set (pool_cells es n p)"
  shows "pool_free es n p = fs"
  using follow_chain [OF assms(1) length_free_le [OF assms(2,3)]] by (simp add: pool_free_def)

lemma pool_invI:
  assumes "0 < es" and "0 < n" and "separated (n * es) (my_chunk p)"
    and "chain (links p) (my_head p) fs" and "distinct fs" and "set fs \<subseteq> set (pool_cells es n p)"
    and "my_count p = word_of_nat (card (set (pool_cells es n p) - set fs))"
  shows "pool_inv es n p \<and> pool_live es n p = set (pool_cells es n p) - set fs"
  using assms pool_free_eq [OF assms(4-6)] by (simp add: pool_inv_def pool_live_def)

lemma enlarge_inv:
  assumes inv: "pool_inv es n p" and "fresh_chunk es n c p" and "my_head p = None"
  shows "pool_inv es n (enlarge es n c p) \<and> pool_live es n (enlarge es n c p) = pool_live es n p
    \<and> my_head (enlarge es n c p) = Some c"
proof -
  let ?q = "enlarge es n c p"
  have pos: "0 < es" "0 < n" using inv by (auto simp: pool_inv_def)
  have "chain (links p) (my_head p) (pool_free es n p)" using inv by (simp add: pool_inv_def)
  then have free: "pool_free es n p = []" using assms(3) by (cases "pool_free es n p") auto
  have cells: "pool_cells es n ?q = chunk_cells es n c @ pool_cells es n p"
    by (simp add: enlarge_def pool_cells_def Let_def)
  have "set (chunk_cells es n c) \<inter> set (pool_cells es n p) = {}"
    by (rule fresh_cells [OF pos(1) assms(2)])
  then have live: "set (pool_cells es n ?q) - set (chunk_cells es n c) = pool_live es n p"
    using free by (auto simp: cells pool_live_def)
  have "pool_inv es n ?q \<and> pool_live es n ?q
      = set (pool_cells es n ?q) - set (chunk_cells es n c)"
  proof (rule pool_invI [OF pos])
    show "separated (n * es) (my_chunk ?q)"
      using inv assms(2) by (simp add: pool_inv_def enlarge_def fresh_chunk_def Let_def)
    show "chain (links ?q) (my_head ?q) (chunk_cells es n c)"
      using chunk_chain [OF pos, of c "links p"] by (simp add: enlarge_def Let_def)
    show "my_count ?q = word_of_nat (card (set (pool_cells es n ?q) - set (chunk_cells es n c)))"
      unfolding live using inv by (simp add: pool_inv_def enlarge_def Let_def)
  qed (simp_all add: cells distinct_chunk_cells pos)
  then show ?thesis using live by (simp add: enlarge_def Let_def)
qed

lemma new_inv:
  assumes "0 < es" and "0 < n"
  shows "pool_inv es n (pool_new es n c mem) \<and> pool_live es n (pool_new es n c mem) = {}"
proof -
  let ?p = "\<lparr>my_head = None, my_chunk = [], my_count = 0, links = mem\<rparr>"
  have "pool_inv es n ?p \<and> pool_live es n ?p = {}"
    using pool_invI [of es n ?p "[]"] assms by (simp add: pool_cells_def)
  then show ?thesis
    using enlarge_inv [of es n ?p c] by (simp add: pool_new_def fresh_chunk_def)
qed

lemma take_head_inv:
  assumes inv: "pool_inv es n p" and head: "my_head p = Some a"
  shows "pool_inv es n (p\<lparr>my_head := links p a, my_count := my_count p + 1\<rparr>)
    \<and> a \<notin> pool_live es n p \<and> a \<in> set (pool_cells es n p)
    \<and> pool_live es n (p\<lparr>my_head := links p a, my_count := my_count p + 1\<rparr>)
      = insert a (pool_live es n p)"
proof -
  let ?q = "p\<lparr>my_head := links p a, my_count := my_count p + 1\<rparr>"
  have ch: "chain (links p) (my_head p) (pool_free es n p)" "distinct (pool_free es n p)"
      "set (pool_free es n p) \<subseteq> set (pool_cells es n p)" and pos: "0 < es" "0 < n"
    using inv by (auto simp: pool_inv_def)
  then obtain fs where fs: "pool_free es n p = a # fs" "chain (links p) (links p a) fs"
    using head by (cases "pool_free es n p") auto
  have cells: "pool_cells es n ?q = pool_cells es n p" by (simp add: pool_cells_def)
  have live: "set (pool_cells es n p) - set fs = insert a (pool_live es n p)" "a \<notin> pool_live es n p"
    using ch fs by (auto simp: pool_live_def)
  have fin: "finite (pool_live es n p)" by (simp add: pool_live_def)
  have "pool_inv es n ?q \<and> pool_live es n ?q = set (pool_cells es n ?q) - set fs"
  proof (rule pool_invI [OF pos])
    show "my_count ?q = word_of_nat (card (set (pool_cells es n ?q) - set fs))"
      unfolding cells live using inv live(2) fin by (simp add: pool_inv_def)
  qed (use inv ch fs in \<open>auto simp: pool_inv_def cells\<close>)
  then show ?thesis using live ch fs cells by auto
qed

lemma get_inv [inv_intros]:
  assumes "pool_inv es n p" and "fresh_chunk es n c p"
  shows "\<exists>a p'. pool_get es n c p = Returns (a, p') \<and> pool_inv es n p' \<and> a \<notin> pool_live es n p
    \<and> pool_live es n p' = insert a (pool_live es n p)"
proof (cases "my_head p")
  case None
  with enlarge_inv [OF assms] take_head_inv [of es n "enlarge es n c p" c] show ?thesis
    by (simp add: pool_get_def Let_def)
next
  case (Some a)
  with take_head_inv [OF assms(1), of a] show ?thesis
    by (simp add: pool_get_def Let_def)
qed

lemma release_inv [inv_intros]:
  assumes inv: "pool_inv es n p" and a: "a \<in> pool_live es n p"
  shows "pool_inv es n (pool_release a p) \<and> pool_live es n (pool_release a p) = pool_live es n p - {a}"
proof -
  let ?q = "pool_release a p" and ?fs = "a # pool_free es n p"
  have cells: "pool_cells es n ?q = pool_cells es n p"
    by (simp add: pool_cells_def pool_release_def)
  have live: "set (pool_cells es n p) - set ?fs = pool_live es n p - {a}"
    by (auto simp: pool_live_def)
  have fin: "finite (pool_live es n p)" by (simp add: pool_live_def)
  then have cd: "card (pool_live es n p) = Suc (card (pool_live es n p - {a}))"
    by (rule card_Suc_Diff1 [OF _ a, symmetric])
  then have count: "my_count ?q = word_of_nat (card (pool_live es n p - {a}))"
    using inv unfolding pool_inv_def pool_release_def cd by simp
  have notfree: "a \<notin> set (pool_free es n p)" "a \<in> set (pool_cells es n p)"
    using a by (auto simp: pool_live_def)
  have "pool_inv es n ?q \<and> pool_live es n ?q = set (pool_cells es n ?q) - set ?fs"
  proof (rule pool_invI)
    show "chain (links ?q) (my_head ?q) ?fs"
      using inv notfree by (simp add: pool_inv_def pool_release_def chain_upd)
    show "my_count ?q = word_of_nat (card (set (pool_cells es n ?q) - set ?fs))"
      unfolding cells live by (rule count)
  qed (use inv notfree in \<open>auto simp: pool_inv_def pool_release_def pool_cells_def\<close>)
  then show ?thesis using live cells by simp
qed

lemma store_inv [inv_intros]:
  assumes inv: "pool_inv es n p" and a: "a \<in> pool_live es n p"
  shows "pool_inv es n (pool_store a v p) \<and> pool_live es n (pool_store a v p) = pool_live es n p"
proof -
  let ?q = "pool_store a v p"
  have cells: "pool_cells es n ?q = pool_cells es n p"
    by (simp add: pool_cells_def pool_store_def)
  have "a \<notin> set (pool_free es n p)"
    using a by (auto simp: pool_live_def)
  then have "pool_inv es n ?q \<and> pool_live es n ?q = set (pool_cells es n ?q) - set (pool_free es n p)"
    using inv by (intro pool_invI)
      (auto simp: pool_inv_def pool_store_def pool_cells_def chain_upd pool_live_def)
  then show ?thesis using cells by (simp add: pool_live_def)
qed

interpretation pool: allocator "pool_get es n" pool_release "pool_inv es n" "pool_live es n"
    "fresh_chunk es n" for es n
  by unfold_locales (simp_all add: get_inv release_inv)

section \<open>cleanup\<close>

lemma link_cells_other:
  assumes "0 < es" and "a \<notin> set (chunk_cells es n c)"
  shows "link_cells es (n - 1) c h a = h a"
proof -
  have "\<not> (\<exists>j < n - 1. a = c + j * es)"
    using assms(2) unfolding in_chunk_cells by (metis diff_le_self order_less_le_trans)
  then show ?thesis
    using assms(1) by (simp only: link_cells_apply if_False)
qed

lemma relink_other:
  "0 < es \<Longrightarrow> 0 < n \<Longrightarrow> a \<notin> set (concat (map (chunk_cells es n) cs)) \<Longrightarrow> prev \<noteq> Some a \<Longrightarrow>
    relink_chunks es n prev cs h a = h a"
proof (induction cs arbitrary: prev h)
  case Nil
  then show ?case by simp
next
  case (Cons c cs)
  have a: "a \<notin> set (chunk_cells es n c)" using Cons.prems(3) by simp
  have "link_cells es (n - 1) c g a = g a" for g
    by (rule link_cells_other [OF Cons.prems(1) a])
  moreover have "c + (n - 1) * es \<in> set (chunk_cells es n c)"
    using Cons.prems(2) by (auto simp: in_chunk_cells intro: exI [of _ "n - 1"])
  then have "Some (c + (n - 1) * es) \<noteq> Some a" using a by auto
  ultimately show ?case
    using Cons.IH [of "Some (c + (n - 1) * es)"] Cons.prems
    by (auto simp: Let_def split: option.split)
qed

definition last_cell :: "nat \<Rightarrow> nat \<Rightarrow> nat list \<Rightarrow> nat" where
  "last_cell es n cs = last cs + (n - 1) * es"

lemma last_cell_in: "0 < n \<Longrightarrow> cs \<noteq> [] \<Longrightarrow> last_cell es n cs \<in> set (concat (map (chunk_cells es n) cs))"
  by (auto simp: last_cell_def in_chunk_cells intro!: bexI [of _ "last cs"] exI [of _ "n - 1"])

lemma separated_cells:
  "0 < es \<Longrightarrow> separated (n * es) (c # cs) \<Longrightarrow> a \<in> set (chunk_cells es n c) \<Longrightarrow>
    a \<notin> set (concat (map (chunk_cells es n) cs))"
  using apart_cells [of es n c] by (fastforce simp: list_all_iff)

lemma relink_chain:
  assumes es: "0 < es" and n: "0 < n"
  shows "separated (n * es) (c # cs) \<Longrightarrow>
    \<forall>q. prev = Some q \<longrightarrow> q \<notin> set (concat (map (chunk_cells es n) (c # cs))) \<Longrightarrow>
    h (last_cell es n (c # cs)) = None \<Longrightarrow>
    chain (relink_chunks es n prev (c # cs) h) (Some c) (concat (map (chunk_cells es n) (c # cs)))"
proof (induction cs arbitrary: c prev h)
  case Nil
  let ?h1 = "case prev of None \<Rightarrow> h | Some q \<Rightarrow> h(q := Some c)"
  have "c + (n - 1) * es \<in> set (chunk_cells es n c)"
    using n by (auto simp: in_chunk_cells intro: exI [of _ "n - 1"])
  then have "?h1 (c + (n - 1) * es) = None"
    using Nil by (auto simp: last_cell_def split: option.split)
  then show ?case
    using cells_chain [of "n - 1" "link_cells es (n - 1) c ?h1" c es "[]"] n
      link_cells_before_last [OF es] link_cells_last [OF es, of "n - 1" c ?h1]
    by (simp add: Let_def)
next
  case (Cons d ds)
  let ?h1 = "case prev of None \<Rightarrow> h | Some q \<Rightarrow> h(q := Some c)"
  let ?h2 = "link_cells es (n - 1) c ?h1" and ?l = "c + (n - 1) * es"
  let ?h' = "relink_chunks es n (Some ?l) (d # ds) ?h2"
  let ?rest = "set (concat (map (chunk_cells es n) (d # ds)))"
  have lc: "?l \<in> set (chunk_cells es n c)"
    using n by (auto simp: in_chunk_cells intro: exI [of _ "n - 1"])
  have out: "a \<notin> ?rest" if "a \<in> set (chunk_cells es n c)" for a
    using separated_cells [OF es Cons.prems(1) that] .
  have ld: "last_cell es n (d # ds) \<in> ?rest" using n by (intro last_cell_in) simp_all
  then have "prev \<noteq> Some (last_cell es n (d # ds))"
    using Cons.prems(2) by auto
  moreover have "h (last_cell es n (d # ds)) = None"
    using Cons.prems(3) by (simp add: last_cell_def)
  ultimately have "?h1 (last_cell es n (d # ds)) = None"
    by (auto split: option.split)
  then have h2: "?h2 (last_cell es n (d # ds)) = None"
    using link_cells_other [OF es] out ld by metis
  have rest: "chain ?h' (Some d) (concat (map (chunk_cells es n) (d # ds)))"
    using Cons.IH [of d "Some ?l" ?h2] Cons.prems(1) out [OF lc] h2 by simp
  have inner: "?h' (c + j * es) = Some (c + Suc j * es)" if "j < n - 1" for j
  proof -
    have "c + j * es \<in> set (chunk_cells es n c)" "c + j * es \<noteq> ?l"
      using that es by (auto simp: in_chunk_cells intro: exI [of _ j])
    then show ?thesis
      using relink_other [OF es n out, of "c + j * es" "Some ?l" ?h2]
        link_cells_before_last [OF es that] by simp
  qed
  have l: "?l \<notin> set (chunk_cells es n d)" "?l \<notin> set (concat (map (chunk_cells es n) ds))"
    using out [OF lc] by simp_all
  moreover have "d + (n - 1) * es \<in> set (chunk_cells es n d)"
    using n by (auto simp: in_chunk_cells intro: exI [of _ "n - 1"])
  ultimately have "?l \<noteq> d + (n - 1) * es" by metis
  then have "?h' ?l = Some d"
    using relink_other [OF es n] link_cells_other [OF es] l by (simp add: Let_def)
  then have "chain ?h' (Some c) (chunk_cells es n c @ concat (map (chunk_cells es n) (d # ds)))"
    using cells_chain [of "n - 1" ?h' c es "concat (map (chunk_cells es n) (d # ds))"] inner rest n
    by simp
  then show ?case by (simp add: Let_def)
qed

lemma cleanup_inv:
  assumes inv: "pool_inv es n p" and "my_chunk p \<noteq> []"
    and last: "links p (last_cell es n (my_chunk p)) = None"
  shows "pool_inv es n (pool_cleanup es n p) \<and> pool_live es n (pool_cleanup es n p) = {}"
proof -
  have pos: "0 < es" "0 < n" using inv by (auto simp: pool_inv_def)
  let ?q = "pool_cleanup es n p"
  obtain c cs where cs: "my_chunk p = c # cs" using assms(2) by (cases "my_chunk p") auto
  have q: "my_chunk ?q = c # cs" "my_head ?q = Some c" "my_count ?q = 0"
      "links ?q = relink_chunks es n None (c # cs) (links p)"
    using cs by (simp_all add: pool_cleanup_def)
  have cells: "pool_cells es n ?q = concat (map (chunk_cells es n) (c # cs))"
    by (simp add: pool_cells_def q)
  have dist: "distinct (concat (map (chunk_cells es n) xs))" if "separated (n * es) xs" for xs
    using that
  proof (induction xs)
    case (Cons x xs)
    then show ?case
      using separated_cells [OF pos(1) Cons.prems] distinct_chunk_cells [OF pos(1)] by auto
  qed simp
  have "pool_inv es n ?q
      \<and> pool_live es n ?q = set (pool_cells es n ?q) - set (pool_cells es n ?q)"
    using inv dist [of "c # cs"] relink_chain [OF pos, of c cs None "links p"] last
    by (intro pool_invI [OF pos]) (simp_all add: q cells pool_inv_def cs)
  then show ?thesis by simp
qed

section \<open>Every reachable pool\<close>

text \<open>
  What the users of a pool do with it: they construct it, take cells, write to the cells they
  hold, give them back, and call \<^verbatim>\<open>purge\<close> at any time, but \<^verbatim>\<open>cleanup\<close> only while they hold none and, when
  there are chunks, the last cell of the last one ends the list: \<^verbatim>\<open>cleanup\<close> does not reset that link, and what
  it does to a pool where the link goes on is the last theorem of this file. \<^verbatim>\<open>malloc\<close> answers chunks that do not
  overlap the pool's.
\<close>

inductive pool_reachable :: "nat \<Rightarrow> nat \<Rightarrow> object_pool \<Rightarrow> bool" for es n where
  reach_new: "pool_reachable es n (pool_new es n c mem)"
| reach_get: "pool_reachable es n p \<Longrightarrow> fresh_chunk es n c p \<Longrightarrow>
    pool_get es n c p = Returns (a, p') \<Longrightarrow> pool_reachable es n p'"
| reach_release: "pool_reachable es n p \<Longrightarrow> a \<in> pool_live es n p \<Longrightarrow>
    pool_reachable es n (pool_release a p)"
| reach_store: "pool_reachable es n p \<Longrightarrow> a \<in> pool_live es n p \<Longrightarrow>
    pool_reachable es n (pool_store a v p)"
| reach_purge: "pool_reachable es n p \<Longrightarrow> pool_reachable es n (pool_purge p)"
| reach_cleanup: "pool_reachable es n p \<Longrightarrow> pool_live es n p = {} \<Longrightarrow>
    my_chunk p = [] \<or> links p (last_cell es n (my_chunk p)) = None \<Longrightarrow>
    pool_reachable es n (pool_cleanup es n p)"

lemma purge_inv [inv_intros]:
  "pool_inv es n p \<Longrightarrow> pool_inv es n (pool_purge p) \<and> pool_live es n (pool_purge p) = {}"
  using pool_invI [of es n "pool_purge p" "[]"]
  by (simp add: pool_inv_def pool_purge_def pool_cells_def)

lemma reachable_inv:
  "pool_reachable es n p \<Longrightarrow> 0 < es \<Longrightarrow> 0 < n \<Longrightarrow> pool_inv es n p"
proof (induction rule: pool_reachable.induct)
  case (reach_get p c a p')
  then show ?case using get_inv [of es n p c] by auto
next
  case (reach_cleanup p)
  then show ?case using cleanup_inv [of es n p] by (cases "my_chunk p") (auto simp: pool_cleanup_def [of es n p])
qed (auto dest: release_inv store_inv purge_inv simp: new_inv)

lemma cells_apart:
  assumes es: "0 < es" and "separated (n * es) cs"
    and "a \<in> set (concat (map (chunk_cells es n) cs))"
    and "b \<in> set (concat (map (chunk_cells es n) cs))" and "a \<noteq> b"
  shows "apart es a b"
proof -
  have one: "apart es (c + j * es) (c + k * es)" if "j < k" for c j k
  proof -
    have "Suc j * es \<le> k * es" using that by (intro mult_le_mono1) simp
    then show ?thesis by (simp add: apart_def)
  qed
  have two: "apart es (c + j * es) (d + k * es)" if "apart (n * es) c d" "j < n" "k < n" for c d j k
  proof -
    have "Suc j * es \<le> n * es" "Suc k * es \<le> n * es"
      using that by (intro mult_le_mono1, simp)+
    then show ?thesis using that(1) by (auto simp: apart_def)
  qed
  have sym: "apart sz x y = apart sz y x" for sz x y by (auto simp: apart_def)
  obtain c j where c: "c \<in> set cs" "j < n" "a = c + j * es"
    using assms(3) by (auto simp: in_chunk_cells)
  obtain d k where d: "d \<in> set cs" "k < n" "b = d + k * es"
    using assms(4) by (auto simp: in_chunk_cells)
  show ?thesis
  proof (cases "c = d")
    case True
    then have "j < k \<or> k < j" using assms(5) c d by auto
    then show ?thesis using one [of j k c] one [of k j c] c d True sym [of es] by auto
  next
    case False
    have "apart (n * es) c d"
      using assms(2) c(1) d(1) False
      by (induction cs) (auto simp: list_all_iff sym [of "n * es"])
    then show ?thesis using two c d by simp
  qed
qed

section \<open>Properties\<close>

text \<open>
  C6. In every pool its users can reach, by the constructor, \<^verbatim>\<open>get\<close>, \<^verbatim>\<open>release\<close>, writing to their cells, \<^verbatim>\<open>purge\<close>,
  and \<^verbatim>\<open>cleanup\<close> while no cell is live and the last cell of the last chunk ends the free list, \<^verbatim>\<open>get\<close> answers a cell inside the pool's chunks whose
  bytes overlap those of no live cell, the live cells are then those and the new one, and
  \<^verbatim>\<open>count()\<close> is their number (modulo $2^{64}$).
\<close>

theorem get_answers_unused_cell:
  assumes "pool_reachable es n p" and "0 < es" and "0 < n" and "fresh_chunk es n c p"
  shows "\<exists>a p'. pool_get es n c p = Returns (a, p') \<and> a \<in> set (pool_cells es n p')
    \<and> (\<forall>b \<in> pool_live es n p. apart es a b) \<and> pool_live es n p' = insert a (pool_live es n p)
    \<and> my_count p' = word_of_nat (card (pool_live es n p'))"
proof -
  obtain a p' where get: "pool_get es n c p = Returns (a, p')" "pool_inv es n p'"
      "a \<notin> pool_live es n p" "pool_live es n p' = insert a (pool_live es n p)"
    using get_inv [OF reachable_inv [OF assms(1-3)] assms(4)] by blast
  have sub: "pool_live es n p' \<subseteq> set (pool_cells es n p')" by (auto simp: pool_live_def)
  have "apart es a b" if b: "b \<in> pool_live es n p" for b
  proof (rule cells_apart [OF assms(2)])
    show "separated (n * es) (my_chunk p')" using get(2) by (simp add: pool_inv_def)
    show "a \<in> set (concat (map (chunk_cells es n) (my_chunk p')))"
      "b \<in> set (concat (map (chunk_cells es n) (my_chunk p')))"
      using get(4) sub b unfolding pool_cells_def by auto
    show "a \<noteq> b" using get(3) b by auto
  qed
  then show ?thesis using get sub by (auto simp: pool_inv_def)
qed

lemma reachable_example:
  "pool_reachable 8 2 (pool_new 8 2 1000 (\<lambda>_. None)) \<and> fresh_chunk 8 2 2000 (pool_new 8 2 1000 (\<lambda>_. None))"
  by (rule conjI, rule pool_reachable.reach_new)
    (simp add: fresh_chunk_def pool_new_def enlarge_def apart_def Let_def)

theorem get_answers_unused_cell_witness:
  "\<exists>a p'. pool_get 8 2 2000 (pool_new 8 2 1000 (\<lambda>_. None)) = Returns (a, p')
    \<and> a \<in> set (pool_cells 8 2 p') \<and> my_count p' = 1"
proof -
  have "pool_live 8 2 (pool_new 8 2 1000 (\<lambda>_. None)) = {}" by (simp add: new_inv)
  then show ?thesis
    using get_answers_unused_cell [of 8 2 "pool_new 8 2 1000 (\<lambda>_. None)" 2000] reachable_example
    by auto
qed

text \<open>
  Taking any number of cells and giving them all back, in that order, leaves the same live
  cells; the cells taken are distinct and were not live.
\<close>

theorem gets_then_releases:
  assumes "pool_reachable es n p" and "0 < es" and "0 < n"
    and "fits_all (pool_get es n) (fresh_chunk es n) cs p"
  shows "\<exists>as p'. alloc_all (pool_get es n) cs p = Returns (as, p') \<and> length as = length cs
    \<and> distinct as \<and> set as \<inter> pool_live es n p = {}
    \<and> pool_live es n (fold pool_release as p') = pool_live es n p"
proof -
  note inv = reachable_inv [OF assms(1-3)]
  obtain as p' where *: "alloc_all (pool_get es n) cs p = Returns (as, p')" "pool_inv es n p'"
      "length as = length cs" "distinct as" "set as \<inter> pool_live es n p = {}"
      "pool_live es n p' = set as \<union> pool_live es n p"
    using pool.allocs_distinct [OF inv assms(4)] by blast
  then have "pool_live es n (fold pool_release as p') = pool_live es n p' - set as"
    using pool.frees_live [of es n p' as] by auto
  with * show ?thesis by auto
qed

theorem gets_then_releases_witness:
  "\<exists>as p'. alloc_all (pool_get 8 2) [2000, 2000, 2000] (pool_new 8 2 1000 (\<lambda>_. None)) = Returns (as, p')
    \<and> length as = 3 \<and> distinct as \<and> pool_live 8 2 (fold pool_release as p') = {}"
proof -
  let ?p = "pool_new 8 2 1000 (\<lambda>_. None)"
  have "fits_all (pool_get 8 2) (fresh_chunk 8 2) [2000, 2000, 2000] ?p"
    by (simp add: fresh_chunk_def pool_new_def enlarge_def pool_get_def apart_def Let_def numeral_2_eq_2)
  moreover have "pool_live 8 2 ?p = {}" by (simp add: new_inv)
  ultimately show ?thesis
    using gets_then_releases [of 8 2 ?p "[2000, 2000, 2000]"] reachable_example by auto
qed

text \<open>
  \<^verbatim>\<open>cleanup\<close> of a reachable pool whose very last cell happens to hold a null link makes every
  cell free again.
\<close>

theorem cleanup_frees_all:
  assumes "pool_reachable es n p" and "0 < es" and "0 < n" and "my_chunk p \<noteq> []"
    and "links p (last_cell es n (my_chunk p)) = None"
  shows "pool_inv es n (pool_cleanup es n p) \<and> pool_live es n (pool_cleanup es n p) = {}
    \<and> my_count (pool_cleanup es n p) = 0"
  using cleanup_inv [OF reachable_inv [OF assms(1-3)] assms(4,5)] by (simp add: pool_inv_def)

theorem cleanup_frees_all_witness:
  "pool_live 8 2 (pool_cleanup 8 2 (pool_new 8 2 1000 (\<lambda>_. None))) = {}"
proof -
  let ?p = "pool_new 8 2 1000 (\<lambda>_. None)"
  have "my_chunk ?p \<noteq> []" "links ?p (last_cell 8 2 (my_chunk ?p)) = None"
    by (simp_all add: pool_new_def enlarge_def last_cell_def Let_def)
  then show ?thesis
    using cleanup_frees_all [of 8 2 ?p] reachable_example by simp
qed

text \<open>
  Without that accident \<^verbatim>\<open>cleanup\<close> leaves the free list cyclic: in a pool of two cells that
  were taken and given back, three calls of \<^verbatim>\<open>get\<close> after \<^verbatim>\<open>cleanup\<close> answer the first cell twice,
  and no new chunk is asked for.
\<close>

theorem cleanup_then_double_allocation:
  "\<exists>p a. pool_reachable 8 2 p \<and> pool_live 8 2 p = {}
    \<and> (\<exists>b p'. alloc_all (pool_get 8 2) cs (pool_cleanup 8 2 p) = Returns ([a, b, a], p'))"
  if len: "length cs = 3"
proof -
  let ?p0 = "pool_new 8 2 1000 (\<lambda>_. None)"
  obtain c0 c1 c2 where cs: "cs = [c0, c1, c2]"
    using len by (auto simp: numeral_3_eq_3 length_Suc_conv)
  define p1 where "p1 = ?p0\<lparr>my_head := Some 1008, my_count := 1\<rparr>"
  define p2 where "p2 = ?p0\<lparr>my_head := None, my_count := 2\<rparr>"
  have step: "pool_get 8 2 2000 ?p0 = Returns (1000, p1)" "pool_get 8 2 2000 p1 = Returns (1008, p2)"
      "fresh_chunk 8 2 2000 ?p0" "fresh_chunk 8 2 2000 p1"
    by (simp_all add: p1_def p2_def pool_get_def pool_new_def enlarge_def fresh_chunk_def apart_def Let_def)
  then have r2: "pool_reachable 8 2 p2"
    by (meson pool_reachable.intros)
  have live2: "pool_live 8 2 p2 = {1000, 1008}"
    by (auto simp: pool_live_def pool_cells_def pool_free_def p2_def pool_new_def enlarge_def
        chunk_cells_def Let_def numeral_2_eq_2)
  define p3 where "p3 = pool_release 1000 p2"
  define p4 where "p4 = pool_release 1008 p3"
  have r3: "pool_reachable 8 2 p3" "pool_live 8 2 p3 = {1008}"
    using pool_reachable.reach_release [OF r2] release_inv [OF reachable_inv [OF r2]] live2
    by (auto simp: p3_def)
  then have r4: "pool_reachable 8 2 p4" "pool_live 8 2 p4 = {}"
    using pool_reachable.reach_release [OF r3(1)] release_inv [OF reachable_inv [OF r3(1)]]
    by (auto simp: p4_def)
  have "\<exists>p'. alloc_all (pool_get 8 2) cs (pool_cleanup 8 2 p4) = Returns ([1000, 1008, 1000], p')"
    by (simp add: cs p4_def p3_def p2_def pool_release_def pool_new_def enlarge_def pool_get_def
        pool_cleanup_def Let_def)
  then show ?thesis using r4 by blast
qed

theorem cleanup_then_double_allocation_witness:
  "\<exists>p a. pool_reachable 8 2 p \<and> pool_live 8 2 p = {}
    \<and> (\<exists>b p'. alloc_all (pool_get 8 2) [2000, 2000, 2000] (pool_cleanup 8 2 p) = Returns ([a, b, a], p'))"
  by (rule cleanup_then_double_allocation) simp

end
