(* ===== verification/Timers.thy ===== *)
theory Timers
  imports GPS_Prelude "HOL-Library.Multiset" "HOL-Library.Signed_Division"
begin

text \<open>
  Deadline timers (\<^verbatim>\<open>xxsocket/src/deadline_timer.h\<close>, \<^verbatim>\<open>deadline_timer.cpp\<close>) and the timer queue of
  the client (\<^verbatim>\<open>schedule_timer\<close>, \<^verbatim>\<open>cancel_timer\<close>, \<^verbatim>\<open>perform_timeout_timers\<close> and
  \<^verbatim>\<open>get_wait_duration\<close> of \<^verbatim>\<open>async_tcp_client.cpp\<close>). A timer is a pointer, a number into the
  store \<open>timers\<close>. The steady clock counts nanoseconds and durations are microseconds; \<open>now\<close> is
  the clock reading of an operation (one reading per operation). A callback that is run or posted
  is an event \<open>(timer, cancelled)\<close> of \<open>fired\<close>. \<^verbatim>\<open>std::sort\<close> does not fix the order of equal
  elements, so it is an argument \<open>srt\<close> with its specification as a hypothesis.
\<close>

section \<open>Timers\<close>

record deadline_timer =
  dt_loop :: bool
  dt_duration :: int
  dt_expire :: int

text \<open>\<^verbatim>\<open>duration_cast\<close> rounds towards zero.\<close>

definition wait_duration :: "int \<Rightarrow> deadline_timer \<Rightarrow> int" where
  "wait_duration now t = (dt_expire t - now) sdiv 1000"

definition expired :: "int \<Rightarrow> deadline_timer \<Rightarrow> bool" where
  "expired now t = (wait_duration now t \<le> 0)"

definition expires_from_now :: "int \<Rightarrow> int \<Rightarrow> bool \<Rightarrow> deadline_timer \<Rightarrow> deadline_timer" where
  "expires_from_now now duration loop t =
     t\<lparr>dt_duration := duration, dt_loop := loop, dt_expire := now + duration * 1000\<rparr>"

definition expires_again :: "int \<Rightarrow> deadline_timer \<Rightarrow> deadline_timer" where
  "expires_again now t = t\<lparr>dt_expire := now + dt_duration t * 1000\<rparr>"

section \<open>The queue\<close>

record timer_sys =
  timers :: "nat \<Rightarrow> deadline_timer"
  timer_queue :: "nat list"
  interrupts :: nat
  fired :: "(nat \<times> bool) list"

definition interrupt :: "'a timer_sys_scheme \<Rightarrow> 'a timer_sys_scheme" where
  "interrupt s = s\<lparr>interrupts := interrupts s + 1\<rparr>"

type_synonym sorter = "(nat \<Rightarrow> int) \<Rightarrow> nat list \<Rightarrow> nat list"

definition queue_key :: "int \<Rightarrow> 'a timer_sys_scheme \<Rightarrow> nat \<Rightarrow> int" where
  "queue_key now s t = wait_duration now (timers s t)"

definition schedule_timer ::
    "sorter \<Rightarrow> int \<Rightarrow> nat \<Rightarrow> 'a timer_sys_scheme \<Rightarrow> 'a timer_sys_scheme" where
  "schedule_timer srt now timer s =
     (if timer \<in> set (timer_queue s) then s
      else let q = srt (queue_key now s) (timer_queue s @ [timer]);
               s1 = s\<lparr>timer_queue := q\<rparr>
           in if timer = hd q then interrupt s1 else s1)"

definition cancel_timer :: "nat \<Rightarrow> 'a timer_sys_scheme \<Rightarrow> 'a timer_sys_scheme" where
  "cancel_timer timer s =
     (if timer \<in> set (timer_queue s)
      then s\<lparr>fired := fired s @ [(timer, True)], timer_queue := remove1 timer (timer_queue s)\<rparr>
      else s)"

text \<open>\<^verbatim>\<open>async_wait\<close>; storing the callback is not observable in the model.\<close>

definition async_wait :: "sorter \<Rightarrow> int \<Rightarrow> nat \<Rightarrow> 'a timer_sys_scheme \<Rightarrow> 'a timer_sys_scheme" where
  "async_wait srt now timer s = schedule_timer srt now timer s"

text \<open>
  The loop of \<^verbatim>\<open>perform_timeout_timers\<close> over the queue from its back: what is left, the state,
  the loop timers set aside.
\<close>

fun fire_expired :: "int \<Rightarrow> nat list \<Rightarrow> 'a timer_sys_scheme \<Rightarrow> nat list \<Rightarrow>
    nat list \<times> 'a timer_sys_scheme \<times> nat list" where
  "fire_expired now [] s loop_timers = ([], s, loop_timers)"
| "fire_expired now (earliest # ts) s loop_timers =
     (if expired now (timers s earliest) then
        let s1 = s\<lparr>fired := fired s @ [(earliest, False)]\<rparr>
        in if dt_loop (timers s1 earliest)
           then fire_expired now ts
             (s1\<lparr>timers := (timers s1)(earliest := expires_again now (timers s1 earliest))\<rparr>)
             (loop_timers @ [earliest])
           else fire_expired now ts s1 loop_timers
      else (earliest # ts, s, loop_timers))"

definition perform_timeout_timers ::
    "sorter \<Rightarrow> int \<Rightarrow> 'a timer_sys_scheme \<Rightarrow> 'a timer_sys_scheme" where
  "perform_timeout_timers srt now s =
     (if timer_queue s = [] then s
      else let (rest, s1, loop_timers) = fire_expired now (rev (timer_queue s)) s [];
               s2 = s1\<lparr>timer_queue := rev rest\<rparr>
           in if loop_timers \<noteq> []
              then s2\<lparr>timer_queue := srt (queue_key now s2) (timer_queue s2 @ loop_timers)\<rparr>
              else s2)"

text \<open>
  \<^verbatim>\<open>get_wait_duration\<close>: seconds and microseconds of the \<^verbatim>\<open>select\<close> timeout; \<open>sending\<close> says whether
  the send queue holds anything.
\<close>

definition get_wait_duration :: "bool \<Rightarrow> int \<Rightarrow> int \<Rightarrow> 'a timer_sys_scheme \<Rightarrow> int \<times> int" where
  "get_wait_duration sending now usec s =
     (if sending then (0, 0)
      else let d = (if timer_queue s \<noteq> []
                    then let w = wait_duration now (timers s (last (timer_queue s)))
                         in if usec > w then w else usec
                    else usec)
           in if d > 0 then (d div 1000000, d mod 1000000) else (0, 0))"

text \<open>What \<^verbatim>\<open>handle_error\<close> does to the timers: every one is cancelled.\<close>

definition cancel_all :: "'a timer_sys_scheme \<Rightarrow> 'a timer_sys_scheme" where
  "cancel_all s = s\<lparr>fired := fired s @ map (\<lambda>t. (t, True)) (timer_queue s), timer_queue := []\<rparr>"

section \<open>The specification of std::sort with the queue's comparison\<close>

definition sorts_descending :: "sorter \<Rightarrow> bool" where
  "sorts_descending srt \<longleftrightarrow>
     (\<forall>k xs. mset (srt k xs) = mset xs \<and> sorted_wrt (\<lambda>x y. k y \<le> k x) (srt k xs))"

definition stable_descending :: sorter where
  "stable_descending k xs = sort_key (\<lambda>x. - k x) xs"

lemma stable_descending_sorts: "sorts_descending stable_descending"
proof -
  have "sorted_wrt (\<lambda>x y. k y \<le> k x) (sort_key (\<lambda>x. - k x) xs)" for k :: "nat \<Rightarrow> int" and xs
    using sorted_sort_key [of "\<lambda>x. - k x" xs] by (simp add: sorted_map)
  then show ?thesis by (simp add: sorts_descending_def stable_descending_def)
qed

definition queue_sorted :: "int \<Rightarrow> 'a timer_sys_scheme \<Rightarrow> bool" where
  "queue_sorted now s \<longleftrightarrow>
     sorted_wrt (\<lambda>x y. queue_key now s y \<le> queue_key now s x) (timer_queue s) \<and> distinct (timer_queue s)"

lemma sorts_set: "sorts_descending srt \<Longrightarrow> set (srt k xs) = set xs"
  by (metis sorts_descending_def set_mset_mset)

lemma sorts_distinct: "sorts_descending srt \<Longrightarrow> distinct (srt k xs) = distinct xs"
  by (rule mset_eq_imp_distinct_iff) (simp add: sorts_descending_def)

lemma sorts_sorted: "sorts_descending srt \<Longrightarrow> sorted_wrt (\<lambda>x y. k y \<le> k x) (srt k xs)"
  by (simp add: sorts_descending_def)

lemma expired_iff: "expired now t \<longleftrightarrow> dt_expire t - now < 1000"
proof -
  have "d sdiv 1000 \<le> 0 \<longleftrightarrow> d < 1000" for d :: int
  proof (cases "0 \<le> d")
    case True
    then have "d sdiv 1000 = d div 1000" by (simp add: signed_divide_int_def sgn_if)
    then show ?thesis by (intro iffI) linarith+
  next
    case False
    then have "d sdiv 1000 = - (- d div 1000)" by (simp add: signed_divide_int_def sgn_if)
    then show ?thesis using False by (intro iffI) linarith+
  qed
  then show ?thesis by (simp add: expired_def wait_duration_def)
qed

section \<open>The operations\<close>

lemma queue_key_abs: "queue_key now s = (\<lambda>t. wait_duration now (timers s t))"
  by (simp add: queue_key_def fun_eq_iff)

lemma schedule_sorted [inv_intros]:
  assumes "sorts_descending srt" and "queue_sorted now s"
  shows "queue_sorted now (schedule_timer srt now t s)"
  using assms sorts_sorted [OF assms(1), of "queue_key now s" "timer_queue s @ [t]"]
  by (auto simp: schedule_timer_def queue_sorted_def queue_key_def interrupt_def Let_def
      sorts_distinct [OF assms(1)])

lemma sorted_wrt_remove1: "sorted_wrt P xs \<Longrightarrow> sorted_wrt P (remove1 x xs)"
proof (induction xs)
  case (Cons y xs)
  then show ?case using set_remove1_subset [of x xs] by auto
qed simp

lemma cancel_sorted [inv_intros]:
  "queue_sorted now s \<Longrightarrow> queue_sorted now (cancel_timer t s)"
  by (auto simp: cancel_timer_def queue_sorted_def queue_key_def sorted_wrt_remove1)

text \<open>The loop fires the longest expired prefix of the list it walks.\<close>

definition rearmed :: "int \<Rightarrow> nat set \<Rightarrow> 'a timer_sys_scheme \<Rightarrow> nat \<Rightarrow> deadline_timer" where
  "rearmed now ts s = (\<lambda>t. if t \<in> ts \<and> dt_loop (timers s t) then expires_again now (timers s t)
     else timers s t)"

lemma fire_expired_eq:
  "distinct ts \<Longrightarrow> fire_expired now ts s lt =
    (let es = takeWhile (\<lambda>t. expired now (timers s t)) ts
     in (dropWhile (\<lambda>t. expired now (timers s t)) ts,
         s\<lparr>fired := fired s @ map (\<lambda>t. (t, False)) es, timers := rearmed now (set es) s\<rparr>,
         lt @ filter (\<lambda>t. dt_loop (timers s t)) es))"
proof (induction ts arbitrary: s lt)
  case Nil
  then show ?case by (simp add: rearmed_def)
next
  case (Cons t ts)
  show ?case
  proof (cases "expired now (timers s t) \<and> dt_loop (timers s t)")
    case True
    let ?es = "takeWhile (\<lambda>x. expired now (timers s x)) ts"
    let ?s = "s\<lparr>fired := fired s @ [(t, False)], timers := (timers s)(t := expires_again now (timers s t))\<rparr>"
    have "t \<notin> set ?es" using Cons.prems by (auto dest: set_takeWhileD)
    then have "rearmed now (set ?es) ?s = rearmed now (insert t (set ?es)) s"
      using True by (auto simp: rearmed_def fun_eq_iff)
    moreover have "filter (\<lambda>x. dt_loop (timers ?s x)) ?es = filter (\<lambda>x. dt_loop (timers s x)) ?es"
      using \<open>t \<notin> set ?es\<close> by (intro filter_cong) auto
    moreover have "takeWhile (\<lambda>x. expired now (timers ?s x)) ts = ?es"
        "dropWhile (\<lambda>x. expired now (timers ?s x)) ts = dropWhile (\<lambda>x. expired now (timers s x)) ts"
      using Cons.prems by (auto intro!: takeWhile_cong dropWhile_cong)
    moreover have "fire_expired now (t # ts) s lt = fire_expired now ts ?s (lt @ [t])"
      using True by (simp add: Let_def)
    ultimately show ?thesis
      using True Cons.prems Cons.IH [of ?s "lt @ [t]", unfolded Let_def] by (simp add: Let_def)
  next
    case False
    let ?es = "takeWhile (\<lambda>x. expired now (timers s x)) ts"
    let ?s = "s\<lparr>fired := fired s @ [(t, False)]\<rparr>"
    show ?thesis
    proof (cases "expired now (timers s t)")
      case True
      then have "rearmed now (set ?es) ?s = rearmed now (insert t (set ?es)) s"
        using False by (auto simp: rearmed_def fun_eq_iff)
      with True False Cons.prems Cons.IH [of ?s lt] show ?thesis by (simp add: Let_def)
    next
      case no: False
      have "rearmed now {} s = timers s" by (simp add: rearmed_def)
      with no show ?thesis by simp
    qed
  qed
qed

lemma takeWhile_ascending:
  fixes k :: "'a \<Rightarrow> int"
  shows "sorted_wrt (\<lambda>x y. k x \<le> k y) xs \<Longrightarrow>
    takeWhile (\<lambda>x. k x \<le> 0) xs = filter (\<lambda>x. k x \<le> 0) xs
    \<and> dropWhile (\<lambda>x. k x \<le> 0) xs = filter (\<lambda>x. \<not> k x \<le> 0) xs"
proof (induction xs)
  case (Cons x xs)
  show ?case
  proof (cases "k x \<le> 0")
    case False
    then have "\<forall>y \<in> set xs. \<not> k y \<le> 0" using Cons.prems by auto
    then have "filter (\<lambda>x. k x \<le> 0) xs = []" "filter (\<lambda>x. \<not> k x \<le> 0) xs = xs"
      by (simp_all add: filter_empty_conv)
    with False show ?thesis by simp
  qed (use Cons in simp)
qed simp

abbreviation expired_timers :: "int \<Rightarrow> 'a timer_sys_scheme \<Rightarrow> nat list" where
  "expired_timers now s \<equiv> filter (\<lambda>t. expired now (timers s t)) (timer_queue s)"

abbreviation pending_timers :: "int \<Rightarrow> 'a timer_sys_scheme \<Rightarrow> nat list" where
  "pending_timers now s \<equiv> filter (\<lambda>t. \<not> expired now (timers s t)) (timer_queue s)"

lemma fire_expired_sorted:
  assumes "queue_sorted now s"
  shows "fire_expired now (rev (timer_queue s)) s [] =
    (rev (pending_timers now s),
     s\<lparr>fired := fired s @ map (\<lambda>t. (t, False)) (rev (expired_timers now s)),
       timers := rearmed now (set (expired_timers now s)) s\<rparr>,
     filter (\<lambda>t. dt_loop (timers s t)) (rev (expired_timers now s)))"
proof -
  have "sorted_wrt (\<lambda>x y. queue_key now s x \<le> queue_key now s y) (rev (timer_queue s))"
    using assms by (simp add: queue_sorted_def sorted_wrt_rev)
  from takeWhile_ascending [OF this] show ?thesis
    using fire_expired_eq [of "rev (timer_queue s)" now s "[]"] assms
    by (simp add: queue_sorted_def queue_key_def rev_filter Let_def flip: expired_def)
qed

lemma perform_cases:
  assumes "queue_sorted now s"
  defines "es \<equiv> expired_timers now s"
  defines "loops \<equiv> filter (\<lambda>t. dt_loop (timers s t)) (rev es)"
  defines "s1 \<equiv> s\<lparr>fired := fired s @ map (\<lambda>t. (t, False)) (rev es), timers := rearmed now (set es) s\<rparr>"
  shows "perform_timeout_timers srt now s = s1\<lparr>timer_queue := (if loops = [] then pending_timers now s
      else srt (queue_key now s1) (pending_timers now s @ loops))\<rparr>"
proof (cases "timer_queue s = []")
  case True
  then show ?thesis
    by (simp add: perform_timeout_timers_def s1_def loops_def es_def rearmed_def)
next
  case False
  have "queue_key now (s1\<lparr>timer_queue := q\<rparr>) = queue_key now s1" for q
    by (simp add: queue_key_def fun_eq_iff)
  then show ?thesis
    using False fire_expired_sorted [OF assms(1)]
    by (simp add: perform_timeout_timers_def Let_def flip: es_def loops_def s1_def)
qed

lemma perform_sorted [inv_intros]:
  assumes srt: "sorts_descending srt" and q: "queue_sorted now s"
  shows "queue_sorted now (perform_timeout_timers srt now s)"
proof -
  let ?es = "expired_timers now s" and ?p = "pending_timers now s"
  let ?loops = "filter (\<lambda>t. dt_loop (timers s t)) (rev ?es)"
  let ?ts = "rearmed now (set ?es) s"
  have d: "distinct (?p @ ?loops)" using q by (auto simp: queue_sorted_def)
  have p: "sorted_wrt (\<lambda>x y. wait_duration now (?ts y) \<le> wait_duration now (?ts x)) ?p"
  proof (rule sorted_wrt_mono_rel [of _ "\<lambda>x y. queue_key now s y \<le> queue_key now s x"])
    show "sorted_wrt (\<lambda>x y. queue_key now s y \<le> queue_key now s x) ?p"
      using q by (simp add: queue_sorted_def sorted_wrt_filter)
  qed (auto simp: rearmed_def queue_key_def)
  show ?thesis
  proof (cases "?loops = []")
    case True
    then show ?thesis
      using p d by (simp add: perform_cases [OF q] queue_sorted_def queue_key_def)
  next
    case False
    then show ?thesis
      using d sorts_sorted [OF srt, of "\<lambda>t. wait_duration now (?ts t)"] sorts_distinct [OF srt]
      by (simp add: perform_cases [OF q] queue_sorted_def queue_key_abs)
  qed
qed

lemma last_is_least:
  assumes "queue_sorted now s" and "t \<in> set (timer_queue s)"
  shows "wait_duration now (timers s (last (timer_queue s))) \<le> wait_duration now (timers s t)"
proof -
  obtain q u where q: "timer_queue s = q @ [u]"
    using assms(2) by (cases "timer_queue s" rule: rev_cases) auto
  show ?thesis
    using assms by (auto simp: queue_sorted_def q sorted_wrt_append queue_key_def)
qed

section \<open>Properties\<close>

text \<open>
  C17. One pass over the timers at time \<open>now\<close>: exactly the expired timers fire, each once, the
  earliest first; the queue then holds the timers that were not due and the loop timers that
  fired, re-armed from \<open>now\<close>, and no other timer changes.
\<close>

theorem perform_fires_expired:
  assumes "sorts_descending srt" and "queue_sorted now s"
  defines "s' \<equiv> perform_timeout_timers srt now s"
  shows "fired s' = fired s @ map (\<lambda>t. (t, False)) (rev (expired_timers now s))
    \<and> mset (timer_queue s') = mset (pending_timers now s)
        + mset (filter (\<lambda>t. dt_loop (timers s t)) (expired_timers now s))
    \<and> timers s' = (\<lambda>t. if t \<in> set (expired_timers now s) \<and> dt_loop (timers s t)
        then expires_again now (timers s t) else timers s t)
    \<and> queue_sorted now s'"
proof -
  let ?l = "filter (\<lambda>t. dt_loop (timers s t)) (rev (expired_timers now s))"
  have m: "mset (srt k xs) = mset xs" for k xs using assms(1) by (simp add: sorts_descending_def)
  have "mset ?l = mset (filter (\<lambda>t. dt_loop (timers s t)) (expired_timers now s))"
    by (metis mset_filter mset_rev)
  then show ?thesis
    using perform_sorted [OF assms(1,2)]
    by (simp add: s'_def perform_cases [OF assms(2)] rearmed_def m del: mset_filter filter_filter)
      (metis add.right_neutral mset_zero_iff)
qed

definition two_timers :: timer_sys where
  "two_timers = \<lparr>timers = (\<lambda>t. \<lparr>dt_loop = (t = 1), dt_duration = 10, dt_expire = int t * 5000\<rparr>),
     timer_queue = [2, 1], interrupts = 0, fired = []\<rparr>"

lemma two_timers_sorted: "queue_sorted 0 two_timers" "queue_sorted 6000 two_timers"
  by (simp_all add: two_timers_def queue_sorted_def queue_key_def wait_duration_def signed_divide_int_def)

theorem perform_fires_expired_witness:
  "fired (perform_timeout_timers stable_descending 6000 two_timers) = [(1, False)]"
  using perform_fires_expired [OF stable_descending_sorts two_timers_sorted(2)]
  by (simp add: two_timers_def expired_iff)

text \<open>
  The timeout handed to \<^verbatim>\<open>select\<close> is well formed and, when nothing waits to be sent, is the
  least of the caller's bound and the waits of all queued timers (zero when one is due), so the
  loop never sleeps past a deadline it knew when it went to sleep.
\<close>

theorem select_timeout_is_least_wait:
  assumes "queue_sorted now s" and "get_wait_duration sending now usec s = (sec, us)"
  shows "0 \<le> us \<and> us < 1000000 \<and> 0 \<le> sec \<and> sec * 1000000 + us
    = (if sending then 0
       else max 0 (Min (insert usec ((\<lambda>t. wait_duration now (timers s t)) ` set (timer_queue s)))))"
proof -
  let ?W = "(\<lambda>t. wait_duration now (timers s t)) ` set (timer_queue s)"
  let ?w = "wait_duration now (timers s (last (timer_queue s)))"
  let ?d = "if timer_queue s \<noteq> [] then (if usec > ?w then ?w else usec) else usec"
  have "Min (insert usec ?W) = ?d"
  proof (rule Min_eqI)
    show "?d \<le> y" if "y \<in> insert usec ?W" for y
      using that last_is_least [OF assms(1)] by fastforce
  qed auto
  moreover have "get_wait_duration False now usec s
      = (if ?d > 0 then (?d div 1000000, ?d mod 1000000) else (0, 0))"
    by (simp add: get_wait_duration_def Let_def)
  ultimately show ?thesis
    using assms(2) by (cases sending; cases "?d > 0")
      (auto simp: get_wait_duration_def pos_imp_zdiv_nonneg_iff simp del: Min_insert)
qed

theorem select_timeout_is_least_wait_witness:
  "get_wait_duration False 0 300000000 two_timers = (0, 5) \<and> (0::int) * 1000000 + 5 = max 0 (Min {300000000, 10, 5})"
proof -
  have "get_wait_duration False 0 300000000 two_timers = (0, 5)"
    by (simp add: get_wait_duration_def two_timers_def wait_duration_def signed_divide_int_def)
  from select_timeout_is_least_wait [OF two_timers_sorted(1) this] this show ?thesis
    by (simp add: two_timers_def wait_duration_def signed_divide_int_def)
qed

text \<open>
  \<^verbatim>\<open>schedule_timer\<close> wakes the sleeping loop only for a timer that becomes the first of the
  queue, the latest: a new timer due before all others goes to the back without an interrupt,
  although the timeout the loop sleeps with is longer than its wait.
\<close>

theorem earliest_timer_does_not_interrupt:
  assumes srt: "sorts_descending srt" and q: "queue_sorted now s" and new: "t \<notin> set (timer_queue s)"
    and ne: "timer_queue s \<noteq> []" and usec: "wait_duration now (timers s t) < usec"
    and early: "\<forall>u \<in> set (timer_queue s). wait_duration now (timers s t) < wait_duration now (timers s u)"
    and wait: "0 \<le> wait_duration now (timers s t)" and get: "get_wait_duration False now usec s = (sec, us)"
  shows "interrupts (schedule_timer srt now t s) = interrupts s
    \<and> last (timer_queue (schedule_timer srt now t s)) = t
    \<and> wait_duration now (timers s t) < sec * 1000000 + us"
proof -
  let ?q = "srt (queue_key now s) (timer_queue s @ [t])"
  have set: "set ?q = insert t (set (timer_queue s))" by (simp add: sorts_set [OF srt])
  obtain u where u: "u \<in> set (timer_queue s)" using ne by (cases "timer_queue s") auto
  have "?q \<noteq> []" using set by auto
  then obtain x r where xr: "?q = x # r" by (cases ?q) auto
  obtain r' y where ry: "?q = r' @ [y]" using \<open>?q \<noteq> []\<close> by (cases ?q rule: rev_cases) auto
  have "hd ?q = x" "last ?q = y" by (simp add: xr, simp add: ry)
  have sw: "sorted_wrt (\<lambda>x y. queue_key now s y \<le> queue_key now s x) ?q"
    by (rule sorts_sorted [OF srt])
  have tq: "t \<in> set ?q" "u \<in> set ?q" using set u by auto
  have "x \<noteq> t"
  proof
    assume "x = t"
    then have "u \<in> set r" using tq(2) xr new u by auto
    then have "queue_key now s u \<le> queue_key now s t" using sw xr \<open>x = t\<close> by auto
    then show False using early u by (auto simp: queue_key_def)
  qed
  moreover have "y = t"
  proof (rule ccontr)
    assume "y \<noteq> t"
    then have "y \<in> set (timer_queue s)" "t \<in> set r'" using set ry tq(1) by auto
    then have "queue_key now s y \<le> queue_key now s t" using sw ry by (auto simp: sorted_wrt_append)
    then show False using early \<open>y \<in> set (timer_queue s)\<close> by (auto simp: queue_key_def)
  qed
  moreover have "wait_duration now (timers s t) < sec * 1000000 + us"
    using select_timeout_is_least_wait [OF q get] usec early wait
    by (auto simp: less_max_iff_disj)
  ultimately show ?thesis
    using new \<open>hd ?q = x\<close> \<open>last ?q = y\<close> by (simp add: schedule_timer_def Let_def)
qed

theorem earliest_timer_does_not_interrupt_witness:
  "interrupts (schedule_timer stable_descending 0 0 two_timers) = 0"
proof -
  have "get_wait_duration False 0 300000000 two_timers = (0, 5)"
    by (simp add: get_wait_duration_def two_timers_def wait_duration_def signed_divide_int_def)
  then show ?thesis
    using earliest_timer_does_not_interrupt [OF stable_descending_sorts two_timers_sorted(1), of 0 300000000 0 5]
    by (simp add: two_timers_def wait_duration_def signed_divide_int_def)
qed

end
