(* ===== verification/AsyncClient.thy ===== *)
theory AsyncClient
  imports Timers BinaryStream
begin

text \<open>
  The asynchronous TCP client, \<^verbatim>\<open>xxsocket/src/async_tcp_client.h\<close> and \<^verbatim>\<open>async_tcp_client.cpp\<close>: the
  state of the client object, the operations of the worker thread (\<^verbatim>\<open>connect\<close>, \<^verbatim>\<open>do_read\<close>,
  \<^verbatim>\<open>do_write\<close>, \<^verbatim>\<open>handle_error\<close>, one pass of the event loop) and of its users (\<^verbatim>\<open>async_send\<close>,
  \<^verbatim>\<open>close\<close>, \<^verbatim>\<open>dispatch_received_pdu\<close>). The class \<^verbatim>\<open>xxsocket\<close> and its macros
  \<^verbatim>\<open>SHOULD_CLOSE_0/1\<close> are not part of the repository: the answers of its calls and the two
  predicates are arguments. The record extends the timer queue of \<^verbatim>\<open>Timers\<close>.
\<close>

section \<open>State\<close>

datatype error_number = ERR_OK | ERR_CONNECT_FAILED | ERR_CONNECT_TIMEOUT | ERR_SEND_FAILED
  | ERR_SEND_TIMEOUT | ERR_RECV_FAILED | ERR_NETWORK_UNREACHABLE | ERR_CONNECTION_LOST
  | ERR_PDU_TOO_LONG | ERR_DPL_ILLEGAL_PDU

record appl_pdu =
  pdu_data :: bytes
  pdu_offset :: nat
  pdu_expire :: int

record async_client = timer_sys +
  impl_open :: bool
  connected :: bool
  rx_buffer :: bytes
  rx_offset :: int
  receiving_pdu :: bytes
  expected_pdu_length :: int
  client_error :: error_number
  socket_error :: int
  recv_queue :: "bytes list"
  send_queue :: "appl_pdu list"
  sending :: "appl_pdu list"
  wire :: bytes
  on_sent :: "(appl_pdu \<times> error_number) list"
  on_connection_lost :: "int list"
  on_connect :: "(bool \<times> int) list"
  idle :: bool
  connect_failed :: bool
  read_fds :: "nat set"
  write_fds :: "nat set"
  except_fds :: "nat set"
  maxfdp :: int
  address :: string
  addressv6 :: string
  port :: u16
  connect_timeout :: int
  send_timeout :: int
  connect_wait_timeout :: int
  total_connect_times :: int
  app_exiting :: bool

definition buffer_size :: nat where
  "buffer_size = 65536"

definition MAX_PDU_LEN :: int where
  "MAX_PDU_LEN = 10 * (1024 * 1024)"

definition MAX_WAIT_DURATION :: int where
  "MAX_WAIT_DURATION = 5 * 60 * 1000 * 1000"

definition MAX_BUSY_DELAY :: int where
  "MAX_BUSY_DELAY = 1000"

text \<open>
  The constructor. \<open>buf\<close> and \<open>sock\<close> are the indeterminate contents of the receive buffer and of
  \<^verbatim>\<open>socket_error_\<close>, \<open>ts\<close> the timers of the program, \<open>efds\<close> the uninitialised third descriptor set
  (\<^verbatim>\<open>FD_ZERO\<close> is applied to the first set twice).
\<close>

definition client_new ::
    "bytes \<Rightarrow> int \<Rightarrow> (nat \<Rightarrow> deadline_timer) \<Rightarrow> nat set \<Rightarrow> async_client" where
  "client_new buf sock ts efds =
     \<lparr>timers = ts, timer_queue = [], interrupts = 0, fired = [],
      impl_open = False, connected = False, rx_buffer = buf, rx_offset = 0, receiving_pdu = [],
      expected_pdu_length = -1, client_error = ERR_OK, socket_error = sock, recv_queue = [],
      send_queue = [], sending = [], wire = [], on_sent = [], on_connection_lost = [], on_connect = [],
      idle = True, connect_failed = False, read_fds = {}, write_fds = {}, except_fds = efds,
      maxfdp = 0, address = ''192.168.1.104'', addressv6 = [], port = 8001, connect_timeout = 3,
      send_timeout = 3, connect_wait_timeout = -1, total_connect_times = 0, app_exiting = False\<rparr>"

text \<open>\<^verbatim>\<open>p2p_io_ctx::reset\<close> on the client itself.\<close>

definition ctx_reset :: "async_client \<Rightarrow> async_client" where
  "ctx_reset s = s\<lparr>connected := False, receiving_pdu := [], rx_offset := 0,
     expected_pdu_length := -1, impl_open := False\<rparr>"

definition set_timeouts :: "int \<Rightarrow> int \<Rightarrow> async_client \<Rightarrow> async_client" where
  "set_timeouts timeo_connect timeo_send s =
     s\<lparr>connect_timeout := timeo_connect, send_timeout := timeo_send\<rparr>"

text \<open>Both addresses are assigned from the first argument.\<close>

definition set_endpoint :: "string \<Rightarrow> string \<Rightarrow> u16 \<Rightarrow> async_client \<Rightarrow> async_client" where
  "set_endpoint addr addrv6 p s = s\<lparr>address := addr, addressv6 := addr, port := p\<rparr>"

definition set_connect_wait_timeout :: "int \<Rightarrow> async_client \<Rightarrow> async_client" where
  "set_connect_wait_timeout seconds s = s\<lparr>connect_wait_timeout := seconds\<rparr>"

section \<open>Received messages\<close>

definition move_received_pdu :: "async_client \<Rightarrow> async_client" where
  "move_received_pdu s =
     s\<lparr>recv_queue := recv_queue s @ [receiving_pdu s], receiving_pdu := [], expected_pdu_length := -1\<rparr>"

definition get_received_pdu_count :: "async_client \<Rightarrow> nat" where
  "get_received_pdu_count s = length (recv_queue s)"

text \<open>The \<^verbatim>\<open>do ... while\<close> loop of \<^verbatim>\<open>dispatch_received_pdu\<close>: what is delivered, what stays queued.\<close>

fun dispatch_loop :: "int \<Rightarrow> bytes list \<Rightarrow> bytes list \<times> bytes list" where
  "dispatch_loop k [] = ([], [])"
| "dispatch_loop k (packet # q) =
     (if q \<noteq> [] \<and> k - 1 > 0
      then let (d, r) = dispatch_loop (k - 1) q in (packet # d, r)
      else ([packet], q))"

definition dispatch_received_pdu :: "int \<Rightarrow> async_client \<Rightarrow> bytes list \<times> async_client" where
  "dispatch_received_pdu k s =
     (if recv_queue s = [] then ([], s)
      else let (d, r) = dispatch_loop k (recv_queue s) in (d, s\<lparr>recv_queue := r\<rparr>))"

section \<open>Reading\<close>

text \<open>
  The answer of \<^verbatim>\<open>recv_i\<close>: some bytes, the end of the stream, or an error; the last two carry
  \<^verbatim>\<open>get_last_errno()\<close>. The decoder of the user says how long the PDU at the head of the data is
  (\<^term>\<open>-1\<close>: the header is not complete), or rejects it (\<^term>\<open>None\<close>).
\<close>

datatype recv_answer = Received bytes | Closed int | RecvFailed int

fun recv_n :: "recv_answer \<Rightarrow> int" where
  "recv_n (Received d) = int (length d)"
| "recv_n (Closed e) = 0"
| "recv_n (RecvFailed e) = -1"

fun recv_errno :: "recv_answer \<Rightarrow> int" where
  "recv_errno (Received d) = 0"
| "recv_errno (Closed e) = e"
| "recv_errno (RecvFailed e) = e"

fun recv_data :: "recv_answer \<Rightarrow> bytes" where
  "recv_data (Received d) = d"
| "recv_data _ = []"

type_synonym decoder = "bytes \<Rightarrow> int option"

text \<open>\<^verbatim>\<open>memmove(buffer, buffer + from, off)\<close>\<close>

definition buffer_shift :: "int \<Rightarrow> int \<Rightarrow> async_client \<Rightarrow> async_client" where
  "buffer_shift from off s =
     s\<lparr>rx_buffer := copy_at 0 (take (nat off) (drop (nat from) (rx_buffer s))) (rx_buffer s)\<rparr>"

definition read_header :: "decoder \<Rightarrow> int \<Rightarrow> async_client \<Rightarrow> bool \<times> async_client" where
  "read_header decode n s =
     (let bytes_transferred = n + rx_offset s
      in case decode (take (nat bytes_transferred) (rx_buffer s)) of
           None \<Rightarrow> (False, s\<lparr>client_error := ERR_DPL_ILLEGAL_PDU\<rparr>)
         | Some len \<Rightarrow>
             let s1 = s\<lparr>expected_pdu_length := len\<rparr>
             in if len < 0 then (True, s1\<lparr>rx_offset := rx_offset s1 + n, idle := False\<rparr>)
                else
                  let s2 = s1\<lparr>receiving_pdu := receiving_pdu s1
                        @ take (nat (min len bytes_transferred)) (rx_buffer s1)\<rparr>
                  in if bytes_transferred \<ge> len
                     then let off = bytes_transferred - len;
                              s3 = s2\<lparr>rx_offset := off\<rparr>;
                              s4 = (if off > 0 then buffer_shift len off s3 else s3)
                          in (True, (move_received_pdu s4)\<lparr>idle := False\<rparr>)
                     else (True, s2\<lparr>rx_offset := 0, idle := False\<rparr>))"

definition read_remain :: "int \<Rightarrow> async_client \<Rightarrow> bool \<times> async_client" where
  "read_remain n s =
     (let bytes_transferred = n + rx_offset s
      in if int (length (receiving_pdu s)) + bytes_transferred > MAX_PDU_LEN
         then (False, s\<lparr>client_error := ERR_PDU_TOO_LONG\<rparr>)
         else
           let bytes_needed = expected_pdu_length s - int (length (receiving_pdu s))
           in if bytes_needed > 0
              then
                let s1 = s\<lparr>receiving_pdu := receiving_pdu s
                      @ take (nat (min bytes_transferred bytes_needed)) (rx_buffer s),
                      rx_offset := bytes_transferred - bytes_needed\<rparr>
                in if rx_offset s1 \<ge> 0
                   then let s2 = (if rx_offset s1 > 0
                                  then buffer_shift bytes_needed (rx_offset s1) s1 else s1)
                        in (True, (move_received_pdu s2)\<lparr>idle := False\<rparr>)
                   else (True, s1\<lparr>rx_offset := 0, idle := False\<rparr>)
              else (True, s\<lparr>idle := False\<rparr>))"

definition do_read ::
    "(int \<Rightarrow> int \<Rightarrow> bool) \<Rightarrow> decoder \<Rightarrow> recv_answer \<Rightarrow> async_client \<Rightarrow> bool \<times> async_client" where
  "do_read should_close decode rx s =
     (if \<not> impl_open s then (False, s)
      else
        let n = recv_n rx;
            s1 = s\<lparr>rx_buffer := copy_at (nat (rx_offset s)) (recv_data rx) (rx_buffer s)\<rparr>
        in if n > 0 \<or> (n = -1 \<and> rx_offset s \<noteq> 0)
           then let n' = (if n = -1 then 0 else n)
                in if expected_pdu_length s1 = -1 then read_header decode n' s1
                   else read_remain n' s1
           else let s2 = s1\<lparr>socket_error := recv_errno rx\<rparr>
                in (\<not> should_close n (recv_errno rx), s2))"

section \<open>Writing\<close>

text \<open>
  \<^verbatim>\<open>async_send\<close> tests the socket and makes the PDU, and only then takes the mutex of the queue: the PDUs of the
  calls between the two are \<open>sending\<close>, a field the code has as their local variable. \<open>send_queued k\<close> is the
  second half of the \<open>k\<close>th of them; the interrupt after it only wakes \<^verbatim>\<open>select\<close>. A call that nothing comes
  between is both halves in a row.
\<close>

definition send_open :: "int \<Rightarrow> bytes \<Rightarrow> async_client \<Rightarrow> async_client" where
  "send_open now data s =
     (if impl_open s
      then s\<lparr>sending := sending s @ [\<lparr>pdu_data = data, pdu_offset = 0,
        pdu_expire = now + send_timeout s * 1000000000\<rparr>]\<rparr>
      else s)"

definition send_queued :: "nat \<Rightarrow> async_client \<Rightarrow> async_client" where
  "send_queued k s =
     (if k < length (sending s)
      then interrupt (s\<lparr>send_queue := send_queue s @ [sending s ! k],
        sending := take k (sending s) @ drop (Suc k) (sending s)\<rparr>)
      else s)"

definition async_send :: "int \<Rightarrow> bytes \<Rightarrow> async_client \<Rightarrow> async_client" where
  "async_send now data s =
     (if impl_open s then send_queued (length (sending s)) (send_open now data s) else s)"

lemma async_send_eq:
  "async_send now data s =
     (if impl_open s
      then interrupt (s\<lparr>send_queue := send_queue s @ [\<lparr>pdu_data = data, pdu_offset = 0,
        pdu_expire = now + send_timeout s * 1000000000\<rparr>]\<rparr>)
      else s)"
  by (simp add: async_send_def send_queued_def send_open_def)

definition pdu_expired :: "int \<Rightarrow> appl_pdu \<Rightarrow> bool" where
  "pdu_expired now v = (pdu_expire v - now < 0)"

text \<open>
  \<open>n\<close> and \<open>errno\<close> are the answers of \<^verbatim>\<open>send_i\<close> and \<^verbatim>\<open>get_last_errno\<close>; the bytes the socket took
  go to \<open>wire\<close>. A callback posted for a PDU is an entry of \<open>on_sent\<close>.
\<close>

definition do_write ::
    "(int \<Rightarrow> int \<Rightarrow> bool) \<Rightarrow> int \<Rightarrow> int \<Rightarrow> int \<Rightarrow> async_client \<Rightarrow> bool \<times> async_client" where
  "do_write should_close now n errno s =
     (if \<not> impl_open s then (False, s)
      else case send_queue s of
        [] \<Rightarrow> (True, s)
      | v # q \<Rightarrow>
          let bytes_left = length (pdu_data v) - pdu_offset v;
              s1 = s\<lparr>wire := wire s @ take (nat n) (drop (pdu_offset v) (pdu_data v))\<rparr>
          in if n = int bytes_left
             then (True, s1\<lparr>send_queue := q, on_sent := on_sent s @ [(v, ERR_OK)], idle := False\<rparr>)
             else if n > 0
             then if \<not> pdu_expired now v
                  then (True, s1\<lparr>send_queue := v\<lparr>pdu_offset := pdu_offset v + nat n\<rparr> # q, idle := False\<rparr>)
                  else (True, s1\<lparr>send_queue := q, on_sent := on_sent s @ [(v, ERR_SEND_TIMEOUT)],
                         idle := False\<rparr>)
             else let s2 = s1\<lparr>socket_error := errno\<rparr>
                  in if should_close n errno
                     then (False, s2\<lparr>send_queue := q,
                       on_sent := on_sent s @ [(v, ERR_CONNECTION_LOST)]\<rparr>)
                     else (True, s2\<lparr>idle := False\<rparr>))"

section \<open>Descriptors, errors and connections\<close>

definition socket_event_read :: nat where "socket_event_read = 1"
definition socket_event_write :: nat where "socket_event_write = 2"
definition socket_event_except :: nat where "socket_event_except = 4"

definition register_descriptor :: "nat \<Rightarrow> nat \<Rightarrow> async_client \<Rightarrow> async_client" where
  "register_descriptor fd flags s =
     (let s1 = (if flags AND socket_event_read \<noteq> 0 then s\<lparr>read_fds := insert fd (read_fds s)\<rparr> else s);
          s2 = (if flags AND socket_event_write \<noteq> 0 then s1\<lparr>write_fds := insert fd (write_fds s1)\<rparr> else s1);
          s3 = (if flags AND socket_event_except \<noteq> 0 then s2\<lparr>except_fds := insert fd (except_fds s2)\<rparr> else s2)
      in if maxfdp s3 < int fd + 1 then s3\<lparr>maxfdp := int fd + 1\<rparr> else s3)"

definition unregister_descriptor :: "nat \<Rightarrow> nat \<Rightarrow> async_client \<Rightarrow> async_client" where
  "unregister_descriptor fd flags s =
     (let s1 = (if flags AND socket_event_read \<noteq> 0 then s\<lparr>read_fds := read_fds s - {fd}\<rparr> else s);
          s2 = (if flags AND socket_event_write \<noteq> 0 then s1\<lparr>write_fds := write_fds s1 - {fd}\<rparr> else s1)
      in if flags AND socket_event_except \<noteq> 0 then s2\<lparr>except_fds := except_fds s2 - {fd}\<rparr> else s2)"

text \<open>\<open>errno\<close> is \<^verbatim>\<open>get_last_errno()\<close>, \<open>listening\<close> whether a connection-lost callback is set.\<close>

definition handle_error :: "bool \<Rightarrow> int \<Rightarrow> async_client \<Rightarrow> async_client" where
  "handle_error listening errno s =
     (let s1 = s\<lparr>socket_error := errno, impl_open := False, connected := False\<rparr>;
          s2 = (if listening then s1\<lparr>on_connection_lost := on_connection_lost s1 @ [errno]\<rparr> else s1);
          s3 = s2\<lparr>send_queue := []\<rparr>;
          s4 = cancel_all s3
      in s4\<lparr>interrupts := 0\<rparr>)"

definition client_close :: "async_client \<Rightarrow> async_client" where
  "client_close s = interrupt (s\<lparr>impl_open := False\<rparr>)"

text \<open>
  \<^verbatim>\<open>connect\<close>. \<open>flags\<close> is the answer of \<^verbatim>\<open>getipsv()\<close> with its bits for IPv4 and IPv6 local
  addresses, \<open>pconnect\<close> the answer of \<^verbatim>\<open>pconnect_n\<close> for an address, \<open>errno\<close> that of
  \<^verbatim>\<open>get_last_errno\<close>, \<open>fd\<close> and \<open>ifd\<close> the descriptors of the socket and of the interrupter.
\<close>

record ip_support =
  ipsv_ipv4 :: bool
  ipsv_ipv6 :: bool

definition connect ::
    "ip_support \<Rightarrow> (string \<Rightarrow> u16 \<Rightarrow> int \<Rightarrow> int) \<Rightarrow> int \<Rightarrow> nat \<Rightarrow> nat \<Rightarrow> bool \<Rightarrow> async_client
      \<Rightarrow> bool \<times> async_client" where
  "connect flags pconnect errno fd ifd listening s =
     (let s0 = s\<lparr>connect_failed := False, connected := False\<rparr>;
          ret = (if ipsv_ipv4 flags then pconnect (address s0) (port s0) (connect_timeout s0)
                 else if ipsv_ipv6 flags then pconnect (addressv6 s0) (port s0) (connect_timeout s0)
                 else -1)
      in if ret = 0 then
           let s1 = s0\<lparr>impl_open := True, read_fds := {}, write_fds := {}, except_fds := {}\<rparr>;
               s2 = register_descriptor ifd socket_event_read s1;
               s3 = register_descriptor fd socket_event_read s2;
               s4 = s3\<lparr>expected_pdu_length := -1, client_error := ERR_OK, rx_offset := 0,
                 receiving_pdu := [], recv_queue := [], connected := True\<rparr>
           in (True, if listening then s4\<lparr>on_connect := on_connect s4 @ [(True, 0)]\<rparr> else s4)
         else
           let s1 = s0\<lparr>connect_failed := True\<rparr>
           in (False, if listening then s1\<lparr>on_connect := on_connect s1 @ [(False, errno)]\<rparr> else s1))"

section \<open>The event loop\<close>

text \<open>
  What one pass of the loop is answered by the system: \<^verbatim>\<open>select\<close>'s result and error, whether the
  interrupter's descriptor is readable, the answers of \<^verbatim>\<open>recv_i\<close> and \<^verbatim>\<open>send_i\<close>, the clock.
\<close>

record loop_answers =
  sel_nfds :: int
  sel_bad_fd :: bool
  sel_interrupter :: bool
  ans_recv :: recv_answer
  ans_send :: int
  ans_send_errno :: int
  ans_now :: int

record loop_env =
  env_close0 :: "int \<Rightarrow> int \<Rightarrow> bool"
  env_close1 :: "int \<Rightarrow> int \<Rightarrow> bool"
  env_decode :: decoder
  env_sort :: sorter

datatype loop_result = Again async_client | Failed async_client

definition select_timeout :: "int \<Rightarrow> async_client \<Rightarrow> int \<times> int" where
  "select_timeout now s = get_wait_duration (send_queue s \<noteq> []) now
     (if rx_offset s > 0 then MAX_BUSY_DELAY else MAX_WAIT_DURATION) s"

definition loop_read :: "loop_env \<Rightarrow> loop_answers \<Rightarrow> int \<Rightarrow> async_client \<Rightarrow> bool \<times> async_client" where
  "loop_read e a nfds s =
     (if nfds > 0 \<or> rx_offset s > 0 then do_read (env_close0 e) (env_decode e) (ans_recv a) s
      else (True, s))"

definition loop_write :: "loop_env \<Rightarrow> loop_answers \<Rightarrow> async_client \<Rightarrow> bool \<times> async_client" where
  "loop_write e a s =
     (if send_queue s \<noteq> []
      then do_write (env_close1 e) (ans_now a) (ans_send a) (ans_send_errno a) s
      else (True, s))"

definition loop_pass :: "loop_env \<Rightarrow> loop_answers \<Rightarrow> async_client \<Rightarrow> loop_result" where
  "loop_pass e a s =
     (if sel_nfds a = -1 then (if sel_bad_fd a \<or> \<not> impl_open s then Failed s else Again s)
      else
        let (nfds, s1) =
              (if sel_nfds a = 0 then (0, perform_timeout_timers (env_sort e) (ans_now a) s)
               else if sel_nfds a > 0 \<and> sel_interrupter a then (sel_nfds a - 1, s\<lparr>interrupts := 0\<rparr>)
               else (sel_nfds a, s));
            (read_ok, s2) = loop_read e a nfds s1
        in if \<not> read_ok then Failed s2
           else let (write_ok, s3) = loop_write e a s2
                in if write_ok then Again s3 else Failed s3)"

text \<open>
  The worker: waiting for a connection, or in the loop. \<open>service_step\<close> relates the state before
  and after one of its steps; the users' operations come from the other threads in between.
\<close>

datatype worker = Waiting (client: async_client) | Looping (client: async_client)

inductive user_step :: "loop_env \<Rightarrow> async_client \<Rightarrow> async_client \<Rightarrow> bool" for e where
  user_send_open: "user_step e s (send_open now data s)"
| user_send_queued: "user_step e s (send_queued k s)"
| user_dispatch: "dispatch_received_pdu k s = (d, s') \<Longrightarrow> user_step e s s'"
| user_schedule: "user_step e s (schedule_timer (env_sort e) now t s)"
| user_cancel: "user_step e s (cancel_timer t s)"
| user_close: "user_step e s (client_close s)"
| user_timeouts: "user_step e s (set_timeouts timeo_connect timeo_send s)"
| user_endpoint: "user_step e s (set_endpoint addr addrv6 p s)"
| user_wait_timeout: "user_step e s (set_connect_wait_timeout seconds s)"

inductive service_step :: "loop_env \<Rightarrow> worker \<Rightarrow> worker \<Rightarrow> bool" for e where
  step_connect_failed: "connect flags pconnect errno fd ifd listening
      (s\<lparr>total_connect_times := total_connect_times s + 1\<rparr>) = (False, s')
    \<Longrightarrow> service_step e (Waiting s) (Waiting s')"
| step_connected: "connect flags pconnect errno fd ifd listening
      (s\<lparr>total_connect_times := total_connect_times s + 1\<rparr>) = (True, s')
    \<Longrightarrow> service_step e (Waiting s) (Looping s')"
| step_pass: "length (recv_data (ans_recv a)) \<le> buffer_size - nat (rx_offset s)
    \<Longrightarrow> loop_pass e a s = Again s' \<Longrightarrow> service_step e (Looping s) (Looping s')"
| step_error: "length (recv_data (ans_recv a)) \<le> buffer_size - nat (rx_offset s)
    \<Longrightarrow> loop_pass e a s = Failed s' \<Longrightarrow>
    service_step e (Looping s) (Waiting (handle_error listening errno s'))"
| step_user_waiting: "user_step e s s' \<Longrightarrow> service_step e (Waiting s) (Waiting s')"
| step_user_looping: "user_step e s s' \<Longrightarrow> service_step e (Looping s) (Looping s')"

inductive service_reachable :: "loop_env \<Rightarrow> worker \<Rightarrow> bool" for e where
  service_start: "length buf = buffer_size \<Longrightarrow>
    service_reachable e (Waiting (client_new buf sock ts efds))"
| service_run: "service_reachable e w \<Longrightarrow> service_step e w w' \<Longrightarrow> service_reachable e w'"

section \<open>Framing\<close>

text \<open>
  The specification of reading: the PDUs at the head of a byte stream, as long as the decoder
  finds complete ones, and the bytes left over.
\<close>

function frames :: "decoder \<Rightarrow> bytes \<Rightarrow> bytes list \<times> bytes" where
  "frames decode b =
     (case decode b of
        None \<Rightarrow> ([], b)
      | Some l \<Rightarrow>
          if 1 \<le> l \<and> l \<le> int (length b)
          then let (fs, r) = frames decode (drop (nat l) b) in (take (nat l) b # fs, r)
          else ([], b))"
  by auto
termination by (relation "measure (\<lambda>(d, b). length b)") auto

declare frames.simps [simp del]

text \<open>
  What a user's length decoder promises: the length it has found does not change as more bytes
  arrive, and it is positive or the mark of an incomplete header.
\<close>

locale pdu_decoder =
  fixes decode :: decoder
  assumes stable: "decode b = Some l \<Longrightarrow> 0 \<le> l \<Longrightarrow> decode (b @ c) = Some l"
    and positive: "decode b = Some l \<Longrightarrow> l = -1 \<or> 1 \<le> l"
begin

lemma frames_complete:
  assumes "decode b = Some l" and "1 \<le> l" and "nat l \<le> length b"
  shows "frames decode (b @ c)
    = (let (fs, r) = frames decode (drop (nat l) b @ c) in (take (nat l) b # fs, r))"
  using assms stable [OF assms(1), of c] by (subst frames.simps) (simp add: nat_le_iff)

end

definition rx_inv :: "decoder \<Rightarrow> async_client \<Rightarrow> bool" where
  "rx_inv decode s \<longleftrightarrow> length (rx_buffer s) = buffer_size
     \<and> 0 \<le> rx_offset s \<and> rx_offset s \<le> int buffer_size
     \<and> (expected_pdu_length s = -1 \<and> receiving_pdu s = []
        \<or> 1 \<le> expected_pdu_length s \<and> rx_offset s = 0
          \<and> int (length (receiving_pdu s)) < expected_pdu_length s
          \<and> decode (receiving_pdu s) = Some (expected_pdu_length s))"

text \<open>The bytes received and not yet handed on.\<close>

definition rx_stream :: "async_client \<Rightarrow> bytes" where
  "rx_stream s = receiving_pdu s @ take (nat (rx_offset s)) (rx_buffer s)"

text \<open>What the client has delivered and will deliver, when \<open>later\<close> still arrives.\<close>

definition deliveries :: "decoder \<Rightarrow> async_client \<Rightarrow> bytes \<Rightarrow> bytes list \<times> bytes" where
  "deliveries decode s later =
     (let (fs, r) = frames decode (rx_stream s @ later) in (recv_queue s @ fs, r))"

lemma take_copy_at:
  "off + length d \<le> length b \<Longrightarrow> take (off + length d) (copy_at off d b) = take off b @ d"
  by (simp add: copy_at_def)

lemma buffer_shift_simps [simp]:
  "rx_offset (buffer_shift from off s) = rx_offset s"
  "recv_queue (buffer_shift from off s) = recv_queue s"
  "receiving_pdu (buffer_shift from off s) = receiving_pdu s"
  "expected_pdu_length (buffer_shift from off s) = expected_pdu_length s"
  "impl_open (buffer_shift from off s) = impl_open s"
  by (simp_all add: buffer_shift_def)

lemma buffer_shift_buffer:
  assumes "0 \<le> from" and "0 \<le> off" and "nat from + nat off \<le> length (rx_buffer s)"
  shows "length (rx_buffer (buffer_shift from off s)) = length (rx_buffer s)"
    and "take (nat off) (rx_buffer (buffer_shift from off s)) = take (nat off) (drop (nat from) (rx_buffer s))"
  using assms by (simp_all add: buffer_shift_def copy_at_def)

text \<open>What both branches do when the current PDU is complete.\<close>

lemma complete_pdu:
  assumes "0 \<le> from" and "0 \<le> rx_offset s" and "nat from + nat (rx_offset s) \<le> length (rx_buffer s)"
    and "s' = (move_received_pdu (if rx_offset s > 0 then buffer_shift from (rx_offset s) s else s))
      \<lparr>idle := False\<rparr>"
  shows "recv_queue s' = recv_queue s @ [receiving_pdu s]" "receiving_pdu s' = []"
    "expected_pdu_length s' = -1" "rx_offset s' = rx_offset s" "impl_open s' = impl_open s"
    "length (rx_buffer s') = length (rx_buffer s)"
    "rx_stream s' = drop (nat from) (take (nat from + nat (rx_offset s)) (rx_buffer s))"
  using assms(1-3) buffer_shift_buffer [OF assms(1-3)]
  by (simp_all add: assms(4) move_received_pdu_def rx_stream_def take_drop add.commute)

fun reads :: "(int \<Rightarrow> int \<Rightarrow> bool) \<Rightarrow> decoder \<Rightarrow> recv_answer list \<Rightarrow> async_client \<Rightarrow> bool \<times> async_client" where
  "reads sc decode [] s = (True, s)"
| "reads sc decode (rx # rxs) s =
     (case do_read sc decode rx s of
        (True, s') \<Rightarrow> reads sc decode rxs s'
      | (False, s') \<Rightarrow> (False, s'))"

text \<open>\<^verbatim>\<open>recv_i\<close> is asked for at most the free bytes of the buffer.\<close>

fun reads_fit :: "(int \<Rightarrow> int \<Rightarrow> bool) \<Rightarrow> decoder \<Rightarrow> recv_answer list \<Rightarrow> async_client \<Rightarrow> bool" where
  "reads_fit sc decode [] s = True"
| "reads_fit sc decode (rx # rxs) s =
     (length (recv_data rx) \<le> buffer_size - nat (rx_offset s)
      \<and> (case do_read sc decode rx s of
           (True, s') \<Rightarrow> reads_fit sc decode rxs s'
         | (False, s') \<Rightarrow> True))"

context pdu_decoder
begin

lemma read_header_frames:
  assumes inv: "rx_inv decode s" and exp: "expected_pdu_length s = -1"
    and n: "0 \<le> n" "rx_offset s + n \<le> int buffer_size"
    and run: "read_header decode n s = (True, s')"
  shows "rx_inv decode s' \<and> impl_open s' = impl_open s \<and> (\<forall>later. deliveries decode s' later
    = (let (fs, r) = frames decode (take (nat (n + rx_offset s)) (rx_buffer s) @ later) in (recv_queue s @ fs, r)))"
proof -
  let ?total = "n + rx_offset s" and ?buf = "rx_buffer s"
  let ?B = "take (nat ?total) ?buf"
  have len: "length ?buf = buffer_size" "0 \<le> rx_offset s" and rec: "receiving_pdu s = []"
    using inv exp by (auto simp: rx_inv_def)
  have B: "length ?B = nat ?total" using n len by simp
  obtain l where l: "decode ?B = Some l"
    using run by (auto simp: read_header_def Let_def split: option.splits)
  consider "l = -1" | "1 \<le> l" "l \<le> ?total" | "1 \<le> l" "?total < l"
    using positive [OF l] by force
  then show ?thesis
  proof cases
    case 1
    then have s': "s' = s\<lparr>expected_pdu_length := -1, rx_offset := rx_offset s + n, idle := False\<rparr>"
      using run l by (simp add: read_header_def Let_def)
    have "rx_stream s' = ?B" using rec by (simp add: rx_stream_def s' add.commute)
    then show ?thesis
      using n len rec by (simp add: rx_inv_def deliveries_def s')
  next
    case 2
    let ?s3 = "s\<lparr>expected_pdu_length := l, receiving_pdu := take (nat l) ?buf, rx_offset := ?total - l\<rparr>"
    have s': "s' = (move_received_pdu (if rx_offset ?s3 > 0 then buffer_shift l (rx_offset ?s3) ?s3 else ?s3))
        \<lparr>idle := False\<rparr>"
      using run l rec 2 by (cases "l < ?total") (simp_all add: read_header_def Let_def)
    have off: "nat l + nat (?total - l) = nat ?total" "nat ?total \<le> length ?buf"
      using 2 n len by simp_all
    note cp = complete_pdu [OF _ _ _ s']
    have st: "rx_stream s' = drop (nat l) ?B"
      using cp(7) 2 off by simp
    have "rx_inv decode s'"
      using cp(2-6) 2 n len off by (simp add: rx_inv_def)
    moreover have "recv_queue s' = recv_queue s @ [take (nat l) ?B]"
      using cp(1) 2 off by (simp add: min_def)
    moreover have "impl_open s' = impl_open s" using cp(5) 2 off by simp
    moreover have "nat l \<le> length ?B" using 2 B by simp
    ultimately show ?thesis
      using st frames_complete [OF l 2(1)] unfolding deliveries_def
      by (simp add: Let_def split: prod.split del: take_take take_append drop_append)
  next
    case 3
    then have s': "s' = s\<lparr>expected_pdu_length := l, receiving_pdu := ?B, rx_offset := 0, idle := False\<rparr>"
      using run l rec by (simp add: read_header_def Let_def)
    show ?thesis
      using 3 len B l by (simp add: s' rx_inv_def deliveries_def rx_stream_def)
  qed
qed

lemma read_remain_frames:
  assumes inv: "rx_inv decode s" and exp: "expected_pdu_length s \<noteq> -1"
    and n: "0 \<le> n" "rx_offset s + n \<le> int buffer_size"
    and run: "read_remain n s = (True, s')"
  shows "rx_inv decode s' \<and> impl_open s' = impl_open s \<and> (\<forall>later. deliveries decode s' later
    = (let (fs, r) = frames decode (receiving_pdu s @ take (nat (n + rx_offset s)) (rx_buffer s) @ later)
       in (recv_queue s @ fs, r)))"
proof -
  let ?l = "expected_pdu_length s" and ?R = "receiving_pdu s" and ?buf = "rx_buffer s"
  let ?need = "?l - int (length ?R)" and ?D = "take (nat n) (rx_buffer s)"
  have len: "length ?buf = buffer_size" and off0: "rx_offset s = 0"
      and l: "1 \<le> ?l" "int (length ?R) < ?l" "decode ?R = Some ?l"
    using inv exp by (auto simp: rx_inv_def)
  have D: "length ?D = nat n" using n len off0 by simp
  have dec: "decode (?R @ ?D) = Some ?l" using stable [OF l(3), of ?D] l(1) by simp
  show ?thesis
  proof (cases "?need \<le> n")
    case True
    let ?s1 = "s\<lparr>receiving_pdu := ?R @ take (nat ?need) ?buf, rx_offset := n - ?need\<rparr>"
    have s': "s' = (move_received_pdu (if rx_offset ?s1 > 0 then buffer_shift ?need (rx_offset ?s1) ?s1 else ?s1))
        \<lparr>idle := False\<rparr>"
      using run off0 l True by (simp add: read_remain_def Let_def split: if_splits)
    have off: "nat ?need + nat (n - ?need) = nat n" "nat n \<le> length ?buf" "0 \<le> ?need" "0 \<le> n - ?need"
      using True n len off0 l by simp_all
    have nl: "nat ?l = length ?R + nat ?need" using l by simp
    note cp = complete_pdu [OF off(3) _ _ s']
    have "rx_stream s' = drop (nat ?need) ?D"
      using cp(7) off by simp
    then have st: "rx_stream s' = drop (nat ?l) (?R @ ?D)" by (simp add: nl)
    have "take (nat ?need) ?D = take (nat ?need) ?buf" using True by simp
    then have pdu: "?R @ take (nat ?need) ?buf = take (nat ?l) (?R @ ?D)"
      unfolding nl by (simp del: take_take)
    have "rx_inv decode s'"
      using cp(2-6) n len off off0 by (simp add: rx_inv_def)
    moreover have "recv_queue s' = recv_queue s @ [take (nat ?l) (?R @ ?D)]"
      using cp(1) off by (simp add: pdu [symmetric] del: take_append)
    moreover have "impl_open s' = impl_open s" using cp(5) off by simp
    moreover have "nat ?l \<le> length (?R @ ?D)" using off(1) D unfolding nl by simp
    ultimately show ?thesis
      using st frames_complete [OF dec l(1)] off0 unfolding deliveries_def
      by (simp add: Let_def split: prod.split del: drop_append take_append take_take)
  next
    case False
    then have s': "s' = s\<lparr>receiving_pdu := ?R @ ?D, rx_offset := 0, idle := False\<rparr>"
      using run off0 l by (simp add: read_remain_def Let_def min_def split: if_splits)
    show ?thesis
      using False len D dec l n off0
      by (simp add: s' rx_inv_def deliveries_def rx_stream_def)
  qed
qed

text \<open>
  One call of \<^verbatim>\<open>do_read\<close> that succeeds does not change what the client delivers in the end: the
  data it was answered only moves from the future into the past.
\<close>

lemma do_read_deliveries:
  assumes inv: "rx_inv decode s" and fit: "length (recv_data rx) \<le> buffer_size - nat (rx_offset s)"
    and run: "do_read sc decode rx s = (True, s')"
  shows "rx_inv decode s' \<and> impl_open s' = impl_open s
    \<and> (\<forall>later. deliveries decode s' later = deliveries decode s (recv_data rx @ later))"
proof -
  let ?d = "recv_data rx" and ?off = "nat (rx_offset s)"
  let ?s1 = "s\<lparr>rx_buffer := copy_at ?off ?d (rx_buffer s)\<rparr>"
  have len: "length (rx_buffer s) = buffer_size" "0 \<le> rx_offset s" "rx_offset s \<le> int buffer_size"
    using inv by (auto simp: rx_inv_def)
  have fit': "?off + length ?d \<le> length (rx_buffer s)" using fit len by simp
  have inv1: "rx_inv decode ?s1" using inv fit' by (simp add: rx_inv_def)
  have buf: "take (?off + length ?d) (rx_buffer ?s1) = take ?off (rx_buffer s) @ ?d"
    using fit' by (simp add: take_copy_at)
  have op: "impl_open s" using run by (cases "impl_open s") (simp_all add: do_read_def)
  show ?thesis
  proof (cases "recv_n rx > 0 \<or> (recv_n rx = -1 \<and> rx_offset s \<noteq> 0)")
    case True
    let ?n = "if recv_n rx = -1 then 0 else recv_n rx"
    have n: "?n = int (length ?d)" using True by (cases rx) auto
    have range: "0 \<le> ?n" "rx_offset ?s1 + ?n \<le> int buffer_size" using n fit len by simp_all
    have tot: "nat (?n + rx_offset ?s1) = ?off + length ?d" using n len(2) by simp
    have run': "(if expected_pdu_length ?s1 = -1 then read_header decode ?n ?s1
        else read_remain ?n ?s1) = (True, s')"
      using run op True by (simp add: do_read_def Let_def)
    show ?thesis
    proof (cases "expected_pdu_length s = -1")
      case e: True
      then have "receiving_pdu s = []" using inv by (auto simp: rx_inv_def)
      then show ?thesis
        using read_header_frames [OF inv1 _ range] run' e op unfolding tot buf
        by (simp add: deliveries_def rx_stream_def)
    next
      case e: False
      then have "rx_offset s = 0" using inv by (auto simp: rx_inv_def)
      then show ?thesis
        using read_remain_frames [OF inv1 _ range] run' e op unfolding tot buf
        by (simp add: deliveries_def rx_stream_def)
    qed
  next
    case False
    then have d: "?d = []" by (cases rx) auto
    have "copy_at ?off [] (rx_buffer s) = rx_buffer s" by (simp add: copy_at_def)
    then have "s' = s\<lparr>socket_error := recv_errno rx\<rparr>"
      using run op False d by (simp add: do_read_def Let_def split: if_splits)
    then show ?thesis
      using inv d by (simp add: rx_inv_def deliveries_def rx_stream_def)
  qed
qed

text \<open>Any number of reads.\<close>

lemma reads_deliveries:
  "rx_inv decode s \<Longrightarrow> reads_fit sc decode rxs s \<Longrightarrow> reads sc decode rxs s = (True, s') \<Longrightarrow>
    rx_inv decode s' \<and> impl_open s' = impl_open s
    \<and> (\<forall>later. deliveries decode s' later = deliveries decode s (concat (map recv_data rxs) @ later))"
proof (induction rxs arbitrary: s)
  case Nil
  then show ?case by simp
next
  case (Cons rx rxs)
  obtain ok s1 where s1: "do_read sc decode rx s = (ok, s1)" by (cases "do_read sc decode rx s")
  with Cons.prems have "ok" by (cases ok) simp_all
  with s1 Cons.prems Cons.IH [of s1] do_read_deliveries [of s rx sc s1]
  show ?case by simp
qed

text \<open>
  A read without new data, while a complete PDU waits in the buffer, delivers it: the error
  \<^verbatim>\<open>EWOULDBLOCK\<close> of the empty socket is what makes the loop drain the buffer.
\<close>

lemma poll_delivers:
  assumes inv: "rx_inv decode s" and op: "impl_open s"
    and fr: "frames decode (rx_stream s) = (f # fs, r)"
  shows "\<exists>s'. do_read sc decode (RecvFailed err) s = (True, s') \<and> rx_inv decode s' \<and> impl_open s'
    \<and> recv_queue s' = recv_queue s @ [f] \<and> frames decode (rx_stream s') = (fs, r)"
proof -
  have exp: "expected_pdu_length s = -1"
  proof (rule ccontr)
    assume "expected_pdu_length s \<noteq> -1"
    then have "decode (rx_stream s) = Some (expected_pdu_length s)"
        "int (length (rx_stream s)) < expected_pdu_length s"
      using inv by (auto simp: rx_inv_def rx_stream_def)
    then show False using fr by (subst (asm) frames.simps) simp
  qed
  then have rec: "receiving_pdu s = []" using inv by (auto simp: rx_inv_def)
  have len: "length (rx_buffer s) = buffer_size" "0 \<le> rx_offset s" "rx_offset s \<le> int buffer_size"
    using inv by (auto simp: rx_inv_def)
  obtain l where l: "decode (rx_stream s) = Some l" "1 \<le> l" "l \<le> int (length (rx_stream s))"
    and f: "f = take (nat l) (rx_stream s)"
    using fr by (subst (asm) frames.simps) (auto split: option.splits if_splits prod.splits)
  have st: "rx_stream s = take (nat (rx_offset s)) (rx_buffer s)" by (simp add: rx_stream_def rec)
  have lt: "l \<le> rx_offset s" using l(3) len by (simp add: st)
  then have off: "rx_offset s \<noteq> 0" using l(2) by simp
  have nop: "copy_at (nat (rx_offset s)) [] (rx_buffer s) = rx_buffer s" by (simp add: copy_at_def)
  have run: "do_read sc decode (RecvFailed err) s = read_header decode 0 s"
    using op exp off by (simp add: do_read_def Let_def nop)
  obtain s' where s': "read_header decode 0 s = (True, s')"
    using l st lt by (simp add: read_header_def Let_def)
  have q: "recv_queue s' = recv_queue s @ [f]"
    using s' l lt f rec
    by (auto simp: read_header_def Let_def st [symmetric] move_received_pdu_def split: if_splits)
      (simp_all add: st min_def)
  have "deliveries decode s' [] = (let (fs, r) = frames decode (rx_stream s @ []) in (recv_queue s @ fs, r))"
    and "rx_inv decode s'" "impl_open s' = impl_open s"
    using read_header_frames [OF inv exp _ _ s'] len by (simp_all add: st)
  then show ?thesis
    using run s' op q fr by (auto simp: deliveries_def split: prod.splits)
qed

lemma polls_deliver:
  "rx_inv decode s \<Longrightarrow> impl_open s \<Longrightarrow> frames decode (rx_stream s) = (fs, r) \<Longrightarrow> length errs = length fs \<Longrightarrow>
    \<exists>s'. reads sc decode (map RecvFailed errs) s = (True, s') \<and> rx_inv decode s'
      \<and> recv_queue s' = recv_queue s @ fs \<and> frames decode (rx_stream s') = ([], r)"
proof (induction fs arbitrary: s errs)
  case Nil
  then show ?case by simp
next
  case (Cons f fs)
  then obtain err errs' where e: "errs = err # errs'" "length errs' = length fs"
    by (cases errs) auto
  obtain s1 where s1: "do_read sc decode (RecvFailed err) s = (True, s1)" "rx_inv decode s1"
      "impl_open s1" "recv_queue s1 = recv_queue s @ [f]" "frames decode (rx_stream s1) = (fs, r)"
    using poll_delivers [OF Cons.prems(1-3)] by blast
  with Cons.IH [OF s1(2,3,5) e(2)] show ?case by (auto simp: e(1))
qed

lemma frames_of_messages:
  "\<forall>m \<in> set ms. m \<noteq> [] \<and> decode m = Some (int (length m)) \<Longrightarrow>
    frames decode (concat ms) = (ms, [])"
proof (induction ms)
  case Nil
  show ?case by (subst frames.simps) (auto split: option.split)
next
  case (Cons m ms)
  then have "1 \<le> int (length m)" by (cases m) auto
  with Cons frames_complete [of m "int (length m)" "concat ms"] show ?case by simp
qed

end

end
