(* ===== verification/ClientService.thy ===== *)
theory ClientService
  imports AsyncClient
begin

text \<open>
  What the model of \<open>AsyncClient\<close> guarantees: messages come out as they were framed, PDUs go out in
  order, and an invariant of every reachable state of the service thread and its users.
\<close>

section \<open>The messages of the binary streams as PDUs\<close>

text \<open>
  The format \<^verbatim>\<open>obinarystream::set_length\<close> writes, the total size in the first two bytes, read
  by a length decoder.
\<close>

definition length_prefix :: decoder where
  "length_prefix b =
     (if length b < 2 then Some (-1)
      else let l = unat (ntohs (le_word (take 2 b))) in if l = 0 then None else Some (int l))"

interpretation prefixed: pdu_decoder length_prefix
proof
  fix b l c assume "length_prefix b = Some l" "0 \<le> l"
  then show "length_prefix (b @ c) = Some l"
    by (auto simp: length_prefix_def Let_def split: if_splits)
next
  fix b l assume "length_prefix b = Some l"
  then show "l = -1 \<or> 1 \<le> l"
    by (auto simp: length_prefix_def Let_def split: if_splits simp del: of_nat_unat)
qed

lemma set_length_prefix:
  assumes "set_length os = Returns os'" and "length (os_buffer os) < 2 ^ 16"
  shows "length_prefix (os_buffer os') = Some (int (length (os_buffer os')))
    \<and> length (os_buffer os') = length (os_buffer os)"
proof -
  let ?n = "word_of_nat (length (os_buffer os)) :: u16"
  have len: "2 \<le> length (os_buffer os)"
    using assms(1) set_length_short [of os] by force
  then have b: "os_buffer os' = rev (le_bytes 2 ?n) @ drop 2 (os_buffer os)"
    using assms(1) by (auto simp: set_length_buffer)
  have "rev (le_bytes 2 ?n) = le_bytes 2 (htons ?n)" by (simp add: le_bytes_htons)
  then have "unat (ntohs (le_word (rev (le_bytes 2 ?n)))) = length (os_buffer os)"
    using assms(2) by (simp add: ntohs_def codec_simps unat_of_nat)
  then show ?thesis using len by (auto simp: length_prefix_def b)
qed

section \<open>Sending\<close>

definition unsent :: "async_client \<Rightarrow> bytes" where
  "unsent s = concat (map (\<lambda>v. drop (pdu_offset v) (pdu_data v)) (send_queue s))"

definition offsets_ok :: "async_client \<Rightarrow> bool" where
  "offsets_ok s \<longleftrightarrow> (\<forall>v \<in> set (send_queue s). pdu_offset v \<le> length (pdu_data v))"

text \<open>What \<^verbatim>\<open>send_i\<close> may answer: an error, or at most the bytes it was given.\<close>

definition send_fits :: "int \<Rightarrow> async_client \<Rightarrow> bool" where
  "send_fits n s = (case send_queue s of [] \<Rightarrow> True
     | v # q \<Rightarrow> -1 \<le> n \<and> n \<le> int (length (pdu_data v) - pdu_offset v))"

datatype tx_op = Send int bytes | Write int int int

fun tx_step :: "(int \<Rightarrow> int \<Rightarrow> bool) \<Rightarrow> tx_op \<Rightarrow> async_client \<Rightarrow> bool \<times> async_client" where
  "tx_step sc (Send now d) s = (True, async_send now d s)"
| "tx_step sc (Write now n errno) s = do_write sc now n errno s"

fun tx_fits :: "tx_op \<Rightarrow> async_client \<Rightarrow> bool" where
  "tx_fits (Send now d) s = True"
| "tx_fits (Write now n errno) s = send_fits n s"

fun tx_run :: "(int \<Rightarrow> int \<Rightarrow> bool) \<Rightarrow> tx_op list \<Rightarrow> async_client \<Rightarrow> async_client option" where
  "tx_run sc [] s = Some s"
| "tx_run sc (x # xs) s =
     (if tx_fits x s then (case tx_step sc x s of (True, s') \<Rightarrow> tx_run sc xs s' | (False, s') \<Rightarrow> None)
      else None)"

fun tx_data :: "tx_op list \<Rightarrow> bytes list" where
  "tx_data [] = []"
| "tx_data (Send now d # xs) = d # tx_data xs"
| "tx_data (Write now n errno # xs) = tx_data xs"

lemma take_nat_drop:
  "take (nat n) (drop k d) @ drop (k + nat n) d = drop k d"
  "take (nat n) (drop k d) @ drop (k + nat n) d @ r = drop k d @ r"
proof -
  show *: "take (nat n) (drop k d) @ drop (k + nat n) d = drop k d"
    by (metis add.commute append_take_drop_id drop_drop)
  show "take (nat n) (drop k d) @ drop (k + nat n) d @ r = drop k d @ r"
    unfolding append_assoc [symmetric] * by (rule refl)
qed

lemma do_write_keeps:
  assumes "impl_open s" and "offsets_ok s" and "send_fits n s" and "do_write sc now n errno s = (True, s')"
  shows "impl_open s' \<and> offsets_ok s'"
  using assms
  by (auto simp: do_write_def Let_def offsets_ok_def send_fits_def split: list.splits if_splits)

lemma do_write_stream:
  assumes op: "impl_open s" and ok: "offsets_ok s" and fit: "send_fits n s"
    and run: "do_write sc now n errno s = (True, s')"
    and good: "\<forall>(v, e) \<in> set (on_sent s'). e = ERR_OK"
  shows "impl_open s' \<and> offsets_ok s' \<and> wire s' @ unsent s' = wire s @ unsent s
    \<and> map (pdu_data \<circ> fst) (on_sent s') @ map pdu_data (send_queue s')
      = map (pdu_data \<circ> fst) (on_sent s) @ map pdu_data (send_queue s)
    \<and> (\<forall>(v, e) \<in> set (on_sent s). e = ERR_OK)"
proof (cases "send_queue s")
  case Nil
  then have "s' = s" using run op by (simp add: do_write_def)
  then show ?thesis using assms by simp
next
  case (Cons v q)
  let ?left = "length (pdu_data v) - pdu_offset v"
  have v: "pdu_offset v \<le> length (pdu_data v)" using ok Cons by (simp add: offsets_ok_def)
  have n: "-1 \<le> n" "n \<le> int ?left" using fit Cons by (simp_all add: send_fits_def)
  show ?thesis
  proof (cases "n = int ?left")
    case True
    then have "s' = s\<lparr>wire := wire s @ drop (pdu_offset v) (pdu_data v), send_queue := q,
        on_sent := on_sent s @ [(v, ERR_OK)], idle := False\<rparr>"
      using run op Cons by (simp add: do_write_def Let_def)
    then show ?thesis using op ok Cons good by (simp add: unsent_def offsets_ok_def)
  next
    case False
    show ?thesis
    proof (cases "n > 0")
      case True
      then have "\<not> pdu_expired now v" using run op Cons False good
        by (auto simp: do_write_def Let_def split: if_splits)
      then have "s' = s\<lparr>wire := wire s @ take (nat n) (drop (pdu_offset v) (pdu_data v)),
          send_queue := v\<lparr>pdu_offset := pdu_offset v + nat n\<rparr> # q, idle := False\<rparr>"
        using run op Cons False True by (simp add: do_write_def Let_def)
      then show ?thesis
        using op ok Cons good n v by (auto simp: unsent_def offsets_ok_def take_nat_drop)
    next
      case neg: False
      then have "s' = s\<lparr>socket_error := errno, idle := False\<rparr>"
        using run op Cons False by (auto simp: do_write_def Let_def split: if_splits)
      then show ?thesis using op ok Cons good by (simp add: unsent_def offsets_ok_def)
    qed
  qed
qed

lemma async_send_stream:
  "impl_open s \<Longrightarrow> offsets_ok s \<Longrightarrow>
    impl_open (async_send now d s) \<and> offsets_ok (async_send now d s)
    \<and> wire (async_send now d s) = wire s \<and> unsent (async_send now d s) = unsent s @ d
    \<and> on_sent (async_send now d s) = on_sent s
    \<and> map pdu_data (send_queue (async_send now d s)) = map pdu_data (send_queue s) @ [d]"
  by (simp add: async_send_eq interrupt_def unsent_def offsets_ok_def)

lemma tx_run_stream:
  "impl_open s \<Longrightarrow> offsets_ok s \<Longrightarrow> tx_run sc xs s = Some s' \<Longrightarrow>
    \<forall>(v, e) \<in> set (on_sent s'). e = ERR_OK \<Longrightarrow>
    wire s' @ unsent s' = wire s @ unsent s @ concat (tx_data xs)
    \<and> map (pdu_data \<circ> fst) (on_sent s') @ map pdu_data (send_queue s')
      = map (pdu_data \<circ> fst) (on_sent s) @ map pdu_data (send_queue s) @ tx_data xs
    \<and> (\<forall>(v, e) \<in> set (on_sent s). e = ERR_OK)"
proof (induction xs arbitrary: s)
  case Nil
  then show ?case by simp
next
  case (Cons x xs)
  show ?case
  proof (cases x)
    case (Send now d)
    with Cons.prems Cons.IH [of "async_send now d s"] async_send_stream [of s now d]
    show ?thesis by auto
  next
    case (Write now n errno)
    obtain s1 where s1: "do_write sc now n errno s = (True, s1)" "send_fits n s" "tx_run sc xs s1 = Some s'"
      using Cons.prems(3) by (auto simp: Write split: if_splits prod.splits bool.splits)
    then have "impl_open s1" "offsets_ok s1" using do_write_keeps Cons.prems(1,2) by blast+
    with Cons.IH [of s1] s1 Cons.prems(4) do_write_stream [OF Cons.prems(1,2) s1(2,1)]
    show ?thesis by (simp add: Write comp_def)
  qed
qed
section \<open>Invariant of the service\<close>

definition rx_bounds :: "async_client \<Rightarrow> bool" where
  "rx_bounds s \<longleftrightarrow> length (rx_buffer s) = buffer_size \<and> 0 \<le> rx_offset s \<and> rx_offset s \<le> int buffer_size"

text \<open>PDUs of which no byte has been taken: none of them is cut.\<close>

definition uncut :: "appl_pdu list \<Rightarrow> bool" where
  "uncut q \<longleftrightarrow> (\<forall>v \<in> set q. pdu_offset v = 0)"

lemma uncut_simps [simp]:
  "uncut []" "uncut (v # q) \<longleftrightarrow> pdu_offset v = 0 \<and> uncut q" "uncut (q @ q') \<longleftrightarrow> uncut q \<and> uncut q'"
  by (auto simp: uncut_def)

lemma uncut_part: "uncut q \<Longrightarrow> set q' \<subseteq> set q \<Longrightarrow> uncut q'"
  by (auto simp: uncut_def)

lemma uncut_tl: "uncut q \<Longrightarrow> uncut (tl q)"
  by (cases q) auto

fun service_inv :: "decoder \<Rightarrow> worker \<Rightarrow> bool" where
  "service_inv decode (Waiting s) \<longleftrightarrow> \<not> impl_open s \<and> \<not> connected s \<and> uncut (send_queue s) \<and> uncut (sending s)
     \<and> rx_bounds s \<and> distinct (timer_queue s)"
| "service_inv decode (Looping s) \<longleftrightarrow> connected s \<and> uncut (tl (send_queue s)) \<and> uncut (sending s)
     \<and> rx_inv decode s \<and> rx_bounds s \<and> distinct (timer_queue s)"

lemma rx_inv_bounds: "rx_inv decode s \<Longrightarrow> rx_bounds s"
  by (simp add: rx_inv_def rx_bounds_def)

text \<open>The fields an operation does not touch.\<close>

definition same_rx :: "async_client \<Rightarrow> async_client \<Rightarrow> bool" where
  "same_rx s s' \<longleftrightarrow> rx_buffer s' = rx_buffer s \<and> rx_offset s' = rx_offset s
     \<and> receiving_pdu s' = receiving_pdu s \<and> expected_pdu_length s' = expected_pdu_length s
     \<and> connected s' = connected s"

lemma same_rx_inv: "same_rx s s' \<Longrightarrow> rx_inv decode s' = rx_inv decode s \<and> rx_bounds s' = rx_bounds s"
  by (auto simp: same_rx_def rx_inv_def rx_bounds_def)

lemma fire_expired_keeps:
  "fire_expired now ts s lt = (rest, s', lt') \<Longrightarrow>
    async_client.more s' = async_client.more s \<and> timer_queue s' = timer_queue s
    \<and> same_rx s s' \<and> impl_open s' = impl_open s \<and> send_queue s' = send_queue s \<and> sending s' = sending s
    \<and> (distinct ts \<longrightarrow> distinct rest) \<and> set rest \<subseteq> set ts"
proof (induction now ts s lt rule: fire_expired.induct)
  case (2 now t ts s lt)
  then show ?case
    by (auto simp: Let_def same_rx_def split: if_splits)
qed (auto simp: same_rx_def)

lemma timers_keep:
  "same_rx s (schedule_timer srt now t s)" "same_rx s (cancel_timer t s)"
  "same_rx s (perform_timeout_timers srt now s)"
  "impl_open (schedule_timer srt now t s) = impl_open s" "impl_open (cancel_timer t s) = impl_open s"
  "impl_open (perform_timeout_timers srt now s) = impl_open s"
  "send_queue (schedule_timer srt now t s) = send_queue s" "send_queue (cancel_timer t s) = send_queue s"
  "send_queue (perform_timeout_timers srt now s) = send_queue s"
  "sending (schedule_timer srt now t s) = sending s" "sending (cancel_timer t s) = sending s"
  "sending (perform_timeout_timers srt now s) = sending s"
proof -
  show "same_rx s (schedule_timer srt now t s)" "same_rx s (cancel_timer t s)"
    "impl_open (schedule_timer srt now t s) = impl_open s" "impl_open (cancel_timer t s) = impl_open s"
    "send_queue (schedule_timer srt now t s) = send_queue s" "send_queue (cancel_timer t s) = send_queue s"
    "sending (schedule_timer srt now t s) = sending s" "sending (cancel_timer t s) = sending s"
    by (simp_all add: same_rx_def schedule_timer_def cancel_timer_def interrupt_def Let_def)
  obtain rest s1 lt where "fire_expired now (rev (timer_queue s)) s [] = (rest, s1, lt)"
    by (cases "fire_expired now (rev (timer_queue s)) s []") auto
  then show "same_rx s (perform_timeout_timers srt now s)"
    "impl_open (perform_timeout_timers srt now s) = impl_open s"
    "send_queue (perform_timeout_timers srt now s) = send_queue s"
    "sending (perform_timeout_timers srt now s) = sending s"
    using fire_expired_keeps [of now "rev (timer_queue s)" s "[]" rest s1 lt]
    by (auto simp: perform_timeout_timers_def same_rx_def Let_def)
qed

lemma perform_distinct:
  assumes "sorts_descending srt" and "distinct (timer_queue s)"
  shows "distinct (timer_queue (perform_timeout_timers srt now s))"
proof -
  let ?q = "rev (timer_queue s)"
  let ?es = "takeWhile (\<lambda>t. expired now (timers s t)) ?q"
  let ?rest = "dropWhile (\<lambda>t. expired now (timers s t)) ?q"
  have "distinct (?es @ ?rest)" using assms(2) by simp
  then have "distinct (rev ?rest @ filter P ?es)" for P
    by (auto simp del: takeWhile_dropWhile_id)
  then show ?thesis
    using fire_expired_eq [of ?q now s "[]"] assms
    by (auto simp: perform_timeout_timers_def Let_def sorts_distinct [OF assms(1)])
qed

text \<open>\<open>tx_frame\<close>: what a read leaves alone.\<close>

definition tx_frame :: "async_client \<Rightarrow> async_client \<Rightarrow> bool" where
  "tx_frame s s' \<longleftrightarrow> connected s' = connected s \<and> timer_queue s' = timer_queue s
    \<and> send_queue s' = send_queue s \<and> sending s' = sending s \<and> on_sent s' = on_sent s \<and> wire s' = wire s"

lemma read_header_frame: "read_header decode n s = (ok, s') \<Longrightarrow> tx_frame s s'"
  by (auto simp: read_header_def Let_def move_received_pdu_def buffer_shift_def tx_frame_def
      split: option.splits if_splits)

lemma read_remain_frame: "read_remain n s = (ok, s') \<Longrightarrow> tx_frame s s'"
  by (auto simp: read_remain_def Let_def move_received_pdu_def buffer_shift_def tx_frame_def
      split: if_splits)

lemma read_failed_bounds:
  "read_header decode n s = (False, s') \<Longrightarrow> rx_bounds s' = rx_bounds s"
  "read_remain n s = (False, s') \<Longrightarrow> rx_bounds s' = rx_bounds s"
  by (auto simp: read_header_def read_remain_def Let_def rx_bounds_def split: option.splits if_splits)

lemma do_read_frame:
  assumes "do_read sc decode rx s = (ok, s')"
  shows "tx_frame s s'"
proof (cases "impl_open s")
  case True
  let ?s1 = "s\<lparr>rx_buffer := copy_at (nat (rx_offset s)) (recv_data rx) (rx_buffer s)\<rparr>"
  have "tx_frame ?s1 s'"
    using assms True read_header_frame [of decode _ ?s1 ok s'] read_remain_frame [of _ ?s1 ok s']
    by (auto simp: do_read_def Let_def tx_frame_def split: if_splits)
  then show ?thesis by (simp add: tx_frame_def)
qed (use assms in \<open>simp add: do_read_def tx_frame_def\<close>)

lemma do_read_failed_bounds:
  assumes "rx_bounds s" and "length (recv_data rx) \<le> buffer_size - nat (rx_offset s)"
    and "do_read sc decode rx s = (False, s')"
  shows "rx_bounds s'"
proof (cases "impl_open s")
  case True
  let ?s1 = "s\<lparr>rx_buffer := copy_at (nat (rx_offset s)) (recv_data rx) (rx_buffer s)\<rparr>"
  have "nat (rx_offset s) + length (recv_data rx) \<le> length (rx_buffer s)"
    using assms(1,2) unfolding rx_bounds_def by linarith
  then have "rx_bounds ?s1" using assms(1) by (simp add: rx_bounds_def)
  moreover have "rx_bounds (?s1\<lparr>socket_error := x\<rparr>) = rx_bounds ?s1" for x
    by (simp add: rx_bounds_def)
  ultimately show ?thesis
    using assms(3) True read_failed_bounds(1) [of _ _ ?s1 s'] read_failed_bounds(2) [of _ ?s1 s']
    by (auto simp: do_read_def Let_def split: if_splits)
qed (use assms in \<open>simp add: do_read_def\<close>)

lemma do_write_keeps_rx: "do_write sc now n errno s = (ok, s') \<Longrightarrow> same_rx s s' \<and> timer_queue s' = timer_queue s"
  by (auto simp: do_write_def Let_def same_rx_def split: list.splits if_splits)

lemma do_write_uncut:
  assumes "do_write sc now n errno s = (ok, s')" and "uncut (tl (send_queue s))"
  shows "uncut (tl (send_queue s')) \<and> sending s' = sending s"
  using assms by (auto simp: do_write_def Let_def uncut_tl split: list.splits if_splits)

text \<open>One pass of the loop, with the answers the system may give.\<close>

lemma loop_pass_inv:
  assumes dec: "pdu_decoder (env_decode e)" and srt: "sorts_descending (env_sort e)"
    and inv: "service_inv (env_decode e) (Looping s)"
    and fit: "length (recv_data (ans_recv a)) \<le> buffer_size - nat (rx_offset s)"
  shows "loop_pass e a s = Again s' \<Longrightarrow> service_inv (env_decode e) (Looping s')"
    and "loop_pass e a s = Failed s' \<Longrightarrow> rx_bounds s' \<and> uncut (sending s')"
proof -
  have good: "loop_pass e a s = Again s' \<Longrightarrow> service_inv (env_decode e) (Looping s')"
    and bad: "loop_pass e a s = Failed s' \<Longrightarrow> rx_bounds s' \<and> uncut (sending s')" if "sel_nfds a \<noteq> -1"
  proof -
    define s1 where "s1 = (if sel_nfds a = 0 then perform_timeout_timers (env_sort e) (ans_now a) s
        else if sel_nfds a > 0 \<and> sel_interrupter a then s\<lparr>interrupts := 0\<rparr> else s)"
    define k where "k = (if sel_nfds a = 0 then 0
        else if sel_nfds a > 0 \<and> sel_interrupter a then sel_nfds a - 1 else sel_nfds a)"
    have s1: "same_rx s s1" "distinct (timer_queue s1)"
      using inv perform_distinct [OF srt] timers_keep(3) by (auto simp: s1_def same_rx_def)
    then have inv1: "rx_inv (env_decode e) s1" "rx_bounds s1" "connected s1" "rx_offset s1 = rx_offset s"
      using inv same_rx_inv [OF s1(1)] by (auto simp: same_rx_def)
    have tx1: "uncut (tl (send_queue s1))" "uncut (sending s1)"
      using inv by (auto simp: s1_def timers_keep)
    obtain ok s2 where r: "loop_read e a k s1 = (ok, s2)" by (cases "loop_read e a k s1")
    have pass: "loop_pass e a s = (if \<not> ok then Failed s2 else let (write_ok, s3) = loop_write e a s2
        in if write_ok then Again s3 else Failed s3)"
      using that r by (auto simp: loop_pass_def s1_def k_def Let_def)
    have fr: "tx_frame s1 s2"
      using r do_read_frame [of _ _ _ s1 ok s2] by (auto simp: loop_read_def tx_frame_def split: if_splits)
    have r_ok: "rx_inv (env_decode e) s2" if ok
      using r that inv1 pdu_decoder.do_read_deliveries [OF dec inv1(1), of "ans_recv a" _ s2] fit
      by (auto simp: loop_read_def split: if_splits)
    have r_bad: "rx_bounds s2" if "\<not> ok"
      using r that inv1 fit do_read_failed_bounds [OF inv1(2), of "ans_recv a" _ _ s2]
      by (auto simp: loop_read_def split: if_splits)
    obtain wok s3 where w: "loop_write e a s2 = (wok, s3)" by (cases "loop_write e a s2")
    have w3: "same_rx s2 s3 \<and> timer_queue s3 = timer_queue s2"
      using w do_write_keeps_rx [of _ _ _ _ s2 wok s3]
      by (auto simp: loop_write_def same_rx_def split: if_splits)
    have tx3: "uncut (tl (send_queue s3))" "uncut (sending s3)" "uncut (sending s2)"
      using w do_write_uncut [of _ _ _ _ s2 wok s3] tx1 fr
      by (auto simp: loop_write_def tx_frame_def split: if_splits)
    show "loop_pass e a s = Again s' \<Longrightarrow> service_inv (env_decode e) (Looping s')"
      using pass w w3 tx3 r_ok fr s1(2) inv1(3) same_rx_inv [of s2 s3 "env_decode e"] rx_inv_bounds
      by (auto simp: tx_frame_def same_rx_def split: if_splits)
    show "loop_pass e a s = Failed s' \<Longrightarrow> rx_bounds s' \<and> uncut (sending s')"
      using pass w w3 tx3 r_ok r_bad same_rx_inv [of s2 s3 "env_decode e"] rx_inv_bounds
      by (cases ok) (auto split: if_splits)
  qed
  then show "loop_pass e a s = Again s' \<Longrightarrow> service_inv (env_decode e) (Looping s')"
    and "loop_pass e a s = Failed s' \<Longrightarrow> rx_bounds s' \<and> uncut (sending s')"
    using inv by (cases "sel_nfds a = -1"; auto simp: loop_pass_def split: if_splits)+
qed
lemma register_descriptor_read:
  "register_descriptor fd socket_event_read s =
    s\<lparr>read_fds := insert fd (read_fds s), maxfdp := max (maxfdp s) (int fd + 1)\<rparr>"
  by (simp add: register_descriptor_def socket_event_read_def socket_event_write_def
      socket_event_except_def Let_def max_def)

lemma connect_inv:
  assumes "service_inv decode (Waiting s)"
  shows "connect flags pc errno fd ifd li s = (True, s') \<Longrightarrow> service_inv decode (Looping s')"
    and "connect flags pc errno fd ifd li s = (False, s') \<Longrightarrow> service_inv decode (Waiting s')"
  using assms
  by (auto simp: connect_def Let_def register_descriptor_read rx_inv_def rx_bounds_def uncut_tl split: if_splits)

text \<open>What a user's operation does to the queued PDUs: it appends one that is not cut, or nothing.\<close>

lemma user_step_queue:
  assumes "user_step e s s'" and "uncut (sending s)"
  shows "uncut (sending s') \<and> (\<exists>q. send_queue s' = send_queue s @ q \<and> uncut q)"
  using assms(1)
proof cases
  case (user_send_queued k)
  have "uncut [sending s ! k]" if "k < length (sending s)" using assms(2) that by (simp add: uncut_def)
  moreover have "uncut (take k (sending s) @ drop (Suc k) (sending s))"
    by (rule uncut_part[OF assms(2)]) (auto dest: in_set_takeD in_set_dropD)
  ultimately show ?thesis using assms(2) by (auto simp: user_send_queued send_queued_def interrupt_def)
next
  case (user_dispatch k d)
  then show ?thesis using assms(2) by (auto simp: dispatch_received_pdu_def split: if_splits prod.splits)
qed (use assms(2) in \<open>auto simp: send_open_def interrupt_def client_close_def timers_keep set_timeouts_def set_endpoint_def
      set_connect_wait_timeout_def\<close>)

lemma uncut_grown: "uncut (tl xs) \<Longrightarrow> uncut q \<Longrightarrow> uncut (tl (xs @ q))"
  by (cases xs) (auto simp: uncut_tl)

lemma user_step_inv:
  assumes srt: "sorts_descending (env_sort e)" and "user_step e s s'"
  shows "service_inv decode (Waiting s) \<Longrightarrow> service_inv decode (Waiting s')"
    and "service_inv decode (Looping s) \<Longrightarrow> service_inv decode (Looping s')"
proof -
  have rx: "same_rx s s' \<and> (impl_open s' \<longrightarrow> impl_open s)"
    using assms(2)
  proof cases
    case (user_dispatch k d)
    then show ?thesis
      by (auto simp: dispatch_received_pdu_def same_rx_def split: if_splits prod.splits)
  next
    case (user_schedule now t)
    then show ?thesis by (simp add: timers_keep)
  next
    case (user_cancel t)
    then show ?thesis by (simp add: timers_keep)
  qed (auto simp: send_open_def send_queued_def interrupt_def client_close_def same_rx_def set_timeouts_def set_endpoint_def
      set_connect_wait_timeout_def)
  have "distinct (timer_queue s')" if "distinct (timer_queue s)"
    using assms(2)
  proof cases
    case (user_dispatch k d)
    then show ?thesis
      using that by (auto simp: dispatch_received_pdu_def split: if_splits prod.splits)
  qed (use that in \<open>auto simp: send_open_def send_queued_def interrupt_def client_close_def schedule_timer_def
      cancel_timer_def Let_def sorts_distinct [OF srt] set_timeouts_def set_endpoint_def set_connect_wait_timeout_def\<close>)
  then show "service_inv decode (Waiting s) \<Longrightarrow> service_inv decode (Waiting s')"
    and "service_inv decode (Looping s) \<Longrightarrow> service_inv decode (Looping s')"
    using rx same_rx_inv [of s s' decode] user_step_queue [OF assms(2)] uncut_grown by (auto simp: same_rx_def)
qed

lemma service_step_inv:
  assumes "pdu_decoder (env_decode e)" and "sorts_descending (env_sort e)"
    and "service_step e w w'" and "service_inv (env_decode e) w"
  shows "service_inv (env_decode e) w'"
  using assms(3,4)
proof (induction rule: service_step.cases)
  case (step_connect_failed fl pc errno fd ifd li s s')
  then show ?case
    using connect_inv(2) [of "env_decode e" "s\<lparr>total_connect_times := total_connect_times s + 1\<rparr>"]
    by (auto simp: rx_bounds_def)
next
  case (step_connected fl pc errno fd ifd li s s')
  then show ?case
    using connect_inv(1) [of "env_decode e" "s\<lparr>total_connect_times := total_connect_times s + 1\<rparr>"]
    by (auto simp: rx_bounds_def)
next
  case (step_pass a s s')
  then show ?case using loop_pass_inv(1) [OF assms(1,2)] by blast
next
  case (step_error a s s' li errno)
  then have "rx_bounds s'" "uncut (sending s')" using loop_pass_inv(2) [OF assms(1,2)] by blast+
  then show ?case
    using step_error by (simp add: handle_error_def cancel_all_def rx_bounds_def Let_def)
next
  case (step_user_waiting s s')
  then show ?case using user_step_inv(1) [OF assms(2)] by blast
next
  case (step_user_looping s s')
  then show ?case using user_step_inv(2) [OF assms(2)] by blast
qed
lemma service_reachable_inv:
  assumes "service_reachable e w" "pdu_decoder (env_decode e)" "sorts_descending (env_sort e)"
  shows "service_inv (env_decode e) w"
  using assms(1)
proof (induction rule: service_reachable.induct)
  case (service_start buf sock ts efds)
  then show ?case by (simp add: client_new_def rx_bounds_def)
next
  case (service_run w w')
  then show ?case using service_step_inv [OF assms(2,3)] by blast
qed

section \<open>Properties\<close>

lemma connected_state:
  assumes "connect flags pc errno fd ifd li s0 = (True, s)" and "length (rx_buffer s0) = buffer_size"
  shows "rx_inv decode s \<and> impl_open s \<and> connected s \<and> recv_queue s = [] \<and> rx_stream s = []"
  using assms
  by (auto simp: connect_def Let_def register_descriptor_read rx_inv_def rx_stream_def split: if_splits)

text \<open>
  C3. After a connect, whatever pieces the stream of whole messages \<open>ms\<close> arrives in, the calls of
  \<^verbatim>\<open>do_read\<close> that receive them followed by as many reads of the empty socket as there are messages
  still in the buffer queue exactly the messages, in order.
\<close>

theorem framed_messages_delivered:
  assumes dec: "pdu_decoder decode"
    and conn: "connect flags pc errno fd ifd li s0 = (True, s)" "length (rx_buffer s0) = buffer_size"
    and ms: "\<forall>m \<in> set ms. m \<noteq> [] \<and> decode m = Some (int (length m))"
    and fit: "reads_fit sc decode rxs s" and run: "reads sc decode rxs s = (True, s1)"
    and data: "concat (map recv_data rxs) = concat ms"
    and polls: "length errs = length ms - length (recv_queue s1)"
  shows "\<exists>s2. reads sc decode (map RecvFailed errs) s1 = (True, s2) \<and> recv_queue s2 = ms"
proof -
  have s: "rx_inv decode s" "impl_open s" "recv_queue s = []" "rx_stream s = []"
    using connected_state [OF conn] by auto
  obtain fs r where fr: "frames decode (rx_stream s1) = (fs, r)" by (cases "frames decode (rx_stream s1)")
  have s1: "rx_inv decode s1" "impl_open s1"
      "deliveries decode s1 [] = deliveries decode s (concat (map recv_data rxs))"
    using pdu_decoder.reads_deliveries [OF dec s(1) fit run] s(2) by auto
  then have q: "recv_queue s1 @ fs = ms"
    using s fr pdu_decoder.frames_of_messages [OF dec ms] by (simp add: deliveries_def data)
  then have "length errs = length fs" using polls by auto
  then show ?thesis
    using pdu_decoder.polls_deliver [OF dec s1(1,2) fr] q by blast
qed

definition example_client :: async_client where
  "example_client = snd (connect \<lparr>ipsv_ipv4 = True, ipsv_ipv6 = False\<rparr> (\<lambda>a p t. 0) 0 5 6 False
     (client_new (replicate buffer_size 0) 0 (\<lambda>_. \<lparr>dt_loop = False, dt_duration = 0, dt_expire = 0\<rparr>) {}))"

lemma example_connect:
  "connect \<lparr>ipsv_ipv4 = True, ipsv_ipv6 = False\<rparr> (\<lambda>a p t. 0) 0 5 6 False
     (client_new (replicate buffer_size 0) 0 (\<lambda>_. \<lparr>dt_loop = False, dt_duration = 0, dt_expire = 0\<rparr>) {})
   = (True, example_client)"
  by (simp add: example_client_def connect_def Let_def)

lemma example_state:
  "impl_open example_client" "expected_pdu_length example_client = -1" "rx_offset example_client = 0"
  "receiving_pdu example_client = []" "recv_queue example_client = []" "send_queue example_client = []"
  "on_sent example_client = []" "wire example_client = []"
  "rx_buffer example_client = replicate 65536 0" "timer_queue example_client = []"
  by (simp_all add: example_client_def connect_def Let_def register_descriptor_read client_new_def buffer_size_def)

theorem framed_messages_delivered_witness:
  "\<exists>s2. reads (\<lambda>n e. False) length_prefix [Received [0], Received [3, 7, 0, 4, 8, 9],
      RecvFailed 11] example_client = (True, s2) \<and> recv_queue s2 = [[0, 3, 7], [0, 4, 8, 9]]"
proof -
  let ?rxs = "[Received [0], Received [3, 7, 0, 4, 8, 9]]"
  let ?run = "reads (\<lambda>n e. False) length_prefix ?rxs example_client"
  have dec: "length_prefix [0] = Some (-1)" "length_prefix [0, 3, 7, 0, 4, 8, 9] = Some 3"
      "length_prefix [0, 4, 8, 9] = Some 4" "length_prefix [0, 3, 7] = Some 3"
    by code_simp+
  have "fst ?run \<and> reads_fit (\<lambda>n e. False) length_prefix ?rxs example_client
      \<and> recv_queue (snd ?run) = [[0, 3, 7]]"
    by (simp add: do_read_def read_header_def Let_def copy_at_def example_state dec
        move_received_pdu_def buffer_shift_def buffer_size_def)
  then obtain s1 where s1: "?run = (True, s1)" "recv_queue s1 = [[0, 3, 7]]"
      "reads_fit (\<lambda>n e. False) length_prefix ?rxs example_client"
    by (cases ?run) auto
  then obtain s2 where "reads (\<lambda>n e. False) length_prefix (map RecvFailed [11]) s1 = (True, s2)"
      "recv_queue s2 = [[0, 3, 7], [0, 4, 8, 9]]"
    using framed_messages_delivered [OF prefixed.pdu_decoder_axioms example_connect, of
        "[[0, 3, 7], [0, 4, 8, 9]]" "\<lambda>n e. False" ?rxs s1 "[11]"] dec
    by (auto simp: client_new_def)
  then show ?thesis using s1(1) by (auto split: prod.splits bool.splits)
qed

text \<open>
  C4. While no callback reports an error, the bytes the socket has taken followed by those still
  queued are the PDUs of all \<^verbatim>\<open>async_send\<close> calls in order, however the socket cuts them, and the
  PDUs reported as sent are the first ones.
\<close>

theorem sends_reach_wire_in_order:
  assumes "impl_open s" and "send_queue s = []" and "on_sent s = []"
    and "tx_run sc xs s = Some s'" and "\<forall>(v, e) \<in> set (on_sent s'). e = ERR_OK"
  shows "wire s' @ unsent s' = wire s @ concat (tx_data xs)
    \<and> map (\<lambda>p. pdu_data (fst p)) (on_sent s') @ map pdu_data (send_queue s') = tx_data xs"
  using tx_run_stream [OF assms(1) _ assms(4,5)] assms(2,3)
  by (simp add: offsets_ok_def unsent_def comp_def)

theorem sends_reach_wire_in_order_witness:
  "\<exists>s'. tx_run (\<lambda>n e. False) [Send 0 [1, 2, 3], Write 0 2 0, Send 0 [4], Write 0 1 0] example_client = Some s'
    \<and> wire s' @ unsent s' = [1, 2, 3, 4] \<and> wire s' = [1, 2, 3]"
proof -
  let ?xs = "[Send 0 [1, 2, 3], Write 0 2 0, Send 0 [4], Write 0 1 0]"
  have st: "send_timeout example_client = 3"
    by (simp add: example_client_def connect_def Let_def register_descriptor_read client_new_def)
  obtain s' where s': "tx_run (\<lambda>n e. False) ?xs example_client = Some s'" "wire s' = [1, 2, 3]"
      "\<forall>(v, e) \<in> set (on_sent s'). e = ERR_OK"
    by (simp add: do_write_def send_fits_def async_send_eq interrupt_def pdu_expired_def
        example_state st Let_def)
  then show ?thesis
    using sends_reach_wire_in_order [OF example_state(1,6,7) s'(1,3)] by (simp add: example_state)
qed

text \<open>
  C39. A PDU that has expired when only its first \<open>n\<close> bytes were taken is dropped and the connection
  stays open: the next PDU follows on the wire in the middle of the dropped one.
\<close>

theorem send_timeout_truncates_stream:
  assumes "impl_open s" and "send_queue s = v # w # q" and "pdu_expired now v"
    and "0 < n" and "n < int (length (pdu_data v) - pdu_offset v)"
  shows "\<exists>s1 s2. do_write sc now n e s = (True, s1)
    \<and> do_write sc now' (int (length (pdu_data w) - pdu_offset w)) e' s1 = (True, s2)
    \<and> impl_open s2 \<and> send_queue s2 = q
    \<and> wire s2 = wire s @ take (nat n) (drop (pdu_offset v) (pdu_data v)) @ drop (pdu_offset w) (pdu_data w)"
proof -
  let ?s1 = "s\<lparr>wire := wire s @ take (nat n) (drop (pdu_offset v) (pdu_data v)), send_queue := w # q,
      on_sent := on_sent s @ [(v, ERR_SEND_TIMEOUT)], idle := False\<rparr>"
  have "n \<noteq> int (length (pdu_data v) - pdu_offset v)" using assms(5) by simp
  then have "do_write sc now n e s = (True, ?s1)"
    using assms(1-4) by (simp add: do_write_def Let_def del: of_nat_diff)
  moreover have "\<exists>s2. do_write sc now' (int (length (pdu_data w) - pdu_offset w)) e' ?s1 = (True, s2)
      \<and> impl_open s2 \<and> send_queue s2 = q \<and> wire s2 = wire ?s1 @ drop (pdu_offset w) (pdu_data w)"
    using assms(1) by (simp add: do_write_def Let_def)
  ultimately show ?thesis by auto
qed

theorem send_timeout_truncates_stream_witness:
  "\<exists>s1 s2. do_write (\<lambda>n e. False) 4000000000 1 0 (async_send 0 [9, 9] (async_send 0 [1, 2, 3] example_client)) = (True, s1)
    \<and> do_write (\<lambda>n e. False) 5 2 0 s1 = (True, s2) \<and> wire s2 = [1, 9, 9]"
proof -
  let ?s = "async_send 0 [9, 9] (async_send 0 [1, 2, 3] example_client)"
  have st: "send_timeout example_client = 3"
    by (simp add: example_client_def connect_def Let_def register_descriptor_read client_new_def)
  have q: "impl_open ?s" "wire ?s = []"
      "send_queue ?s = \<lparr>pdu_data = [1, 2, 3], pdu_offset = 0, pdu_expire = 3000000000\<rparr>
        # \<lparr>pdu_data = [9, 9], pdu_offset = 0, pdu_expire = 3000000000\<rparr> # []"
    by (simp_all add: async_send_eq interrupt_def example_state st)
  show ?thesis
    using send_timeout_truncates_stream [OF q(1,3), of 4000000000 1 "\<lambda>n e. False" 0 5 0] q(2)
    by (auto simp: pdu_expired_def)
qed

text \<open>
  C15. In every state the service thread and its users can reach, with the calls of \<^verbatim>\<open>async_send\<close> cut between
  their test of the socket and their push, a waiting worker has a closed socket and no connection, and
  no byte of a PDU it may still have queued has been sent; a worker in its loop is connected, only the first
  queued PDU may be cut, and its receive state is consistent: the buffer keeps its size and the offset its
  bounds, an expected length belongs to the header received, and a PDU under construction is incomplete.
\<close>

theorem service_invariant:
  assumes "service_reachable e w" and "pdu_decoder (env_decode e)" and "sorts_descending (env_sort e)"
  shows "service_inv (env_decode e) w"
  using assms by (rule service_reachable_inv)

definition example_env :: loop_env where
  "example_env = \<lparr>env_close0 = (\<lambda>n e. n = 0), env_close1 = (\<lambda>n e. n = 0), env_decode = length_prefix,
     env_sort = stable_descending\<rparr>"

lemma example_reachable:
  "service_reachable e (Looping (example_client\<lparr>total_connect_times := 1\<rparr>))"
proof (rule service_run)
  let ?c = "client_new (replicate buffer_size 0) 0 (\<lambda>_. \<lparr>dt_loop = False, dt_duration = 0, dt_expire = 0\<rparr>) {}"
  show "service_reachable e (Waiting ?c)"
    by (rule service_start) simp
  show "service_step e (Waiting ?c) (Looping (example_client\<lparr>total_connect_times := 1\<rparr>))"
    by (rule step_connected [of "\<lparr>ipsv_ipv4 = True, ipsv_ipv6 = False\<rparr>" "\<lambda>a p t. 0" 0 5 6 False])
      (simp add: example_client_def connect_def Let_def register_descriptor_read client_new_def)
qed

theorem service_invariant_witness:
  "service_inv length_prefix (Looping (example_client\<lparr>total_connect_times := 1\<rparr>))"
  using service_invariant [OF example_reachable [of example_env]] prefixed.pdu_decoder_axioms stable_descending_sorts
  by (simp add: example_env_def)



text \<open>
  \<^verbatim>\<open>handle_error\<close> closes the connection, reports the loss once, cancels every queued timer once
  and drops the send queue without running any of its callbacks.
\<close>

theorem handle_error_effect:
  "\<not> impl_open (handle_error listening errno s) \<and> \<not> connected (handle_error listening errno s)
    \<and> on_connection_lost (handle_error listening errno s)
        = on_connection_lost s @ (if listening then [errno] else [])
    \<and> fired (handle_error listening errno s) = fired s @ map (\<lambda>t. (t, True)) (timer_queue s)
    \<and> timer_queue (handle_error listening errno s) = []
    \<and> send_queue (handle_error listening errno s) = []
    \<and> on_sent (handle_error listening errno s) = on_sent s"
  by (simp add: handle_error_def cancel_all_def Let_def)

text \<open>
  A device with IPv6 only is connected to the first address given to \<^verbatim>\<open>set_endpoint\<close>: the IPv6
  address it was given is never used.
\<close>

theorem ipv6_address_ignored:
  assumes "\<not> ipsv_ipv4 flags"
  shows "connect flags pc errno fd ifd li (set_endpoint a a6 p s)
    = connect flags pc errno fd ifd li (set_endpoint a a6' p s)
    \<and> (ipsv_ipv6 flags \<longrightarrow> fst (connect flags pc errno fd ifd li (set_endpoint a a6 p s))
      = (pc a p (connect_timeout s) = 0))"
  by (simp add: set_endpoint_def connect_def Let_def assms)

theorem ipv6_address_ignored_witness:
  "fst (connect \<lparr>ipsv_ipv4 = False, ipsv_ipv6 = True\<rparr> (\<lambda>a p t. if a = ''1.2.3.4'' then 0 else -1) 0 5 6 False
     (set_endpoint ''1.2.3.4'' ''::1'' 80 example_client))"
  using ipv6_address_ignored [of "\<lparr>ipsv_ipv4 = False, ipsv_ipv6 = True\<rparr>"
    "\<lambda>a p t. if a = ''1.2.3.4'' then 0 else -1" 0 5 6 False "''1.2.3.4''" "''::1''" 80 example_client]
  by simp

text \<open>
  \<^verbatim>\<open>dispatch_received_pdu(count)\<close> hands over the first \<open>max 1 count\<close> queued PDUs, in order, and
  keeps the rest.
\<close>

theorem dispatch_delivers_prefix:
  "dispatch_received_pdu k s = (take (nat (max 1 k)) (recv_queue s),
     s\<lparr>recv_queue := drop (nat (max 1 k)) (recv_queue s)\<rparr>)"
proof -
  have "q \<noteq> [] \<Longrightarrow> dispatch_loop k q = (take (nat (max 1 k)) q, drop (nat (max 1 k)) q)" for q
  proof (induction k q rule: dispatch_loop.induct)
    case (2 k p q)
    show ?case
    proof (cases "q \<noteq> [] \<and> k - 1 > 0")
      case True
      then have "nat (max 1 k) = Suc (nat (max 1 (k - 1)))"
        by (simp add: Suc_nat_eq_nat_zadd1)
      then show ?thesis using 2 True by simp
    next
      case False
      then show ?thesis by (cases "q = []") (auto simp: max_def le_Suc_eq)
    qed
  qed simp
  then show ?thesis by (auto simp: dispatch_received_pdu_def)
qed

end
