(* ===== verification/Base64.thy ===== *)
theory Base64
  imports GPS_Prelude
begin

text \<open>
  The base 64 codec of \<^verbatim>\<open>xxsocket/src/libb64.h\<close> and \<^verbatim>\<open>libb64.cpp\<close>: the encoder and the decoder are
  coroutines whose state survives between blocks. A \<^verbatim>\<open>char\<close> is a signed byte. The decoder's output is a
  memory \<open>nat \<Rightarrow> 8 word\<close> relative to \<^verbatim>\<open>plaintext_out\<close>, because the source keeps the unfinished byte in it,
  one place behind the bytes it counts. \<open>beyond\<close> is the byte behind the decoding table, which
  \<^verbatim>\<open>base64_decode_value\<close> reads for the character after \<^verbatim>\<open>z\<close>.
\<close>

unbundle bit_operations_syntax

section \<open>The encoder\<close>

datatype base64_encodestep = step_A | step_B | step_C

record base64_encodestate =
  enc_step :: base64_encodestep
  enc_result :: "8 word"
  stepcount :: int

definition base64_init_encodestate :: base64_encodestate where
  "base64_init_encodestate = \<lparr>enc_step = step_A, enc_result = 0, stepcount = 0\<rparr>"

definition CHARS_PER_LINE :: int where
  "CHARS_PER_LINE = 0x7fffffff"

definition encoding :: "8 word list" where
  "encoding = map (\<lambda>c. of_nat (of_char c))
     ''ABCDEFGHIJKLMNOPQRSTUVWXYZabcdefghijklmnopqrstuvwxyz0123456789+/''"

definition pad :: "8 word" where "pad = 61"

definition base64_encode_value :: "8 word \<Rightarrow> 8 word" where
  "base64_encode_value v = (if sint v > 63 then pad else encoding ! nat (sint v))"

text \<open>One pass through a case of the switch: the characters written and the state behind it.\<close>

definition encode_char :: "8 word \<Rightarrow> base64_encodestate \<Rightarrow> 8 word list \<times> base64_encodestate" where
  "encode_char fragment s =
     (case enc_step s of
        step_A \<Rightarrow>
          ([base64_encode_value (drop_bit 2 (fragment AND 0xfc))],
           s\<lparr>enc_step := step_B, enc_result := push_bit 4 (fragment AND 0x03)\<rparr>)
      | step_B \<Rightarrow>
          ([base64_encode_value (enc_result s OR drop_bit 4 (fragment AND 0xf0))],
           s\<lparr>enc_step := step_C, enc_result := push_bit 2 (fragment AND 0x0f)\<rparr>)
      | step_C \<Rightarrow>
          (let n = stepcount s + 1;
               full = (n = CHARS_PER_LINE div 4)
           in ([base64_encode_value (enc_result s OR drop_bit 6 (fragment AND 0xc0)),
                base64_encode_value (fragment AND 0x3f)] @ (if full then [10] else []),
               s\<lparr>enc_step := step_A, enc_result := fragment AND 0x3f, stepcount := (if full then 0 else n)\<rparr>)))"

fun base64_encode_block :: "8 word list \<Rightarrow> base64_encodestate \<Rightarrow> 8 word list \<times> base64_encodestate" where
  "base64_encode_block [] s = ([], s)"
| "base64_encode_block (c # cs) s =
     (let (xs, s1) = encode_char c s; (ys, s2) = base64_encode_block cs s1 in (xs @ ys, s2))"

definition base64_encode_blockend :: "base64_encodestate \<Rightarrow> 8 word list" where
  "base64_encode_blockend s =
     (case enc_step s of
        step_B \<Rightarrow> [base64_encode_value (enc_result s), pad, pad]
      | step_C \<Rightarrow> [base64_encode_value (enc_result s), pad]
      | step_A \<Rightarrow> [])"

section \<open>The decoder\<close>

datatype base64_decodestep = step_a | step_b | step_c | step_d

record base64_decodestate =
  dec_step :: base64_decodestep
  dec_plainchar :: "8 word"

definition base64_init_decodestate :: base64_decodestate where
  "base64_init_decodestate = \<lparr>dec_step = step_a, dec_plainchar = 0\<rparr>"

definition decoding :: "int list" where
  "decoding = [62, -1, -1, -1, 63, 52, 53, 54, 55, 56, 57, 58, 59, 60, 61, -1, -1, -1, -2, -1, -1, -1,
     0, 1, 2, 3, 4, 5, 6, 7, 8, 9, 10, 11, 12, 13, 14, 15, 16, 17, 18, 19, 20, 21, 22, 23, 24, 25,
     -1, -1, -1, -1, -1, -1, 26, 27, 28, 29, 30, 31, 32, 33, 34, 35, 36, 37, 38, 39, 40, 41, 42, 43,
     44, 45, 46, 47, 48, 49, 50, 51]"

definition base64_decode_value :: "int \<Rightarrow> 8 word \<Rightarrow> int" where
  "base64_decode_value beyond c =
     (let v = sint (c - 43)
      in if v < 0 \<or> v > int (length decoding) then -1
         else if nat v = length decoding then beyond else decoding ! nat v)"

text \<open>The loop from one of its four entries: the step, the memory and the output position.\<close>

fun decode_loop :: "int \<Rightarrow> 8 word list \<Rightarrow> base64_decodestep \<Rightarrow> (nat \<Rightarrow> 8 word) \<Rightarrow> nat
    \<Rightarrow> base64_decodestep \<times> (nat \<Rightarrow> 8 word) \<times> nat" where
  "decode_loop beyond [] st m p = (st, m, p)"
| "decode_loop beyond (c # cs) st m p =
     (let v = base64_decode_value beyond c; fragment = (word_of_int v :: 8 word)
      in if v < 0 then decode_loop beyond cs st m p
         else case st of
           step_a \<Rightarrow> decode_loop beyond cs step_b (m(p := push_bit 2 (fragment AND 0x3f))) p
         | step_b \<Rightarrow> decode_loop beyond cs step_c
             (m(p := m p OR drop_bit 4 (fragment AND 0x30), Suc p := push_bit 4 (fragment AND 0x0f))) (Suc p)
         | step_c \<Rightarrow> decode_loop beyond cs step_d
             (m(p := m p OR drop_bit 2 (fragment AND 0x3c), Suc p := push_bit 6 (fragment AND 0x03))) (Suc p)
         | step_d \<Rightarrow> decode_loop beyond cs step_a (m(p := m p OR (fragment AND 0x3f))) (Suc p))"

definition base64_decode_block :: "int \<Rightarrow> 8 word list \<Rightarrow> (nat \<Rightarrow> 8 word) \<Rightarrow> base64_decodestate
    \<Rightarrow> nat \<times> (nat \<Rightarrow> 8 word) \<times> base64_decodestate" where
  "base64_decode_block beyond code out s =
     (let (st, m, p) = decode_loop beyond code (dec_step s) (out(0 := dec_plainchar s)) 0
      in (p, m, \<lparr>dec_step = st, dec_plainchar = m p\<rparr>))"

section \<open>The decoder on lists\<close>

text \<open>What the decoder emits, without the memory: the bytes completed from a step and its unfinished byte.\<close>

fun decoded :: "int \<Rightarrow> base64_decodestep \<Rightarrow> 8 word \<Rightarrow> 8 word list \<Rightarrow> 8 word list" where
  "decoded beyond st cur [] = []"
| "decoded beyond st cur (c # cs) =
     (let v = base64_decode_value beyond c; fragment = (word_of_int v :: 8 word)
      in if v < 0 then decoded beyond st cur cs
         else case st of
           step_a \<Rightarrow> decoded beyond step_b (push_bit 2 (fragment AND 0x3f)) cs
         | step_b \<Rightarrow> (cur OR drop_bit 4 (fragment AND 0x30)) # decoded beyond step_c (push_bit 4 (fragment AND 0x0f)) cs
         | step_c \<Rightarrow> (cur OR drop_bit 2 (fragment AND 0x3c)) # decoded beyond step_d (push_bit 6 (fragment AND 0x03)) cs
         | step_d \<Rightarrow> (cur OR (fragment AND 0x3f)) # decoded beyond step_a 0 cs)"

text \<open>At a quad boundary the unfinished byte is whatever the memory held; nothing depends on it.\<close>

lemma decoded_step_a: "decoded b step_a x cs = decoded b step_a y cs"
  by (induction cs) (simp_all add: Let_def)

text \<open>The memory below the start is kept, the bytes counted are the decoder's, and at most one place
  behind them is written.\<close>

definition loop_ok :: "int \<Rightarrow> 8 word list \<Rightarrow> base64_decodestep \<Rightarrow> (nat \<Rightarrow> 8 word) \<Rightarrow> nat \<Rightarrow> bool" where
  "loop_ok b cs st m p \<longleftrightarrow> (case decode_loop b cs st m p of (st', m', p') \<Rightarrow>
     p \<le> p' \<and> (\<forall>i<p. m' i = m i) \<and> (\<forall>i>p'. m' i = m i) \<and> map m' [p..<p'] = decoded b st (m p) cs
     \<and> (\<forall>ds. decoded b st (m p) (cs @ ds) = decoded b st (m p) cs @ decoded b st' (m' p') ds))"

lemma loop_ok_emit:
  assumes "loop_ok b cs sn (m(p := x, Suc p := y)) (Suc p)"
    and "decode_loop b (c # cs) st m p = decode_loop b cs sn (m(p := x, Suc p := y)) (Suc p)"
    and "\<And>ds. decoded b st (m p) (c # ds) = x # decoded b sn y ds"
  shows "loop_ok b (c # cs) st m p"
proof -
  obtain st' m' p' where d: "decode_loop b cs sn (m(p := x, Suc p := y)) (Suc p) = (st', m', p')"
    by (cases "decode_loop b cs sn (m(p := x, Suc p := y)) (Suc p)") auto
  have h: "Suc p \<le> p'" "\<forall>i<Suc p. m' i = (m(p := x, Suc p := y)) i" "\<forall>i>p'. m' i = (m(p := x, Suc p := y)) i"
      "map m' [Suc p..<p'] = decoded b sn y cs"
      "\<forall>ds. decoded b sn y (cs @ ds) = decoded b sn y cs @ decoded b st' (m' p') ds"
    using assms(1) d by (simp_all add: loop_ok_def)
  have "m' p = x" using h(2) by simp
  moreover have "[p..<p'] = p # [Suc p..<p']" using h(1) by (simp add: upt_conv_Cons)
  ultimately have "map m' [p..<p'] = x # decoded b sn y cs" using h(4) by simp
  moreover have "\<forall>i<p. m' i = m i" using h(2) by simp
  moreover have "\<forall>i>p'. m' i = m i" using h(1,3) by simp
  ultimately show ?thesis
    using h(1,5) assms(3) by (simp add: loop_ok_def assms(2) d del: decode_loop.simps decoded.simps)
qed

lemma loop_ok_keep:
  assumes "loop_ok b cs sn (m(p := y)) p"
    and "decode_loop b (c # cs) st m p = decode_loop b cs sn (m(p := y)) p"
    and "\<And>ds. decoded b st (m p) (c # ds) = decoded b sn y ds"
  shows "loop_ok b (c # cs) st m p"
proof -
  obtain st' m' p' where d: "decode_loop b cs sn (m(p := y)) p = (st', m', p')"
    by (cases "decode_loop b cs sn (m(p := y)) p") auto
  have h: "p \<le> p'" "\<forall>i<p. m' i = (m(p := y)) i" "\<forall>i>p'. m' i = (m(p := y)) i"
      "map m' [p..<p'] = decoded b sn y cs"
      "\<forall>ds. decoded b sn y (cs @ ds) = decoded b sn y cs @ decoded b st' (m' p') ds"
    using assms(1) d by (simp_all add: loop_ok_def)
  have "\<forall>i<p. m' i = m i" using h(2) by simp
  moreover have "\<forall>i>p'. m' i = m i" using h(1,3) by simp
  ultimately show ?thesis
    using h(1,4,5) assms(3) by (simp add: loop_ok_def assms(2) d del: decode_loop.simps decoded.simps)
qed

lemma loop_ok_all: "loop_ok b cs st m p"
proof (induction cs arbitrary: st m p)
  case Nil
  then show ?case by (simp add: loop_ok_def)
next
  case (Cons c cs st m p)
  let ?v = "base64_decode_value b c"
  let ?f = "word_of_int ?v :: 8 word"
  show ?case
  proof (cases "?v < 0")
    case True
    then show ?thesis using Cons.IH [of st m p] by (simp add: loop_ok_def)
  next
    case pos: False
    show ?thesis
    proof (cases st)
      case step_a
      show ?thesis
        by (rule loop_ok_keep [where sn = step_b and y = "push_bit 2 (?f AND 0x3f)"])
          (rule Cons.IH, use step_a pos in \<open>simp_all only: decode_loop.simps decoded.simps Let_def if_False base64_decodestep.case\<close>)
    next
      case step_b
      show ?thesis
        by (rule loop_ok_emit [where sn = step_c
              and x = "m p OR drop_bit 4 (?f AND 0x30)" and y = "push_bit 4 (?f AND 0x0f)"])
          (rule Cons.IH, use step_b pos in \<open>simp_all only: decode_loop.simps decoded.simps Let_def if_False base64_decodestep.case\<close>)
    next
      case step_c
      show ?thesis
        by (rule loop_ok_emit [where sn = step_d
              and x = "m p OR drop_bit 2 (?f AND 0x3c)" and y = "push_bit 6 (?f AND 0x03)"])
          (rule Cons.IH, use step_c pos in \<open>simp_all only: decode_loop.simps decoded.simps Let_def if_False base64_decodestep.case\<close>)
    next
      case step_d
      let ?x = "m p OR (?f AND 0x3f)"
      have m: "m(p := ?x) = m(p := ?x, Suc p := m (Suc p))" by auto
      show ?thesis
      proof (rule loop_ok_emit [where sn = step_a and x = ?x and y = "m (Suc p)"])
        show "loop_ok b cs step_a (m(p := ?x, Suc p := m (Suc p))) (Suc p)" by (rule Cons.IH)
        show "decode_loop b (c # cs) st m p = decode_loop b cs step_a (m(p := ?x, Suc p := m (Suc p))) (Suc p)"
          using step_d pos by (simp only: m [symmetric] decode_loop.simps Let_def if_False base64_decodestep.case)
        show "decoded b st (m p) (c # ds) = ?x # decoded b step_a (m (Suc p)) ds" for ds
          using step_d pos decoded_step_a [of b "m (Suc p)" ds 0]
          by (simp only: decoded.simps Let_def if_False base64_decodestep.case)
      qed
    qed
  qed
qed

section \<open>Six bits\<close>

lemma encoding_ranges:
  "encoding = map (\<lambda>k. word_of_nat (43 + k)) ([22..<48] @ [54..<80] @ [5..<15] @ [0, 4])"
  by (simp add: encoding_def upt_rec)

lemma decoding_ranges:
  "decoding = [62, -1, -1, -1, 63] @ map int [52..<62] @ [-1, -1, -1, -2, -1, -1, -1] @ map int [0..<26]
     @ replicate 6 (-1) @ map int [26..<52]"
  by (simp add: decoding_def upt_rec eval_nat_numeral(2-))

lemma sint_small: "k < 128 \<Longrightarrow> sint (word_of_nat k :: 8 word) = int k"
  by (simp add: signed_of_nat signed_take_bit_int_eq_self_iff)

lemma length_decoding: "length decoding = 80"
  by (simp add: decoding_def)

lemma decode_value_nat: "k < 80 \<Longrightarrow> base64_decode_value b (word_of_nat (43 + k)) = decoding ! k"
  using sint_small [of k] by (simp add: base64_decode_value_def Let_def length_decoding)

lemma encode_value_nat:
  assumes "n < 64"
  shows "\<exists>k < 80. base64_encode_value (word_of_nat n) = word_of_nat (43 + k) \<and> decoding ! k = int n"
proof -
  have e: "base64_encode_value (word_of_nat n) = encoding ! n"
    using assms sint_small [of n] by (simp add: base64_encode_value_def)
  consider "n < 26" | "26 \<le> n" "n < 52" | "52 \<le> n" "n < 62" | "n = 62" | "n = 63"
    using assms by linarith
  then show ?thesis
  proof cases
    case 1
    then show ?thesis unfolding e
      by (intro exI [of _ "22 + n"]) (simp add: encoding_ranges decoding_ranges nth_append del: upt_rec_numeral upt.simps)
  next
    case 2
    then obtain i where "n = 26 + i" "i < 26" using le_Suc_ex by fastforce
    then show ?thesis unfolding e
      by (intro exI [of _ "54 + i"]) (simp add: encoding_ranges decoding_ranges nth_append del: upt_rec_numeral upt.simps)
  next
    case 3
    then obtain i where "n = 52 + i" "i < 10" using le_Suc_ex by fastforce
    then show ?thesis unfolding e
      by (intro exI [of _ "5 + i"]) (simp add: encoding_ranges decoding_ranges nth_append del: upt_rec_numeral upt.simps)
  next
    case 4
    then show ?thesis unfolding e
      by (intro exI [of _ 0]) (simp add: encoding_ranges decoding_ranges nth_append del: upt_rec_numeral upt.simps)
  next
    case 5
    then show ?thesis unfolding e
      by (intro exI [of _ 4]) (simp add: encoding_ranges decoding_ranges nth_append del: upt_rec_numeral upt.simps)
  qed
qed

lemma decode_encode_value:
  assumes "unat v < 64"
  shows "base64_decode_value b (base64_encode_value v) = uint v"
  using encode_value_nat [OF assms] decode_value_nat [of _ b] by auto

lemma decode_skips: "base64_decode_value b pad < 0" "base64_decode_value b 10 < 0"
  by (simp_all add: base64_decode_value_def pad_def Let_def decoding_def)

text \<open>Bytes are compared bit by bit.\<close>

lemma byte_eqI:
  fixes v w :: "8 word"
  assumes "bit v 0 = bit w 0" "bit v (Suc 0) = bit w (Suc 0)" "bit v (Suc (Suc 0)) = bit w (Suc (Suc 0))"
    "bit v (Suc (Suc (Suc 0))) = bit w (Suc (Suc (Suc 0)))" "bit v 4 = bit w 4" "bit v 5 = bit w 5"
    "bit v 6 = bit w 6" "bit v 7 = bit w 7"
  shows "v = w"
proof (rule bit_word_eqI)
  fix n assume "n < LENGTH(8)"
  then have "n = 0 \<or> n = Suc 0 \<or> n = Suc (Suc 0) \<or> n = Suc (Suc (Suc 0)) \<or> n = 4 \<or> n = 5 \<or> n = 6 \<or> n = 7" by auto
  then show "bit v n = bit w n" using assms by auto
qed

lemma bit_2_3: "bit (x :: 8 word) (Suc (Suc 0)) = bit x 2" "bit x (Suc (Suc (Suc 0))) = bit x 3"
  by (simp_all add: numeral_2_eq_2 numeral_3_eq_3)

lemma six_bits: "(v :: 8 word) AND 0x3f = v \<Longrightarrow> unat v < 64"
proof -
  assume "v AND 0x3f = v"
  then have "v \<le> 0x3f" by (metis word_and_le1)
  then show "unat v < 64" by (simp add: word_le_nat_alt)
qed

lemma encoded_parts:
  fixes x y :: "8 word"
  shows "unat (drop_bit 2 (x AND 0xfc)) < 64" "unat (push_bit 4 (x AND 0x03)) < 64"
    "unat (push_bit 4 (x AND 0x03) OR drop_bit 4 (y AND 0xf0)) < 64" "unat (push_bit 2 (x AND 0x0f)) < 64"
    "unat (push_bit 2 (x AND 0x0f) OR drop_bit 6 (y AND 0xc0)) < 64" "unat (x AND 0x3f) < 64"
  by (rule six_bits, rule byte_eqI; simp add: bit_simps bit_2_3)+

lemma joined_parts:
  fixes x y :: "8 word"
  shows "push_bit 2 (drop_bit 2 (x AND 0xfc) AND 0x3f) = x AND 0xfc"
    "x AND 0xfc OR drop_bit 4 ((push_bit 4 (x AND 0x03) OR drop_bit 4 (y AND 0xf0)) AND 0x30) = x"
    "push_bit 4 ((push_bit 4 (x AND 0x03) OR drop_bit 4 (y AND 0xf0)) AND 0x0f) = y AND 0xf0"
    "x AND 0xfc OR drop_bit 4 (push_bit 4 (x AND 0x03) AND 0x30) = x"
    "x AND 0xf0 OR drop_bit 2 ((push_bit 2 (x AND 0x0f) OR drop_bit 6 (y AND 0xc0)) AND 0x3c) = x"
    "push_bit 6 ((push_bit 2 (x AND 0x0f) OR drop_bit 6 (y AND 0xc0)) AND 0x03) = y AND 0xc0"
    "x AND 0xf0 OR drop_bit 2 (push_bit 2 (x AND 0x0f) AND 0x3c) = x"
    "x AND 0xc0 OR ((x AND 0x3f) AND 0x3f) = x"
  by (rule byte_eqI; simp add: bit_simps bit_2_3)+

section \<open>Decoding what was encoded\<close>

text \<open>The byte the encoder has begun is the one the decoder has begun.\<close>

lemma decoded_encoded_value:
  assumes "unat v < 64"
  shows "decoded b st cur (base64_encode_value v # cs) =
    (case st of
       step_a \<Rightarrow> decoded b step_b (push_bit 2 (v AND 0x3f)) cs
     | step_b \<Rightarrow> (cur OR drop_bit 4 (v AND 0x30)) # decoded b step_c (push_bit 4 (v AND 0x0f)) cs
     | step_c \<Rightarrow> (cur OR drop_bit 2 (v AND 0x3c)) # decoded b step_d (push_bit 6 (v AND 0x03)) cs
     | step_d \<Rightarrow> (cur OR (v AND 0x3f)) # decoded b step_a 0 cs)"
  using assms by (simp only: decoded.simps Let_def decode_encode_value word_of_int_uint)
    (simp add: uint_nat [symmetric] not_less split: base64_decodestep.split)

lemma decoded_skip: "decoded b st cur (pad # cs) = decoded b st cur cs" "decoded b st cur (10 # cs) = decoded b st cur cs"
  using decode_skips [of b] by (simp_all add: Let_def)

fun encode_blocks :: "8 word list list \<Rightarrow> base64_encodestate \<Rightarrow> 8 word list" where
  "encode_blocks [] s = base64_encode_blockend s"
| "encode_blocks (b # bs) s =
     (let (code, s') = base64_encode_block b s in code @ encode_blocks bs s')"

lemma decoded_blockend:
  "decoded b step_a cur (base64_encode_blockend \<lparr>enc_step = step_A, enc_result = r, stepcount = n\<rparr>) = []"
  "decoded b step_b (x AND 0xfc) (base64_encode_blockend
     \<lparr>enc_step = step_B, enc_result = push_bit 4 (x AND 0x03), stepcount = n\<rparr>) = [x]"
  "decoded b step_c (x AND 0xf0) (base64_encode_blockend
     \<lparr>enc_step = step_C, enc_result = push_bit 2 (x AND 0x0f), stepcount = n\<rparr>) = [x]"
  by (simp_all only: base64_encode_blockend_def base64_encodestate.simps base64_encodestep.case
      decoded_encoded_value encoded_parts base64_decodestep.case decoded_skip joined_parts decoded.simps(1))

text \<open>Pieces of the input do not show in the code.\<close>

lemma encode_block_append:
  "base64_encode_block (xs @ ys) s =
    (let (c, s') = base64_encode_block xs s; (d, s'') = base64_encode_block ys s' in (c @ d, s''))"
  by (induction xs arbitrary: s) (simp_all add: Let_def split: prod.splits)

lemma encode_blocks_concat:
  "encode_blocks bs s = (let (code, s') = base64_encode_block (concat bs) s in code @ base64_encode_blockend s')"
  by (induction bs arbitrary: s) (simp_all add: encode_block_append Let_def split: prod.splits)

abbreviation encoded_from :: "base64_encodestate \<Rightarrow> 8 word list \<Rightarrow> 8 word list" where
  "encoded_from s cs \<equiv> fst (base64_encode_block cs s) @ base64_encode_blockend (snd (base64_encode_block cs s))"

lemma encoded_from_Cons: "encoded_from s (c # cs) = fst (encode_char c s) @ encoded_from (snd (encode_char c s)) cs"
  by (simp add: Let_def split: prod.splits)

lemma decoded_encoded:
  "decoded b step_a cur (encoded_from \<lparr>enc_step = step_A, enc_result = r, stepcount = n\<rparr> cs) = cs
    \<and> decoded b step_b (x AND 0xfc) (encoded_from
         \<lparr>enc_step = step_B, enc_result = push_bit 4 (x AND 0x03), stepcount = n\<rparr> cs) = x # cs
    \<and> decoded b step_c (x AND 0xf0) (encoded_from
         \<lparr>enc_step = step_C, enc_result = push_bit 2 (x AND 0x0f), stepcount = n\<rparr> cs) = x # cs"
proof (induction cs arbitrary: cur r n x)
  case Nil
  then show ?case using decoded_blockend by simp
next
  case (Cons c cs)
  have "decoded b step_a cur (encoded_from \<lparr>enc_step = step_A, enc_result = r, stepcount = n\<rparr> (c # cs)) = c # cs"
    using Cons.IH [of 0 0 n c]
    by (simp only: encoded_from_Cons encode_char_def base64_encodestate.simps base64_encodestep.case fst_conv snd_conv
        append.simps decoded_encoded_value encoded_parts base64_decodestep.case joined_parts)
  moreover have "decoded b step_b (x AND 0xfc) (encoded_from
      \<lparr>enc_step = step_B, enc_result = push_bit 4 (x AND 0x03), stepcount = n\<rparr> (c # cs)) = x # c # cs"
    using Cons.IH [of 0 0 n c]
    by (simp only: encoded_from_Cons encode_char_def base64_encodestate.simps base64_encodestep.case fst_conv snd_conv
        append.simps decoded_encoded_value encoded_parts base64_decodestep.case joined_parts)
  moreover have "decoded b step_c (x AND 0xf0) (encoded_from
      \<lparr>enc_step = step_C, enc_result = push_bit 2 (x AND 0x0f), stepcount = n\<rparr> (c # cs)) = x # c # cs"
    using Cons.IH [of 0 "c AND 0x3f" "n + 1" c] Cons.IH [of 0 "c AND 0x3f" 0 c]
    by (cases "n + 1 = CHARS_PER_LINE div 4")
      (simp_all only: encoded_from_Cons encode_char_def base64_encodestate.simps base64_encodestep.case fst_conv snd_conv
        Let_def if_True if_False append.simps append_Nil2 decoded_encoded_value encoded_parts base64_decodestep.case
        joined_parts decoded_skip simp_thms)
  ultimately show ?case by blast
qed

section \<open>Properties\<close>

text \<open>
  The decoder run over blocks, each with a buffer of its own: the bytes it counts in each, in order.
\<close>

fun decode_blocks :: "int \<Rightarrow> (8 word list \<times> (nat \<Rightarrow> 8 word)) list \<Rightarrow> base64_decodestate \<Rightarrow> 8 word list" where
  "decode_blocks beyond [] s = []"
| "decode_blocks beyond ((code, out) # bs) s =
     (let (n, m, s') = base64_decode_block beyond code out s
      in map m [0..<n] @ decode_blocks beyond bs s')"

lemma decode_blocks_decoded:
  "decode_blocks b cs s = decoded b (dec_step s) (dec_plainchar s) (concat (map fst cs))"
proof (induction cs arbitrary: s)
  case Nil
  then show ?case by simp
next
  case (Cons co cs)
  obtain code out where co: "co = (code, out)" by (cases co)
  obtain st m p where d: "decode_loop b code (dec_step s) (out(0 := dec_plainchar s)) 0 = (st, m, p)"
    by (cases "decode_loop b code (dec_step s) (out(0 := dec_plainchar s)) 0") auto
  then show ?case
    using loop_ok_all [of b code "dec_step s" "out(0 := dec_plainchar s)" 0] Cons.IH
    by (simp add: co loop_ok_def base64_decode_block_def)
qed

text \<open>
  C18. Any bytes, encoded in blocks of any sizes and decoded in blocks of any other sizes into any
  buffers, come back: the two coroutines carry their state over block borders, and the line break
  the encoder inserts after 2147483647 characters is skipped.
\<close>

theorem base64_roundtrip:
  assumes "concat (map fst codes) = encode_blocks blocks base64_init_encodestate"
  shows "decode_blocks beyond codes base64_init_decodestate = concat blocks"
  using decoded_encoded [where b = beyond and cur = 0 and r = 0 and n = 0 and cs = "concat blocks"]
  by (simp add: decode_blocks_decoded assms base64_init_decodestate_def encode_blocks_concat
      base64_init_encodestate_def Let_def split_beta)

theorem base64_roundtrip_witness:
  "decode_blocks 0 [([81, 85], (\<lambda>i. 7)), ([73, 61], (\<lambda>i. 9))] base64_init_decodestate = [65, 66]"
proof -
  have "concat (map fst [([81, 85 :: 8 word], (\<lambda>i. 7 :: 8 word)), ([73, 61], (\<lambda>i. 9))])
      = encode_blocks [[65], [66]] base64_init_encodestate"
    by (simp add: base64_init_encodestate_def encode_char_def base64_encode_value_def encoding_def
        base64_encode_blockend_def pad_def)
  then show ?thesis using base64_roundtrip by fastforce
qed

text \<open>
  The decoder writes its buffer up to and including the place behind the bytes it reports, and
  nothing further: the caller must own one byte more than the result is long.
\<close>

theorem decode_footprint:
  assumes "base64_decode_block beyond code out s = (n, m, s')"
  shows "(\<forall>i>n. m i = out i) \<and> map m [0..<n] = decoded beyond (dec_step s) (dec_plainchar s) code
    \<and> dec_plainchar s' = m n"
proof -
  obtain st m1 p where d: "decode_loop beyond code (dec_step s) (out(0 := dec_plainchar s)) 0 = (st, m1, p)"
    by (cases "decode_loop beyond code (dec_step s) (out(0 := dec_plainchar s)) 0") auto
  then have "p = n" "m1 = m" "dec_plainchar s' = m n" using assms by (auto simp: base64_decode_block_def)
  then show ?thesis
    using loop_ok_all [of beyond code "dec_step s" "out(0 := dec_plainchar s)" 0] d
    by (simp add: loop_ok_def)
qed

theorem decode_footprint_witness:
  "\<exists>m s'. base64_decode_block 0 [81, 81, 61, 61] (\<lambda>i. 255) base64_init_decodestate = (1, m, s')
    \<and> m 0 = 65 \<and> m 1 \<noteq> 255 \<and> m 2 = 255"
proof -
  obtain n m s' where d: "base64_decode_block 0 [81, 81, 61, 61] (\<lambda>i. 255) base64_init_decodestate = (n, m, s')"
    by (cases "base64_decode_block 0 [81, 81, 61, 61] (\<lambda>i. 255) base64_init_decodestate") auto
  then have "n = 1 \<and> m 0 = 65 \<and> m 1 = 0"
    by (auto simp: base64_decode_block_def base64_init_decodestate_def base64_decode_value_def decoding_def)
  moreover have "\<forall>i>n. m i = 255" using decode_footprint [OF d] by blast
  ultimately show ?thesis using d by auto
qed

end
