(* ===== verification/CLib.thy ===== *)
theory CLib
  imports GPS_Prelude "HOL-Library.Char_ord"
begin

text \<open>
  What the components use of the C library on strings: \<^verbatim>\<open>char\<close> as a signed number, character
  classes of the C locale, \<^verbatim>\<open>tolower\<close>, \<^verbatim>\<open>stricmp\<close>, \<^verbatim>\<open>atoi\<close>, and decimal printing.
\<close>

section \<open>Characters\<close>

definition char_code :: "char \<Rightarrow> nat" where
  "char_code c = of_char c"

text \<open>The targets' \<^verbatim>\<open>char\<close> is signed.\<close>

definition schar :: "char \<Rightarrow> int" where
  "schar c = (let n = int (char_code c) in if n \<ge> 128 then n - 256 else n)"

definition is_digit :: "char \<Rightarrow> bool" where
  "is_digit c = (CHR ''0'' \<le> c \<and> c \<le> CHR ''9'')"

definition digit_value :: "char \<Rightarrow> nat" where
  "digit_value c = char_code c - 48"

definition digit_char :: "nat \<Rightarrow> char" where
  "digit_char n = char_of (48 + n)"

definition is_space :: "char \<Rightarrow> bool" where
  "is_space c = (c = CHR '' '' \<or> (CHR 0x09 \<le> c \<and> c \<le> CHR 0x0D))"

definition c_tolower :: "char \<Rightarrow> char" where
  "c_tolower c = (if CHR ''A'' \<le> c \<and> c \<le> CHR ''Z'' then char_of (char_code c + 32) else c)"

definition stricmp_eq :: "string \<Rightarrow> string \<Rightarrow> bool" where
  "stricmp_eq a b = (map c_tolower a = map c_tolower b)"

lemma char_code_less [simp]: "char_code c < 256"
  by (simp add: char_code_def)

lemma char_code_simps [simp]: "char_code (char_of n) = n mod 256" "char_of (char_code c) = c"
  by (simp_all add: char_code_def)

lemma char_code_eq: "c = d \<longleftrightarrow> char_code c = char_code d"
  by (metis char_code_simps(2))

lemma is_digit_code: "is_digit c \<longleftrightarrow> 48 \<le> char_code c \<and> char_code c \<le> 57"
  by (simp add: is_digit_def char_code_def less_eq_char_def)

lemma is_digit_digit_char [simp]: "n < 10 \<Longrightarrow> is_digit (digit_char n)"
  by (simp add: is_digit_code char_code_def digit_char_def)

lemma digit_value_digit_char [simp]: "n < 10 \<Longrightarrow> digit_value (digit_char n) = n"
  by (simp add: digit_value_def char_code_def digit_char_def)

section \<open>Decimal numbers\<close>

fun digits_value :: "nat \<Rightarrow> string \<Rightarrow> nat" where
  "digits_value acc [] = acc"
| "digits_value acc (c # cs) = digits_value (acc * 10 + digit_value c) cs"

fun show_nat :: "nat \<Rightarrow> string" where
  "show_nat n = (if n < 10 then [digit_char n] else show_nat (n div 10) @ [digit_char (n mod 10)])"

declare show_nat.simps [simp del]

text \<open>\<^verbatim>\<open>printf\<close> of a signed number in decimal.\<close>

definition show_int :: "int \<Rightarrow> string" where
  "show_int n = (if n < 0 then CHR ''-'' # show_nat (nat (- n)) else show_nat (nat n))"

lemma digits_value_append:
  "digits_value acc (xs @ ys) = digits_value (digits_value acc xs) ys"
  by (induction xs arbitrary: acc) auto

lemma digits_value_show_nat [simp]: "digits_value 0 (show_nat n) = n"
  by (induction n rule: show_nat.induct) (subst show_nat.simps, simp add: digits_value_append)

lemma digits_value_ge: "acc \<le> digits_value acc cs"
proof (induction cs arbitrary: acc)
  case (Cons c cs)
  show ?case using Cons.IH [of "acc * 10 + digit_value c"] by simp
qed simp

lemma is_digit_show_nat: "c \<in> set (show_nat n) \<Longrightarrow> is_digit c"
  by (induction n rule: show_nat.induct) (subst (asm) (2) show_nat.simps, auto split: if_splits)

lemma show_nat_nonempty [simp]: "show_nat n \<noteq> []"
  by (subst show_nat.simps) simp

lemma show_nat_first: "0 < n \<Longrightarrow> hd (show_nat n) \<noteq> CHR ''0''"
proof (induction n rule: show_nat.induct)
  case (1 n)
  show ?case
  proof (cases "n < 10")
    case True
    then have "char_code (digit_char n) = 48 + n" by (simp add: char_code_def digit_char_def)
    then have "digit_char n \<noteq> CHR ''0''" using 1(2) by (auto simp: char_code_def)
    then show ?thesis using True by (subst show_nat.simps) simp
  next
    case False
    then show ?thesis using 1 by (subst show_nat.simps) (simp add: hd_append)
  qed
qed

text \<open>
  White space, a sign, digits. \<^verbatim>\<open>atoi\<close> and \<^verbatim>\<open>atoll\<close>: a value outside the type is undefined in C and
  wraps here.
\<close>

definition decimal :: "string \<Rightarrow> int" where
  "decimal s =
     (let t = dropWhile is_space s;
          (neg, u) = (case t of
              [] \<Rightarrow> (False, [])
            | c # cs \<Rightarrow> if c = CHR ''-'' then (True, cs) else if c = CHR ''+'' then (False, cs)
                else (False, t));
          v = int (digits_value 0 (takeWhile is_digit u))
      in if neg then - v else v)"

definition atoi :: "string \<Rightarrow> int" where
  "atoi s = c_int (decimal s)"

definition atoll :: "string \<Rightarrow> int" where
  "atoll s = (decimal s + 2 ^ 63) mod 2 ^ 64 - 2 ^ 63"

lemma c_int_range: "- (2 ^ 31) \<le> c_int n" "c_int n < 2 ^ 31"
  using signed_take_bit_int_greater_eq_minus_exp [of 31 n] signed_take_bit_int_less_exp [of 31 n]
  by (simp_all add: c_int_def)

lemma decimal_show_nat_append:
  assumes "rest = [] \<or> \<not> is_digit (hd rest)"
  shows "decimal (show_nat n @ rest) = int n"
proof -
  obtain c cs where s: "show_nat n = c # cs" by (cases "show_nat n") simp_all
  have d: "\<forall>x \<in> set (show_nat n). is_digit x" by (simp add: is_digit_show_nat)
  then have c: "is_digit c" by (simp add: s)
  then have "\<not> is_space c" "c \<noteq> CHR ''-''" "c \<noteq> CHR ''+''"
    by (auto simp: is_digit_def is_space_def less_eq_char_def)
  moreover have "takeWhile is_digit (show_nat n @ rest) = show_nat n"
    using d assms by (cases rest) (simp_all add: takeWhile_eq_all_conv takeWhile_tail)
  moreover have "digits_value 0 (c # cs) = n" using digits_value_show_nat [of n] s by simp
  ultimately show ?thesis using s by (simp add: decimal_def Let_def)
qed

lemma decimal_show_nat: "decimal (show_nat n) = int n"
  using decimal_show_nat_append [of "[]" n] by simp

lemma atoi_show_nat: "n < 2 ^ 31 \<Longrightarrow> atoi (show_nat n) = int n"
  by (simp add: atoi_def decimal_show_nat)

lemma atoi_show_nat_append: "n < 2 ^ 31 \<Longrightarrow> rest = [] \<or> \<not> is_digit (hd rest) \<Longrightarrow> atoi (show_nat n @ rest) = int n"
  by (simp add: atoi_def decimal_show_nat_append)

lemma atoi_range: "- (2 ^ 31) \<le> atoi s" "atoi s < 2 ^ 31"
  by (simp_all add: atoi_def c_int_range del: power_numeral)

end
