(* ===== verification/NsConv.thy ===== *)
theory NsConv
  imports CLib "HOL-Library.Sublist"
begin

text \<open>
  The string helpers of \<^verbatim>\<open>xxsocket/src/nsconv.h\<close>: trimming, splitting, replacing, hexadecimal text,
  the reversal of a buffer and the tuples of numbers. A C string is its characters before the NUL; a
  \<^verbatim>\<open>std::string\<close> may hold NULs. \<^verbatim>\<open>char\<close> is signed and \<^verbatim>\<open>size_t\<close> has 64 bits.
\<close>

section \<open>Trimming\<close>

definition is_visible_char :: "char \<Rightarrow> bool" where
  "is_visible_char c = (schar c > 0x20 \<and> schar c < 0x7F)"

text \<open>The index of the last visible character, by the loop over the rest of the string.\<close>

fun last_visible :: "nat \<Rightarrow> nat \<Rightarrow> string \<Rightarrow> nat" where
  "last_visible i lst [] = lst"
| "last_visible i lst (c # cs) = last_visible (i + 1) (if is_visible_char c then i else lst) cs"

text \<open>\<^verbatim>\<open>strtrim\<close> of a C string: its new content and the length returned.\<close>

definition strtrim_c :: "string \<Rightarrow> string \<times> nat" where
  "strtrim_c s =
     (if s = [] then (s, 0)
      else case dropWhile (\<lambda>c. \<not> is_visible_char c) s of
        [] \<Rightarrow> ([], 1)
      | c # cs \<Rightarrow> (let n = last_visible 1 0 cs + 1 in (take n (c # cs), n)))"

text \<open>\<^verbatim>\<open>strtrim\<close> with a length: the leading loop, the trailing loop, and both.\<close>

fun trim_leading :: "string \<Rightarrow> nat \<Rightarrow> string \<times> nat" where
  "trim_leading [] n = ([], n)"
| "trim_leading (c # cs) n =
     (if is_visible_char c then (c # cs, n)
      else if n - 1 = 0 then (c # cs, 0)
      else trim_leading cs (n - 1))"

fun trim_trailing :: "string \<Rightarrow> nat \<Rightarrow> nat" where
  "trim_trailing p 0 = 0"
| "trim_trailing p (Suc n) = (if is_visible_char (p ! n) then Suc n else trim_trailing p n)"

definition strtrim_n :: "string \<Rightarrow> nat \<Rightarrow> string \<times> nat" where
  "strtrim_n s n =
     (if s = [] \<or> hd s = CHR 0x00 then (s, 0)
      else
        let (p, m) = trim_leading s n;
            k = (if m > 0 then trim_trailing p m else m)
        in (take k p, k))"

definition strtrim :: "string \<Rightarrow> string" where
  "strtrim s = (case strtrim_n s (length s) of (t, n) \<Rightarrow> take n t)"

section \<open>Splitting and replacing\<close>

text \<open>The pieces handed to the callback, in order; \<open>piece\<close> is the one begun.\<close>

fun split_pieces :: "char \<Rightarrow> string \<Rightarrow> string \<Rightarrow> string list" where
  "split_pieces delim piece [] = (if piece \<noteq> [] then [piece] else [])"
| "split_pieces delim piece (c # cs) =
     (if c = delim then (if piece \<noteq> [] then [piece] else []) @ split_pieces delim [] cs
      else split_pieces delim (piece @ [c]) cs)"

definition split_char :: "string \<Rightarrow> char \<Rightarrow> string list" where
  "split_char s delim = split_pieces delim [] s"

text \<open>\<^verbatim>\<open>std::string::find\<close>: the first occurrence at or behind a position.\<close>

fun find_from :: "string \<Rightarrow> string \<Rightarrow> nat \<Rightarrow> nat option" where
  "find_from key [] i = (if key = [] then Some i else None)"
| "find_from key (c # cs) i =
     (if take (length key) (c # cs) = key then Some i else find_from key cs (i + 1))"

definition find_at :: "string \<Rightarrow> string \<Rightarrow> nat \<Rightarrow> nat option" where
  "find_at s key pos = (if pos \<le> length s then find_from key (drop pos s) pos else None)"

text \<open>
  \<^verbatim>\<open>split\<close> with a delimiting string: \<open>s\<close> is the rest that \<^verbatim>\<open>_Start\<close> and \<^verbatim>\<open>_Ptr\<close> both point
  to, \<open>out\<close> the pieces handed out. \<^verbatim>\<open>strstr\<close> finds an empty delimiter at once and for ever: \<open>None\<close>.
\<close>

partial_function (option) split_str_loop :: "string \<Rightarrow> string list \<Rightarrow> string \<Rightarrow> string list option" where
  "split_str_loop delims out s =
     (case find_from delims s 0 of
        None \<Rightarrow> Some (out @ (if s \<noteq> [] then [s] else []))
      | Some p \<Rightarrow> split_str_loop delims (out @ (if p > 0 then [take p s] else []))
                  (drop (p + length delims) s))"

definition split_str :: "string \<Rightarrow> string \<Rightarrow> string list option" where
  "split_str s delims = split_str_loop delims [] s"

text \<open>
  \<^verbatim>\<open>_Dir_split\<close> hands the callback each prefix that ends before a separator, and the whole. \<open>passed\<close> is
  the text passed, \<open>fresh\<close> that \<^verbatim>\<open>_Ptr = _Start\<close>; the separators it stops at become slashes. The result
  is the final text and the prefixes; a callback that returns true ends it.
\<close>

fun dir_split_loop :: "(string \<Rightarrow> bool) \<Rightarrow> string \<Rightarrow> bool \<Rightarrow> string list \<Rightarrow> string \<Rightarrow> string \<times> string list" where
  "dir_split_loop oper passed fresh calls [] =
     (passed, if fresh then calls else calls @ [passed])"
| "dir_split_loop oper passed fresh calls (c # cs) =
     (if c = CHR 0x5C \<or> c = CHR ''/'' then
        if fresh then dir_split_loop oper (passed @ [c]) True calls cs
        else if oper passed then (passed @ CHR ''/'' # cs, calls @ [passed])
        else dir_split_loop oper (passed @ [CHR ''/'']) True (calls @ [passed]) cs
      else dir_split_loop oper (passed @ [c]) False calls cs)"

definition dir_split :: "(string \<Rightarrow> bool) \<Rightarrow> string \<Rightarrow> string \<times> string list" where
  "dir_split oper s = dir_split_loop oper [] True [] s"

text \<open>\<^verbatim>\<open>replace\<close> may not end: \<open>None\<close>.\<close>

partial_function (option) replace_loop :: "string \<Rightarrow> string \<Rightarrow> nat \<Rightarrow> string \<Rightarrow> string option" where
  "replace_loop key rep pos s =
     (case find_at s key pos of
        None \<Rightarrow> Some s
      | Some p \<Rightarrow> replace_loop key rep (p + length rep) (take p s @ rep @ drop (p + length key) s))"

definition replace :: "string \<Rightarrow> string \<Rightarrow> string \<Rightarrow> string option" where
  "replace s key rep = replace_loop key rep 0 s"

definition rsubstr :: "string \<Rightarrow> nat \<Rightarrow> string" where
  "rsubstr s off = (if length s \<ge> off then drop (length s - off) s else [])"

definition c_toupper :: "char \<Rightarrow> char" where
  "c_toupper c = (if CHR ''a'' \<le> c \<and> c \<le> CHR ''z'' then char_of (char_code c - 32) else c)"

definition strtoupper :: "string \<Rightarrow> string" where
  "strtoupper s = map c_toupper s"

definition strtolower :: "string \<Rightarrow> string" where
  "strtolower s = map c_tolower s"

section \<open>Hexadecimal text\<close>

definition char2hex :: "char \<Rightarrow> int" where
  "char2hex ch =
     (let v = (if is_digit ch then schar ch - 48 else schar (c_tolower ch) - 97 + 10)
      in (v + 128) mod 256 - 128)"

definition hex2char :: "nat \<Rightarrow> char" where
  "hex2char hex = char_of (if hex < 10 then hex + 48 else hex + 97 - 10)"

text \<open>A delimiter is an \<^verbatim>\<open>int\<close>; pushing it converts it to \<^verbatim>\<open>char\<close>, comparing promotes the character.\<close>

definition delim_needed :: "int \<Rightarrow> bool" where
  "delim_needed delim = ((delim > 0x20 \<and> delim < 0x7F) \<or> delim = 32)"

definition bin2hex :: "string \<Rightarrow> int \<Rightarrow> bool \<Rightarrow> string" where
  "bin2hex binary delim prefixed = concat (map (\<lambda>ch.
     (if prefixed then ''0x'' else [])
      @ [hex2char (char_code ch div 16), hex2char (char_code ch mod 16)]
      @ (if delim_needed delim then [char_of (nat delim)] else [])) binary)"

datatype hex_state = Skip_prefix | Take_low | Take_high

fun hex2bin_loop :: "int \<Rightarrow> hex_state \<Rightarrow> hex_state \<Rightarrow> int \<Rightarrow> string \<Rightarrow> string \<Rightarrow> string" where
  "hex2bin_loop delim init st low result [] = result"
| "hex2bin_loop delim init st low result (c # cs) =
     (if delim \<noteq> -1 \<and> schar c = delim then hex2bin_loop delim init st low result cs
      else case st of
        Skip_prefix \<Rightarrow> hex2bin_loop delim init st low result cs
      | Take_low \<Rightarrow> hex2bin_loop delim init Take_high (char2hex c) result cs
      | Take_high \<Rightarrow> hex2bin_loop delim init init low
          (result @ [char_of (nat (or (low mod 256 * 16) (char2hex c mod 256) mod 256))]) cs)"

definition hex2bin :: "string \<Rightarrow> int \<Rightarrow> bool \<Rightarrow> string" where
  "hex2bin hexstring delim prefixed =
     (let init = (if prefixed then Skip_prefix else Take_low);
          result = hex2bin_loop delim init init 0 [] hexstring
      in if length result \<ge> 2 then result else [])"

definition bin2dec :: "string \<Rightarrow> int \<Rightarrow> string" where
  "bin2dec binary delim = concat (map (\<lambda>ch.
     show_int (schar ch)
      @ (if delim_needed delim then [char_of (nat delim)] else [])) binary)"

section \<open>Reversing a buffer\<close>

text \<open>
  The loop from both ends; an index outside the buffer is out of bounds. With \<open>hi = 0\<close> and
  \<open>lo \<noteq> 0\<close> the source swaps once more and then uses the index \<open>2 ^ 64 - 1\<close>.
\<close>

function reverse_loop :: "'a list \<Rightarrow> nat \<Rightarrow> nat \<Rightarrow> 'a list outcome" where
  "reverse_loop xs lo hi =
     (if lo = hi then Returns xs
      else if lo < length xs \<and> hi < length xs \<and> hi \<noteq> 0 then
        reverse_loop (xs[lo := xs ! hi, hi := xs ! lo]) (lo + 1) (hi - 1)
      else OutOfBounds)"
  by pat_completeness auto

termination
  by (relation "measure (\<lambda>(xs, lo, hi). hi)") auto

declare reverse_loop.simps [simp del]

text \<open>\<^verbatim>\<open>_Count - 1\<close> of a count 0 is the largest \<^verbatim>\<open>size_t\<close>.\<close>

definition reverse_sb :: "'a list \<Rightarrow> 'a list outcome" where
  "reverse_sb xs = reverse_loop xs 0 (if xs = [] then 2 ^ 64 - 1 else length xs - 1)"

section \<open>Tuples of numbers\<close>

text \<open>
  \<^verbatim>\<open>strtol\<close> to base 10: white space, a sign, digits, clamped to \<^verbatim>\<open>long\<close>; the position behind the
  digits, or the start when there are none. The callers convert the value to \<^verbatim>\<open>int\<close>.
\<close>

definition clamp_long :: "int \<Rightarrow> int" where
  "clamp_long v = max (- (2 ^ 63)) (min (2 ^ 63 - 1) v)"

definition strtol :: "string \<Rightarrow> int \<times> string" where
  "strtol s =
     (let t = dropWhile is_space s;
          (neg, u) = (case t of
              [] \<Rightarrow> (False, [])
            | c # cs \<Rightarrow> if c = CHR ''-'' then (True, cs) else if c = CHR ''+'' then (False, cs)
                else (False, t));
          ds = takeWhile is_digit u;
          v = int (digits_value 0 ds)
      in if ds = [] then (0, s) else (clamp_long (if neg then - v else v), dropWhile is_digit u))"

definition strtoi :: "string \<Rightarrow> int \<times> string" where
  "strtoi s = (case strtol s of (v, rest) \<Rightarrow> (c_int v, rest))"

text \<open>The character at a position is the delimiter, which is not the NUL.\<close>

fun at_delim :: "char \<Rightarrow> string \<Rightarrow> bool" where
  "at_delim delim [] = False"
| "at_delim delim (c # cs) = (c = delim)"

definition parse2i :: "string \<Rightarrow> char \<Rightarrow> int \<times> int" where
  "parse2i s delim =
     (let (value1, e) = strtoi s
      in if at_delim delim e then (value1, fst (strtoi (tl e))) else (value1, 0))"

definition parse3i :: "string \<Rightarrow> char \<Rightarrow> int \<times> int \<times> int" where
  "parse3i s delim =
     (let (value1, e) = strtoi s
      in if at_delim delim e then
           let (value2, e2) = strtoi (tl e)
           in if at_delim delim e2 then (value1, value2, fst (strtoi (tl e2)))
              else (value1, value2, 0)
         else (value1, 0, 0))"

definition parse4i :: "string \<Rightarrow> char \<Rightarrow> int \<times> int \<times> int \<times> int" where
  "parse4i s delim =
     (let (value1, e) = strtoi s
      in if at_delim delim e then
           let (value2, e2) = strtoi (tl e)
           in if at_delim delim e2 then
                let (value3, e3) = strtoi (tl e2)
                in if at_delim delim e3 then (value1, value2, value3, fst (strtoi (tl e3)))
                   else (value1, value2, value3, 0)
              else (value1, value2, 0, 0)
         else (value1, 0, 0, 0))"

section \<open>Trimming lemmas\<close>

abbreviation invisible :: "char \<Rightarrow> bool" where
  "invisible c \<equiv> \<not> is_visible_char c"

definition strip_end :: "string \<Rightarrow> string" where
  "strip_end s = rev (dropWhile invisible (rev s))"

definition trimmed :: "string \<Rightarrow> string" where
  "trimmed s = strip_end (dropWhile invisible s)"

lemma strip_end_simps [simp]:
  "strip_end [] = []"
  "strip_end (c # cs) = (if strip_end cs = [] then (if is_visible_char c then [c] else []) else c # strip_end cs)"
  "strip_end (cs @ [c]) = (if is_visible_char c then cs @ [c] else strip_end cs)"
  by (auto simp: strip_end_def dropWhile_append)

lemma strip_end_prefix: "take (length (strip_end s)) s = strip_end s"
  by (induction s) auto

lemma last_visible_strip:
  "last_visible i lst cs = (if strip_end cs = [] then lst else i + length (strip_end cs) - 1)"
proof (induction cs arbitrary: i lst)
  case (Cons c cs)
  then show ?case by (cases "strip_end cs") auto
qed simp

lemma strtrim_c_trims:
  "strtrim_c s = (if s = [] then ([], 0) else if trimmed s = [] then ([], 1) else (trimmed s, length (trimmed s)))"
proof (cases "dropWhile invisible s")
  case Nil
  then show ?thesis by (simp add: strtrim_c_def trimmed_def del: dropWhile_eq_Nil_conv)
next
  case (Cons c cs)
  then have v: "is_visible_char c" by (metis dropWhile_eq_Cons_conv)
  have "last_visible 1 0 cs + 1 = length (strip_end (c # cs))"
    using v by (cases "strip_end cs") (simp_all add: last_visible_strip)
  moreover have "s \<noteq> []" using Cons by auto
  moreover have "strip_end (c # cs) \<noteq> []" using v by simp
  ultimately show ?thesis
    using strip_end_prefix [of "c # cs"] Cons
    by (simp add: strtrim_c_def trimmed_def Let_def del: strip_end_simps take_Suc_Cons)
qed

lemma trim_trailing_strip:
  "n \<le> length p \<Longrightarrow> trim_trailing p n = length (strip_end (take n p))"
  by (induction n) (simp_all add: take_Suc_conv_app_nth)

lemma trim_leading_drop:
  "s \<noteq> [] \<Longrightarrow> trim_leading s (length s) =
    (if dropWhile invisible s = [] then ([last s], 0) else (dropWhile invisible s, length (dropWhile invisible s)))"
  by (induction s) auto

lemma strtrim_trims: "s = [] \<or> hd s \<noteq> CHR 0x00 \<Longrightarrow> strtrim s = trimmed s"
  using trim_leading_drop [of s] trim_trailing_strip [of "length (dropWhile invisible s)" "dropWhile invisible s"]
    strip_end_prefix [of "dropWhile invisible s"]
  by (cases "dropWhile invisible s = []")
    (auto simp: strtrim_def strtrim_n_def trimmed_def Let_def simp del: dropWhile_eq_Nil_conv)

lemma trimmed_Nil [simp]: "trimmed [] = []"
  by (simp add: trimmed_def)

lemma strip_end_parts: "\<exists>b. s = strip_end s @ b \<and> filter is_visible_char b = []"
proof -
  have "s = rev (dropWhile invisible (rev s)) @ rev (takeWhile invisible (rev s))"
    by (metis rev_append rev_rev_ident takeWhile_dropWhile_id)
  moreover have "filter is_visible_char (rev (takeWhile invisible (rev s))) = []"
    by (auto simp: filter_empty_conv dest: set_takeWhileD)
  ultimately show ?thesis by (auto simp: strip_end_def)
qed

lemma trimmed_parts: "\<exists>a b. s = a @ trimmed s @ b \<and> filter is_visible_char (a @ b) = []"
proof -
  obtain b where "dropWhile invisible s = trimmed s @ b" "filter is_visible_char b = []"
    using strip_end_parts [of "dropWhile invisible s"] by (auto simp: trimmed_def)
  moreover have "filter is_visible_char (takeWhile invisible s) = []"
    by (auto simp: filter_empty_conv dest: set_takeWhileD)
  ultimately show ?thesis by (metis filter_append append_Nil takeWhile_dropWhile_id)
qed

lemma trimmed_ends: "trimmed s = [] \<or> (is_visible_char (hd (trimmed s)) \<and> is_visible_char (last (trimmed s)))"
proof (cases "dropWhile invisible s")
  case Nil
  then show ?thesis by (simp add: trimmed_def del: dropWhile_eq_Nil_conv)
next
  case (Cons c cs)
  then have c: "is_visible_char c" by (metis dropWhile_eq_Cons_conv)
  have "last (strip_end (c # cs)) = hd (dropWhile invisible (rev (c # cs)))"
    by (simp add: strip_end_def last_rev)
  moreover have "dropWhile invisible (rev (c # cs)) \<noteq> []" using c by simp
  ultimately have "is_visible_char (last (strip_end (c # cs)))" using hd_dropWhile by metis
  then show ?thesis using Cons c by (simp add: trimmed_def)
qed

section \<open>Splitting lemmas\<close>

lemma split_pieces_concat:
  "concat (split_pieces d p s) = p @ filter (\<lambda>c. c \<noteq> d) s"
  by (induction d p s rule: split_pieces.induct) auto

lemma split_pieces_wf:
  "d \<notin> set p \<Longrightarrow> list_all (\<lambda>f. f \<noteq> [] \<and> d \<notin> set f) (split_pieces d p s)"
  by (induction d p s rule: split_pieces.induct) auto

lemma split_pieces_field: "d \<notin> set f \<Longrightarrow> split_pieces d p (f @ s) = split_pieces d (p @ f) s"
  by (induction f arbitrary: p) auto

fun joined :: "char \<Rightarrow> string list \<Rightarrow> string" where
  "joined d [] = []"
| "joined d [f] = f"
| "joined d (f # fs) = f @ d # joined d fs"

lemma split_joined: "list_all (\<lambda>f. f \<noteq> [] \<and> d \<notin> set f) fs \<Longrightarrow> split_char (joined d fs) d = fs"
  using split_pieces_field [of d _ "[]" "[]"]
  by (induction d fs rule: joined.induct) (simp_all add: split_char_def split_pieces_field)

section \<open>Reversing lemmas\<close>

lemma reverse_loop_swap:
  "reverse_loop (a @ x # m @ y # b) (length a) (length a + length m + 1)
    = reverse_loop ((a @ [y]) @ m @ x # b) (length (a @ [y])) (length (a @ [y]) + length m - 1)"
proof -
  have "(a @ x # m @ y # b) ! (length a + length m + 1) = y"
    by (simp add: nth_append)
  moreover have "(a @ x # m @ y # b)[length a := y, length a + length m + 1 := x] = a @ y # m @ x # b"
    by (simp add: list_update_append)
  ultimately show ?thesis by (subst reverse_loop.simps) simp
qed

lemma reverse_loop_crossed: "hi < lo \<Longrightarrow> reverse_loop xs lo hi = OutOfBounds"
  by (induction xs lo hi rule: reverse_loop.induct) (subst reverse_loop.simps, auto)

lemma split_ends: "2 \<le> length m \<Longrightarrow> \<exists>x m' y. m = x # m' @ [y]"
  by (metis One_nat_def Suc_1 Suc_le_length_iff append_butlast_last_id length_0_conv not_less_eq_eq zero_le)

lemma reverse_loop_odd:
  "odd (length m) \<Longrightarrow> reverse_loop (a @ m @ b) (length a) (length a + length m - 1) = Returns (a @ rev m @ b)"
proof (induction m arbitrary: a b rule: length_induct)
  case (1 m)
  show ?case
  proof (cases "length m = 1")
    case True
    then obtain x where "m = [x]" by (cases m) auto
    then show ?thesis by (subst reverse_loop.simps) simp
  next
    case False
    then have "2 \<le> length m" using 1(2) by presburger
    then obtain x m' y where m: "m = x # m' @ [y]" using split_ends by blast
    then have "odd (length m')" using 1(2) by simp
    then have "reverse_loop ((a @ [y]) @ m' @ x # b) (length (a @ [y])) (length (a @ [y]) + length m' - 1)
        = Returns ((a @ [y]) @ rev m' @ x # b)"
      using 1(1) [rule_format, of m' "a @ [y]" "x # b"] m by simp
    then show ?thesis using reverse_loop_swap [of a x m' y b] m by simp
  qed
qed

lemma reverse_loop_even:
  "even (length m) \<Longrightarrow> m \<noteq> [] \<Longrightarrow> reverse_loop (a @ m @ b) (length a) (length a + length m - 1) = OutOfBounds"
proof (induction m arbitrary: a b rule: length_induct)
  case (1 m)
  then have "2 \<le> length m" by (cases m; cases "tl m") auto
  then obtain x m' y where m: "m = x # m' @ [y]" using split_ends by blast
  have "reverse_loop ((a @ [y]) @ m' @ x # b) (length (a @ [y])) (length (a @ [y]) + length m' - 1) = OutOfBounds"
  proof (cases "m' = []")
    case True
    then show ?thesis by (simp add: reverse_loop_crossed)
  next
    case False
    then show ?thesis using 1(1) [rule_format, of m' "a @ [y]" "x # b"] 1(2) m by simp
  qed
  then show ?case using reverse_loop_swap [of a x m' y b] m by simp
qed

lemma reverse_sb_cases: "reverse_sb xs = (if odd (length xs) then Returns (rev xs) else OutOfBounds)"
proof (cases "xs = []")
  case True
  then show ?thesis by (simp add: reverse_sb_def) (subst reverse_loop.simps, simp)
next
  case False
  then show ?thesis
    using reverse_loop_odd [of xs "[]" "[]"] reverse_loop_even [of xs "[]" "[]"] by (simp add: reverse_sb_def)
qed
section \<open>Replacing lemmas\<close>

function subst_all :: "string \<Rightarrow> string \<Rightarrow> string \<Rightarrow> string" where
  "subst_all key rep [] = []"
| "subst_all key rep (c # cs) =
     (if key \<noteq> [] \<and> take (length key) (c # cs) = key then rep @ subst_all key rep (drop (length key) (c # cs))
      else c # subst_all key rep cs)"
  by pat_completeness auto

termination
  by (relation "measure (\<lambda>(key, rep, s). length s)") (auto simp: neq_Nil_conv)

lemma find_from_None: "find_from key s i = None \<Longrightarrow> key \<noteq> [] \<Longrightarrow> subst_all key rep s = s"
  by (induction key s i rule: find_from.induct) (auto split: if_splits)

lemma find_from_Some:
  "find_from key s i = Some q \<Longrightarrow> key \<noteq> [] \<Longrightarrow>
    i \<le> q \<and> q - i + length key \<le> length s \<and>
    take (q - i) s @ rep @ subst_all key rep (drop (q - i + length key) s) = subst_all key rep s"
proof (induction key s i rule: find_from.induct)
  case (2 key c cs i)
  show ?case
  proof (cases "take (length key) (c # cs) = key")
    case True
    then have "length key \<le> length (c # cs)" by (metis length_take min.cobounded1)
    then show ?thesis using True 2(2,3) by auto
  next
    case False
    then have q: "find_from key cs (i + 1) = Some q" using 2(2) by (simp split: if_splits)
    note r = 2(1) [OF False q 2(3)]
    then have "q - i = Suc (q - (i + 1))" by arith
    then show ?thesis using r False by simp
  qed
qed simp

lemma replace_loop_subst:
  "key \<noteq> [] \<Longrightarrow> replace_loop key rep (length p) (p @ s) = Some (p @ subst_all key rep s)"
proof (induction "length s" arbitrary: p s rule: less_induct)
  case less
  show ?case
  proof (cases "find_from key s (length p)")
    case None
    then show ?thesis
      using find_from_None [OF None less.prems] by (subst replace_loop.simps) (simp add: find_at_def)
  next
    case (Some q)
    define k where "k = q - length p"
    note f = find_from_Some [OF Some less.prems, of rep, folded k_def]
    then have q: "q = length p + k" by (simp add: k_def)
    have "length (drop (k + length key) s) < length s" using less.prems f by (cases key) auto
    note IH = less.hyps [OF this less.prems, of "p @ take k s @ rep"]
    have "replace_loop key rep (length p) (p @ s)
        = replace_loop key rep (q + length rep) (take q (p @ s) @ rep @ drop (q + length key) (p @ s))"
      by (subst replace_loop.simps) (simp add: find_at_def Some)
    also have "\<dots> = Some (p @ take k s @ rep @ subst_all key rep (drop (k + length key) s))"
      using IH f by (simp add: q min_absorb2 add.commute add.left_commute)
    finally show ?thesis using f by simp
  qed
qed

lemma find_from_empty: "find_from [] s i = Some i"
  by (cases s) simp_all

lemma replace_loop_empty: "replace_loop key rep pos s = Some r \<Longrightarrow> key = [] \<longrightarrow> pos \<le> length s \<longrightarrow> False"
  by (erule replace_loop.raw_induct [rotated, where P = "\<lambda>key rep pos s r. key = [] \<longrightarrow> pos \<le> length s \<longrightarrow> False"])
    (fastforce simp: find_at_def find_from_empty)

lemma replace_cases: "replace s key rep = (if key = [] then None else Some (subst_all key rep s))"
  using replace_loop_subst [of key rep "[]" s] replace_loop_empty [of key rep 0 s]
  by (cases "replace_loop key rep 0 s") (auto simp: replace_def)

section \<open>Hexadecimal lemmas\<close>

lemma hex_digit_check:
  "list_all (\<lambda>h. char2hex (hex2char h) = int h \<and> schar (hex2char h) \<in> set [48..57] \<union> set [97..102]) [0..<16]"
  by code_simp

lemma hex_digit:
  assumes "h < 16"
  shows "char2hex (hex2char h) = int h"
    and "schar (hex2char h) \<in> {48..57} \<union> {97..102}"
proof -
  have "h \<in> set [0..<16]" using assms by simp
  then have "char2hex (hex2char h) = int h \<and> schar (hex2char h) \<in> set [48..57] \<union> set [97..102]"
    using hex_digit_check unfolding list_all_iff by (rule bspec [rotated])
  then show "char2hex (hex2char h) = int h" "schar (hex2char h) \<in> {48..57} \<union> {97..102}"
    by (simp_all only: set_upto)
qed

lemma nibbles:
  "x < 256 \<Longrightarrow> or (int (x div 16) mod 256 * 16) (int (x mod 16)) mod 256 = int x"
proof -
  have "list_all (\<lambda>x. or (int (x div 16) mod 256 * 16) (int (x mod 16)) mod 256 = int x) [0..<256]"
    by code_simp
  then show "x < 256 \<Longrightarrow> ?thesis" by (simp add: list_all_iff)
qed

lemma hex2bin_byte:
  assumes "d \<notin> {48..57} \<union> {97..102}"
  shows "hex2bin_loop d Take_low Take_low low out
      (hex2char (char_code c div 16) # hex2char (char_code c mod 16) # rest)
    = hex2bin_loop d Take_low Take_low (int (char_code c div 16)) (out @ [c]) rest"
proof -
  have h: "char_code c div 16 < 16" "char_code c mod 16 < 16"
    using char_code_less [of c] by (simp_all add: less_mult_imp_div_less)
  have "schar (hex2char (char_code c div 16)) \<noteq> d" "schar (hex2char (char_code c mod 16)) \<noteq> d"
    using hex_digit(2) [OF h(1)] hex_digit(2) [OF h(2)] assms by auto
  then show ?thesis
    by (simp add: hex_digit(1) [OF h(1)] hex_digit(1) [OF h(2)] nibbles [OF char_code_less])
qed

lemma hex2bin_delim:
  "delim_needed d \<Longrightarrow> hex2bin_loop d i st low out (char_of (nat d) # rest) = hex2bin_loop d i st low out rest"
proof -
  assume "delim_needed d"
  then have "schar (char_of (nat d)) = d" "d \<noteq> -1" by (auto simp: delim_needed_def schar_def)
  then show ?thesis by simp
qed

lemma hex2bin_loop_bin2hex:
  assumes "d \<notin> {48..57} \<union> {97..102}"
  shows "hex2bin_loop d Take_low Take_low low out (bin2hex b d False) = out @ b"
proof (induction b arbitrary: low out)
  case (Cons c b)
  then show ?case
    using hex2bin_byte [OF assms, of low out c] hex2bin_delim [of d]
    by (cases "delim_needed d") (simp_all add: bin2hex_def)
qed (simp add: bin2hex_def)

lemma hex2bin_bin2hex:
  "d \<notin> {48..57} \<union> {97..102} \<Longrightarrow> hex2bin (bin2hex b d False) d False = (if 2 \<le> length b then b else [])"
  by (simp add: hex2bin_def hex2bin_loop_bin2hex)

lemma hex2bin_skips: "hex2bin_loop d Skip_prefix Skip_prefix low out s = out"
  by (induction s) auto

lemma hex2bin_prefix: "hex2bin s d True = []"
  by (simp add: hex2bin_def hex2bin_skips)

section \<open>Number lemmas\<close>

lemma strtol_show_int:
  assumes "rest = [] \<or> \<not> is_digit (hd rest)"
  shows "strtol (show_int n @ rest) = (clamp_long n, rest)"
proof -
  have nat: "takeWhile is_digit (show_nat k @ rest) = show_nat k" "dropWhile is_digit (show_nat k @ rest) = rest" for k
  proof -
    have "\<forall>c \<in> set (show_nat k). is_digit c" by (simp add: is_digit_show_nat)
    then show "takeWhile is_digit (show_nat k @ rest) = show_nat k" "dropWhile is_digit (show_nat k @ rest) = rest"
      using assms by (cases rest; simp add: takeWhile_append dropWhile_append)+
  qed
  show ?thesis
  proof (cases "n < 0")
    case True
    have "\<not> is_space (CHR ''-'')" by (simp add: is_space_def less_eq_char_def)
    then show ?thesis using nat [of "nat (- n)"] True by (simp add: strtol_def show_int_def Let_def)
  next
    case False
    obtain c cs where s: "show_nat (nat n) = c # cs" by (cases "show_nat (nat n)") simp_all
    then have "is_digit c" using is_digit_show_nat [of c "nat n"] by simp
    then have "\<not> is_space c" "c \<noteq> CHR ''-''" "c \<noteq> CHR ''+''"
      by (auto simp: is_digit_def is_space_def less_eq_char_def)
    then have "dropWhile is_space (show_nat (nat n) @ rest) = show_nat (nat n) @ rest"
      "(case show_nat (nat n) @ rest of [] \<Rightarrow> (False, [])
        | c # cs \<Rightarrow> if c = CHR ''-'' then (True, cs) else if c = CHR ''+'' then (False, cs)
                else (False, show_nat (nat n) @ rest)) = (False, show_nat (nat n) @ rest)"
      by (simp_all add: s)
    then show ?thesis using nat [of "nat n"] False by (simp add: strtol_def show_int_def)
  qed
qed

definition int_range :: "int set" where
  "int_range = {- (2 ^ 31) ..< 2 ^ 31}"

lemma strtoi_show_int [simp]:
  "n \<in> int_range \<Longrightarrow> rest = [] \<or> \<not> is_digit (hd rest) \<Longrightarrow> strtoi (show_int n @ rest) = (n, rest)"
  by (simp add: strtoi_def strtol_show_int int_range_def clamp_long_def)

lemma strtoi_show_int_end [simp]: "n \<in> int_range \<Longrightarrow> strtoi (show_int n) = (n, [])"
  using strtoi_show_int [of n "[]"] by simp

lemma parse_numbers:
  assumes "\<not> is_digit d" "{a, b, c, e} \<subseteq> int_range"
  shows "parse2i (show_int a @ d # show_int b) d = (a, b)"
    and "parse3i (show_int a @ d # show_int b @ d # show_int c) d = (a, b, c)"
    and "parse4i (show_int a @ d # show_int b @ d # show_int c @ d # show_int e) d = (a, b, c, e)"
  using assms by (simp_all add: parse2i_def parse3i_def parse4i_def)

section \<open>Splitting by a string\<close>

lemma split_str_loop_empty: "split_str_loop delims out s = Some r \<Longrightarrow> delims = [] \<longrightarrow> False"
  by (erule split_str_loop.raw_induct [rotated, where P = "\<lambda>delims out s r. delims = [] \<longrightarrow> False"])
    (fastforce simp: find_from_empty)

lemma subst_all_skip:
  "find_from key s 0 = Some p \<Longrightarrow> key \<noteq> [] \<Longrightarrow>
    subst_all key [] s = take p s @ subst_all key [] (drop (p + length key) s) \<and> p + length key \<le> length s"
  using find_from_Some [of key s 0 p "[]"] by simp

lemma split_str_loop_spec:
  "delims \<noteq> [] \<Longrightarrow> [] \<notin> set out \<Longrightarrow>
    \<exists>r. split_str_loop delims out s = Some r \<and> concat r = concat out @ subst_all delims [] s \<and> [] \<notin> set r"
proof (induction "length s" arbitrary: out s rule: less_induct)
  case less
  show ?case
  proof (cases "find_from delims s 0")
    case None
    then show ?thesis using less.prems find_from_None [OF None] by (subst split_str_loop.simps) auto
  next
    case (Some p)
    note skip = subst_all_skip [OF Some less.prems(1)]
    define out' where "out' = out @ (if p > 0 then [take p s] else [])"
    have "s \<noteq> []" using skip less.prems(1) by auto
    then have o: "[] \<notin> set out'" "concat out' = concat out @ take p s" using less.prems(2) by (auto simp: out'_def)
    have "length (drop (p + length delims) s) < length s" using \<open>s \<noteq> []\<close> less.prems(1) by (cases delims) auto
    from less.hyps [OF this less.prems(1) o(1)] show ?thesis
      using skip o(2) by (subst split_str_loop.simps) (auto simp: Some out'_def [symmetric])
  qed
qed

lemma split_str_replace:
  "delims \<noteq> [] \<Longrightarrow> \<exists>r. split_str s delims = Some r \<and> replace s delims [] = Some (concat r) \<and> [] \<notin> set r"
  using split_str_loop_spec [of delims "[]" s] by (auto simp: split_str_def replace_cases)

lemma split_str_empty: "split_str s [] = None"
  using split_str_loop_empty [of "[]" "[]" s] by (cases "split_str s []") (auto simp: split_str_def)

section \<open>Directory prefixes\<close>

definition slashed :: "char \<Rightarrow> char" where
  "slashed c = (if c = CHR 0x5C then CHR ''/'' else c)"

definition dir_prefix :: "string \<Rightarrow> string \<Rightarrow> bool" where
  "dir_prefix t c = (c \<noteq> [] \<and> last c \<noteq> CHR ''/'' \<and> prefix c t)"

lemma dir_prefix_append: "dir_prefix t c \<Longrightarrow> dir_prefix (t @ u) c"
  by (simp add: dir_prefix_def)

definition at_start :: "string \<Rightarrow> bool" where
  "at_start p = (p = [] \<or> slashed (last p) = CHR ''/'')"

lemma at_start_snoc: "at_start (p @ [c]) \<longleftrightarrow> c = CHR 0x5C \<or> c = CHR ''/''"
  by (simp add: at_start_def slashed_def)

lemma dir_prefix_self: "\<not> at_start p \<Longrightarrow> dir_prefix (p @ u) p"
  by (auto simp: dir_prefix_def at_start_def slashed_def split: if_splits)

lemma dir_split_loop_result:
  "\<forall>c \<in> set calls. dir_prefix passed c \<Longrightarrow> fresh \<longleftrightarrow> at_start passed \<Longrightarrow>
    dir_split_loop oper passed fresh calls s = (t, r) \<Longrightarrow>
    map slashed t = map slashed (passed @ s) \<and> (\<forall>c \<in> set r. dir_prefix t c)"
proof (induction oper passed fresh calls s rule: dir_split_loop.induct)
  case (1 oper passed fresh calls)
  then show ?case using dir_prefix_self [of passed "[]"] by (cases fresh) auto
next
  case (2 oper passed fresh calls c cs)
  show ?case
  proof (cases "c = CHR 0x5C \<or> c = CHR ''/''")
    case sep: True
    then have sl: "slashed c = CHR ''/''" by (auto simp: slashed_def)
    show ?thesis
    proof (cases fresh)
      case True
      have "\<forall>x \<in> set calls. dir_prefix (passed @ [c]) x" using 2(4) by (simp add: dir_prefix_append)
      then show ?thesis using 2(1) [OF sep True] 2(6) True sep by (simp add: at_start_snoc)
    next
      case fresh: False
      then have new: "\<forall>x \<in> set (calls @ [passed]). dir_prefix (passed @ u) x" for u
        using 2(4,5) dir_prefix_self by (auto simp: dir_prefix_append)
      show ?thesis
      proof (cases "oper passed")
        case True
        then have "t = passed @ CHR ''/'' # cs" "r = calls @ [passed]" using fresh 2(6) sep by simp_all
        then show ?thesis using new sl by (simp add: slashed_def)
      next
        case False
        then have "dir_split_loop oper (passed @ [CHR ''/'']) True (calls @ [passed]) cs = (t, r)"
          using fresh 2(6) sep by simp
        from 2(2) [OF sep fresh False new _ this] show ?thesis
          using sl by (simp add: at_start_snoc) (simp add: slashed_def)
      qed
    qed
  next
    case False
    have "\<forall>x \<in> set calls. dir_prefix (passed @ [c]) x" using 2(4) by (simp add: dir_prefix_append)
    then show ?thesis using 2(3) [OF False] 2(6) False by (simp add: at_start_snoc)
  qed
qed

lemma dir_split_result:
  "map slashed (fst (dir_split oper s)) = map slashed s
    \<and> (\<forall>c \<in> set (snd (dir_split oper s)). dir_prefix (fst (dir_split oper s)) c)"
  using dir_split_loop_result [of "[]" "[]" True oper s]
  by (cases "dir_split oper s") (simp add: dir_split_def at_start_def)

section \<open>Properties\<close>

text \<open>
  Trimming removes the characters outside \<open>0x21..0x7E\<close> at both ends and nothing else. The C string
  version returns the new length, except 1 for a string that becomes empty; the \<^verbatim>\<open>std::string\<close>
  version empties a string that starts with a NUL.
\<close>

theorem strtrim_visible:
  "strtrim_c s = (trimmed s, if s \<noteq> [] \<and> trimmed s = [] then 1 else length (trimmed s))
    \<and> strtrim s = (if s \<noteq> [] \<and> hd s = CHR 0x00 then [] else trimmed s)
    \<and> (\<exists>a b. s = a @ trimmed s @ b \<and> filter is_visible_char (a @ b) = [])
    \<and> (trimmed s = [] \<or> (is_visible_char (hd (trimmed s)) \<and> is_visible_char (last (trimmed s))))"
proof (intro conjI)
  show "strtrim_c s = (trimmed s, if s \<noteq> [] \<and> trimmed s = [] then 1 else length (trimmed s))"
    by (cases "s = []"; cases "trimmed s = []") (simp_all add: strtrim_c_trims trimmed_Nil)
  show "strtrim s = (if s \<noteq> [] \<and> hd s = CHR 0x00 then [] else trimmed s)"
  proof (cases "s \<noteq> [] \<and> hd s = CHR 0x00")
    case True
    then show ?thesis by (simp add: strtrim_def strtrim_n_def)
  next
    case False
    then have "s = [] \<or> hd s \<noteq> CHR 0x00" by blast
    then show ?thesis using False by (simp only: strtrim_trims if_False)
  qed
  show "\<exists>a b. s = a @ trimmed s @ b \<and> filter is_visible_char (a @ b) = []"
    by (rule trimmed_parts)
  show "trimmed s = [] \<or> (is_visible_char (hd (trimmed s)) \<and> is_visible_char (last (trimmed s)))"
    by (rule trimmed_ends)
qed

text \<open>
  Replacing and splitting by a string end for every key but the empty one, for which they never
  return. What they return: every occurrence from the left replaced, and the non-empty pieces
  between the occurrences.
\<close>

theorem replace_terminates:
  "(if key = [] then replace s key rep = None \<and> split_str s key = None
    else replace s key rep = Some (subst_all key rep s)
      \<and> (\<exists>r. split_str s key = Some r \<and> concat r = subst_all key [] s \<and> [] \<notin> set r))"
  using split_str_replace [of key s] by (auto simp: replace_cases split_str_empty)

text \<open>
  Hexadecimal text read back gives the buffer when the delimiter is not a digit of the text, except
  that a single byte reads back as the empty string; and reading with \<^verbatim>\<open>prefix\<close> gives the empty
  string for every text, as its state machine never leaves its first state.
\<close>

theorem hex_text_roundtrip:
  "d \<notin> {48..57} \<union> {97..102} \<Longrightarrow>
    hex2bin (bin2hex b d False) d False = (if length b = 1 then [] else b)
    \<and> hex2bin (bin2hex b d True) d True = []"
  using hex2bin_bin2hex [of d b] hex2bin_prefix by (cases b; cases "tl b") auto

lemma hex_text_roundtrip_witness:
  "hex2bin (bin2hex ''GPS'' 58 False) 58 False = ''GPS'' \<and> hex2bin (bin2hex ''GPS'' 58 True) 58 True = []"
  using hex_text_roundtrip [of 58 "''GPS''"] by simp

end
