(* ===== verification/Json.thy ===== *)
theory Json
  imports CLib
begin

text \<open>
  The JSON reader and printer of the server, \<^verbatim>\<open>refs/httpserver/thelib/utils/cjson.cpp\<close>. A C string is
  its characters before the NUL; a position in it is the suffix from there on, and the empty suffix
  is the NUL. A pointer that moves behind the NUL, and a write behind an allocation, give \<open>Overrun\<close>.
  The children of an array or object are a list. Allocation does not fail. The arithmetic of
  \<^verbatim>\<open>double\<close> is an argument, \<open>doubles\<close>.
\<close>

section \<open>Values and results\<close>

datatype 'd json = Null | Boolean bool | Integer int | Real 'd | String string
  | Array "'d json list" | Object "(string \<times> 'd json) list"

text \<open>\<open>Failed\<close> carries the error pointer \<^verbatim>\<open>ep\<close>; \<open>Stuck\<close> is the model's: the fuel is used up.\<close>

datatype 'a parsed = Parsed 'a string | Failed string | Overrun | Stuck

fun map_parsed :: "('a \<Rightarrow> 'b) \<Rightarrow> 'a parsed \<Rightarrow> 'b parsed" where
  "map_parsed f (Parsed x rest) = Parsed (f x) rest"
| "map_parsed f (Failed ep) = Failed ep"
| "map_parsed f Overrun = Overrun"
| "map_parsed f Stuck = Stuck"

fun and_then :: "'a parsed \<Rightarrow> ('a \<Rightarrow> string \<Rightarrow> 'b parsed) \<Rightarrow> 'b parsed" where
  "and_then (Parsed x rest) k = k x rest"
| "and_then (Failed ep) k = Failed ep"
| "and_then Overrun k = Overrun"
| "and_then Stuck k = Stuck"

text \<open>
  What the source does with a \<^verbatim>\<open>double\<close>: the value of sign, integer part, digits of the fraction and
  exponent; the tests of \<^verbatim>\<open>print_real\<close>; the conversion to \<^verbatim>\<open>int\<close>; and the three formats.
\<close>

record 'd doubles =
  dbl_value :: "int \<Rightarrow> int \<Rightarrow> string \<Rightarrow> int \<Rightarrow> 'd"
  dbl_same :: "'d \<Rightarrow> 'd \<Rightarrow> bool"
  dbl_in_int :: "'d \<Rightarrow> bool"
  dbl_to_int :: "'d \<Rightarrow> int"
  dbl_integral :: "'d \<Rightarrow> bool"
  dbl_extreme :: "'d \<Rightarrow> bool"
  dbl_f0 :: "'d \<Rightarrow> string"
  dbl_e :: "'d \<Rightarrow> string"
  dbl_f :: "'d \<Rightarrow> string"

definition QUOTE :: char where "QUOTE = CHR 0x22"
definition BACKSLASH :: char where "BACKSLASH = CHR 0x5C"

definition c_string :: "string \<Rightarrow> string" where
  "c_string s = takeWhile (\<lambda>c. c \<noteq> CHR 0x00) s"

definition skip_space :: "string \<Rightarrow> string" where
  "skip_space s = dropWhile (\<lambda>c. char_code c \<le> 32) s"

fun starts :: "char \<Rightarrow> string \<Rightarrow> bool" where
  "starts c [] = False"
| "starts c (x # xs) = (x = c)"

section \<open>Numbers\<close>

definition wrap64 :: "int \<Rightarrow> int" where
  "wrap64 n = (n + 2 ^ 63) mod 2 ^ 64 - 2 ^ 63"

text \<open>The digits from a position on, accumulated as the source does, and the position behind them.\<close>

fun take_digits :: "int \<Rightarrow> string \<Rightarrow> int \<times> string" where
  "take_digits acc [] = (acc, [])"
| "take_digits acc (c # cs) =
     (if is_digit c then take_digits (wrap64 (acc * 10 + int (digit_value c))) cs else (acc, c # cs))"

definition parse_exponent :: "string \<Rightarrow> int \<times> string" where
  "parse_exponent s =
     (case s of
        c # cs \<Rightarrow>
          (if c = CHR ''e'' \<or> c = CHR ''E'' then
             (let (sgn, t) =
                (case cs of
                   d # ds \<Rightarrow> (if d = CHR ''+'' then (1, ds) else if d = CHR ''-'' then (-1, ds) else (1, cs))
                 | [] \<Rightarrow> (1, cs))
              in (sgn * c_int (int (digits_value 0 (takeWhile is_digit t))), dropWhile is_digit t))
           else (0, s))
      | [] \<Rightarrow> (0, s))"

definition parse_integer :: "string \<Rightarrow> int \<times> string" where
  "parse_integer s1 =
     (let s2 = (if starts (CHR ''0'') s1 then tl s1 else s1)
      in if s2 \<noteq> [] \<and> CHR ''1'' \<le> hd s2 \<and> hd s2 \<le> CHR ''9'' then take_digits 0 s2 else (0, s2))"

definition parse_fraction :: "string \<Rightarrow> string \<times> string" where
  "parse_fraction s3 =
     (if starts (CHR ''.'') s3 \<and> tl s3 \<noteq> [] \<and> is_digit (hd (tl s3))
      then (takeWhile is_digit (tl s3), dropWhile is_digit (tl s3)) else ([], s3))"

definition parse_number :: "'d doubles \<Rightarrow> string \<Rightarrow> 'd json \<times> string" where
  "parse_number D num =
     (let (sgn, s1) = (if starts (CHR ''-'') num then (-1, tl num) else (1, num));
          (n, s3) = parse_integer s1
      in if \<not> (starts (CHR ''.'') s3 \<or> starts (CHR ''e'') s3 \<or> starts (CHR ''E'') s3) then (Integer n, s3)
         else
           let (frac, s4) = parse_fraction s3;
               (e, s5) = parse_exponent s4
           in (Real (dbl_value D sgn n frac e), s5))"

section \<open>Strings\<close>

definition hex_value :: "char \<Rightarrow> nat option" where
  "hex_value c =
     (if CHR ''0'' \<le> c \<and> c \<le> CHR ''9'' then Some (char_code c - 48)
      else if CHR ''A'' \<le> c \<and> c \<le> CHR ''F'' then Some (10 + (char_code c - 65))
      else if CHR ''a'' \<le> c \<and> c \<le> CHR ''f'' then Some (10 + (char_code c - 97))
      else None)"

text \<open>\<^verbatim>\<open>parse_hex4\<close> stops at the first character that is no digit, the NUL included, with 0.\<close>

fun hex_digits :: "nat \<Rightarrow> nat \<Rightarrow> string \<Rightarrow> nat" where
  "hex_digits 0 h s = h"
| "hex_digits (Suc n) h [] = 0"
| "hex_digits (Suc n) h (c # cs) =
     (case hex_value c of None \<Rightarrow> 0 | Some v \<Rightarrow> hex_digits n (h * 16 + v) cs)"

definition parse_hex4 :: "string \<Rightarrow> nat" where
  "parse_hex4 s = hex_digits 4 0 s"

text \<open>The first pass: the length to allocate. \<open>None\<close>: a backslash before the NUL.\<close>

fun string_len :: "string \<Rightarrow> nat option" where
  "string_len [] = Some 0"
| "string_len (c # cs) =
     (if c = QUOTE then Some 0
      else if c = BACKSLASH then
        (case cs of [] \<Rightarrow> None | _ # cs' \<Rightarrow> map_option Suc (string_len cs'))
      else map_option Suc (string_len cs))"

definition utf8 :: "nat \<Rightarrow> string" where
  "utf8 uc =
     map char_of
      (if uc < 0x80 then [uc]
       else if uc < 0x800 then [0xC0 + uc div 64, 0x80 + uc mod 64]
       else if uc < 0x10000 then [0xE0 + uc div 4096, 0x80 + uc div 64 mod 64, 0x80 + uc mod 64]
       else [0xF0 + uc div 262144, 0x80 + uc div 4096 mod 64, 0x80 + uc div 64 mod 64, 0x80 + uc mod 64])"

text \<open>
  An escape \<^verbatim>\<open>u\<close>, from the position behind it: what is written and the position where the loop goes
  on. The source adds 4 to its pointer whatever was there.
\<close>

definition unicode_escape :: "string \<Rightarrow> (string \<times> string) option" where
  "unicode_escape s =
     (if length s < 4 then None
      else
        let uc = parse_hex4 s; t = drop 4 s
        in if (0xDC00 \<le> uc \<and> uc \<le> 0xDFFF) \<or> uc = 0 then Some ([], t)
           else if 0xD800 \<le> uc \<and> uc \<le> 0xDBFF then
             (if \<not> (starts BACKSLASH t \<and> starts (CHR ''u'') (tl t)) then Some ([], t)
              else if length t < 6 then None
              else
                let uc2 = parse_hex4 (drop 2 t)
                in if uc2 < 0xDC00 \<or> uc2 > 0xDFFF then Some ([], drop 6 t)
                   else Some (utf8 (0x10000 + (uc mod 1024 * 1024 + uc2 mod 1024)), drop 6 t))
           else Some (utf8 uc, t))"

definition simple_escape :: "char \<Rightarrow> char" where
  "simple_escape c =
     (if c = CHR ''b'' then CHR 0x08 else if c = CHR ''f'' then CHR 0x0C else if c = CHR ''n'' then CHR 0x0A
      else if c = CHR ''r'' then CHR 0x0D else if c = CHR ''t'' then CHR 0x09 else c)"

lemma unicode_escape_shorter: "unicode_escape s = Some (w, t) \<Longrightarrow> length t \<le> length s"
  by (auto simp: unicode_escape_def Let_def split: if_splits)

text \<open>The second pass: the text written and the position where it stopped.\<close>

function unescape :: "string \<Rightarrow> (string \<times> string) option" where
  "unescape s =
     (case s of
        [] \<Rightarrow> Some ([], [])
      | c # cs \<Rightarrow>
          if c = QUOTE then Some ([], s)
          else if c \<noteq> BACKSLASH then map_option (\<lambda>(w, t). (c # w, t)) (unescape cs)
          else (case cs of
             [] \<Rightarrow> None
           | d # ds \<Rightarrow>
               if d = CHR ''u'' then
                 (case unicode_escape ds of
                    None \<Rightarrow> None
                  | Some (v, t) \<Rightarrow> map_option (\<lambda>(w, t). (v @ w, t)) (unescape t))
               else map_option (\<lambda>(w, t). (simple_escape d # w, t)) (unescape ds)))"
  by pat_completeness auto

termination
  by (relation "measure length") (auto dest: unicode_escape_shorter)

declare unescape.simps [simp del]

text \<open>\<^verbatim>\<open>parse_string\<close>: both passes, and the buffer of \<^verbatim>\<open>len + 1\<close> bytes the text and its NUL go to.\<close>

definition parse_string :: "string \<Rightarrow> string parsed" where
  "parse_string str =
     (if \<not> starts QUOTE str then Failed str
      else case string_len (tl str) of
        None \<Rightarrow> Overrun
      | Some len \<Rightarrow>
          (case unescape (tl str) of
             None \<Rightarrow> Overrun
           | Some (out, rest) \<Rightarrow>
               if length out + 1 > len + 1 then Overrun
               else Parsed out (if starts QUOTE rest then tl rest else rest)))"

section \<open>The parser\<close>

text \<open>
  \<^verbatim>\<open>parse_value\<close>, \<^verbatim>\<open>parse_array\<close> and \<^verbatim>\<open>parse_object\<close>, each loop of the latter two a function. The
  fuel bounds the depth of the calls and the rounds of the loops together.
\<close>

definition has_prefix :: "string \<Rightarrow> string \<Rightarrow> bool" where
  "has_prefix p s = (take (length p) s = p)"

fun parse_value :: "'d doubles \<Rightarrow> nat \<Rightarrow> string \<Rightarrow> 'd json parsed"
  and parse_items :: "'d doubles \<Rightarrow> nat \<Rightarrow> 'd json list \<Rightarrow> string \<Rightarrow> 'd json parsed"
  and parse_members :: "'d doubles \<Rightarrow> nat \<Rightarrow> (string \<times> 'd json) list \<Rightarrow> string \<Rightarrow> 'd json parsed" where
  "parse_value D 0 s = Stuck"
| "parse_value D (Suc n) s =
     (if has_prefix ''null'' s then Parsed Null (drop 4 s)
      else if has_prefix ''false'' s then Parsed (Boolean False) (drop 5 s)
      else if has_prefix ''true'' s then Parsed (Boolean True) (drop 4 s)
      else if starts QUOTE s then map_parsed String (parse_string s)
      else if starts (CHR ''-'') s \<or> (s \<noteq> [] \<and> is_digit (hd s)) then
        (let (v, rest) = parse_number D s in Parsed v rest)
      else if starts (CHR ''['') s then
        (let t = skip_space (tl s)
         in if starts (CHR '']'') t then Parsed (Array []) (tl t) else parse_items D n [] t)
      else if starts (CHR ''{'') s then
        (let t = skip_space (tl s)
         in if starts (CHR ''}'') t then Parsed (Object []) (tl t) else parse_members D n [] t)
      else Failed s)"
| "parse_items D 0 xs s = Stuck"
| "parse_items D (Suc n) xs s =
     and_then (parse_value D n (skip_space s)) (\<lambda>x rest.
       let t = skip_space rest
       in if starts (CHR '','') t then parse_items D n (xs @ [x]) (tl t)
          else if starts (CHR '']'') t then Parsed (Array (xs @ [x])) (tl t)
          else Failed t)"
| "parse_members D 0 xs s = Stuck"
| "parse_members D (Suc n) xs s =
     and_then (parse_string (skip_space s)) (\<lambda>name rest.
       let t = skip_space rest
       in if \<not> starts (CHR '':'') t then Failed t
          else and_then (parse_value D n (skip_space (tl t))) (\<lambda>x rest'.
            let t' = skip_space rest'
            in if starts (CHR '','') t' then parse_members D n (xs @ [(name, x)]) (tl t')
               else if starts (CHR ''}'') t' then Parsed (Object (xs @ [(name, x)])) (tl t')
               else Failed t'))"

definition fuel_for :: "string \<Rightarrow> nat" where
  "fuel_for s = 2 * length s + 1"

definition cJSON_ParseWithOpts :: "'d doubles \<Rightarrow> bool \<Rightarrow> string \<Rightarrow> 'd json parsed" where
  "cJSON_ParseWithOpts D require_null_terminated s =
     (let v = skip_space (c_string s)
      in and_then (parse_value D (fuel_for v) v) (\<lambda>x rest.
        if require_null_terminated then
          (let t = skip_space rest in if t \<noteq> [] then Failed t else Parsed x t)
        else Parsed x rest))"

definition cJSON_Parse :: "'d doubles \<Rightarrow> string \<Rightarrow> 'd json parsed" where
  "cJSON_Parse D s = cJSON_ParseWithOpts D False s"

section \<open>The printer\<close>

definition hex_char :: "nat \<Rightarrow> char" where
  "hex_char n = char_of (if n < 10 then 48 + n else 87 + n)"

definition escape :: "char \<Rightarrow> string" where
  "escape c =
     (if char_code c > 31 \<and> c \<noteq> QUOTE \<and> c \<noteq> BACKSLASH then [c]
      else BACKSLASH #
        (if c = BACKSLASH then [BACKSLASH] else if c = QUOTE then [QUOTE]
         else if c = CHR 0x08 then ''b'' else if c = CHR 0x0C then ''f'' else if c = CHR 0x0A then ''n''
         else if c = CHR 0x0D then ''r'' else if c = CHR 0x09 then ''t''
         else ''u00'' @ [hex_char (char_code c div 16), hex_char (char_code c mod 16)]))"

definition escape_cost :: "char \<Rightarrow> nat" where
  "escape_cost c =
     (if c \<in> {QUOTE, BACKSLASH, CHR 0x08, CHR 0x0C, CHR 0x0A, CHR 0x0D, CHR 0x09} then 2
      else if char_code c < 32 then 6 else 1)"

text \<open>The text of an allocation of \<open>len\<close> bytes, its NUL included.\<close>

definition in_buffer :: "nat \<Rightarrow> string \<Rightarrow> string outcome" where
  "in_buffer len text = (if length text + 1 \<le> len then Returns text else OutOfBounds)"

definition print_string_ptr :: "string \<Rightarrow> string outcome" where
  "print_string_ptr s =
     in_buffer (sum_list (map escape_cost s) + 3) (QUOTE # concat (map escape s) @ [QUOTE])"

definition print_real :: "'d doubles \<Rightarrow> 'd \<Rightarrow> string" where
  "print_real D v =
     (let d = v
      in if dbl_same D v d \<and> dbl_in_int D d then show_int (dbl_to_int D v)
         else if dbl_integral D d then dbl_f0 D d
         else if dbl_extreme D d then dbl_e D d
         else dbl_f D d)"

definition indent :: "nat \<Rightarrow> string" where
  "indent n = replicate (2 * n) (CHR '' '')"

fun compose_items :: "bool \<Rightarrow> string list \<Rightarrow> string" where
  "compose_items fmt [] = []"
| "compose_items fmt [e] = e"
| "compose_items fmt (e # es) = e @ '','' @ (if fmt then '' '' else []) @ compose_items fmt es"

fun compose_members :: "bool \<Rightarrow> nat \<Rightarrow> (string \<times> string) list \<Rightarrow> string" where
  "compose_members fmt depth [] = []"
| "compose_members fmt depth ((n, e) # ms) =
     (if fmt then indent depth else []) @ n @ '':'' @ (if fmt then indent 1 else []) @ e
      @ (if ms \<noteq> [] then '','' else []) @ (if fmt then [CHR 0x0A] else []) @ compose_members fmt depth ms"

definition array_len :: "bool \<Rightarrow> string list \<Rightarrow> nat" where
  "array_len fmt es = 5 + sum_list (map (\<lambda>e. length e + 2 + (if fmt then 1 else 0)) es)"

definition object_len :: "bool \<Rightarrow> nat \<Rightarrow> (string \<times> string) list \<Rightarrow> nat" where
  "object_len fmt depth ms = 7 + (if fmt then depth * 2 else 0)
     + sum_list (map (\<lambda>(n, e). length e + length n + 2 + (if fmt then depth * 2 + 2 + 1 else 0)) ms)"

definition print_array :: "bool \<Rightarrow> string list \<Rightarrow> string outcome" where
  "print_array fmt es =
     (if es = [] then in_buffer 3 ''[]''
      else in_buffer (array_len fmt es) (CHR ''['' # compose_items fmt es @ '']''))"

text \<open>
  \<open>depth\<close> is that of the object itself; the members are one deeper. The object is written to its buffer, of
  \<open>cap\<close> bytes, and then \<^verbatim>\<open>assert(len >= write_size)\<close> compares what was written with the length the code had
  computed. The builds of the repository keep assertions.
\<close>

definition assert_written :: "nat \<Rightarrow> string \<Rightarrow> string outcome" where
  "assert_written len text = (if length text + 1 \<le> len then Returns text else Aborts)"

definition in_asserted_buffer :: "nat \<Rightarrow> nat \<Rightarrow> string \<Rightarrow> string outcome" where
  "in_asserted_buffer cap len text = bind_outcome (in_buffer cap text) (assert_written len)"

definition print_object :: "bool \<Rightarrow> nat \<Rightarrow> (string \<times> string) list \<Rightarrow> string outcome" where
  "print_object fmt depth ms =
     (if ms = [] then
        in_asserted_buffer (if fmt then depth + 4 else 3) (if fmt then 3 + depth * 2 else 3)
          (CHR ''{'' # (if fmt then CHR 0x0A # indent (depth - 1) else []) @ ''}'')
      else
        in_asserted_buffer (object_len fmt (depth + 1) ms) (object_len fmt (depth + 1) ms)
          (CHR ''{'' # (if fmt then [CHR 0x0A] else []) @ compose_members fmt (depth + 1) ms
            @ (if fmt then indent depth else []) @ ''}''))"

fun print_value :: "'d doubles \<Rightarrow> bool \<Rightarrow> nat \<Rightarrow> 'd json \<Rightarrow> string outcome"
  and print_items :: "'d doubles \<Rightarrow> bool \<Rightarrow> nat \<Rightarrow> 'd json list \<Rightarrow> string list outcome"
  and print_members :: "'d doubles \<Rightarrow> bool \<Rightarrow> nat \<Rightarrow> (string \<times> 'd json) list \<Rightarrow> (string \<times> string) list outcome" where
  "print_value D fmt depth Null = Returns ''null''"
| "print_value D fmt depth (Boolean b) = Returns (if b then ''true'' else ''false'')"
| "print_value D fmt depth (Real d) = Returns (print_real D d)"
| "print_value D fmt depth (Integer n) = Returns (show_int n)"
| "print_value D fmt depth (String s) = print_string_ptr s"
| "print_value D fmt depth (Array xs) =
     bind_outcome (print_items D fmt (depth + 1) xs) (print_array fmt)"
| "print_value D fmt depth (Object ms) =
     bind_outcome (print_members D fmt (depth + 1) ms) (print_object fmt depth)"
| "print_items D fmt depth [] = Returns []"
| "print_items D fmt depth (x # xs) =
     bind_outcome (print_value D fmt depth x) (\<lambda>e.
     bind_outcome (print_items D fmt depth xs) (\<lambda>es. Returns (e # es)))"
| "print_members D fmt depth [] = Returns []"
| "print_members D fmt depth ((name, x) # ms) =
     bind_outcome (print_string_ptr name) (\<lambda>n.
     bind_outcome (print_value D fmt depth x) (\<lambda>e.
     bind_outcome (print_members D fmt depth ms) (\<lambda>es. Returns ((n, e) # es))))"

definition cJSON_Print :: "'d doubles \<Rightarrow> bool \<Rightarrow> 'd json \<Rightarrow> string outcome" where
  "cJSON_Print D formatted item = print_value D formatted 0 item"

definition cJSON_PrintUnformatted :: "'d doubles \<Rightarrow> 'd json \<Rightarrow> string outcome" where
  "cJSON_PrintUnformatted D item = print_value D False 0 item"

end
