(* ===== verification/JsonObject.thy ===== *)
theory JsonObject
  imports Json
begin

text \<open>
  The accessor class of the server's handlers, \<^verbatim>\<open>refs/httpserver/thelib/utils/cjson_wrapper.cpp\<close>, on the
  values of \<^theory_text>\<open>Json\<close>. An object of the class is a pointer: \<open>None\<close> is \<^verbatim>\<open>isNil\<close>. The members the
  non-const index operator makes are updates in place of the tree they belong to.
\<close>

type_synonym 'd obj = "'d json option"

section \<open>Reading\<close>

definition GetArraySize :: "'d json \<Rightarrow> nat" where
  "GetArraySize j = (case j of Array xs \<Rightarrow> length xs | Object ms \<Rightarrow> length ms | _ \<Rightarrow> 0)"

definition GetArrayItem :: "'d json list \<Rightarrow> int \<Rightarrow> 'd obj" where
  "GetArrayItem xs item = (if nat item < length xs then Some (xs ! nat item) else None)"

fun GetObjectItem :: "(string \<times> 'd json) list \<Rightarrow> string \<Rightarrow> 'd obj" where
  "GetObjectItem [] key = None"
| "GetObjectItem ((name, v) # ms) key = (if stricmp_eq name key then Some v else GetObjectItem ms key)"

definition get_object :: "'d obj \<Rightarrow> string \<Rightarrow> 'd obj" where
  "get_object obj key = (case obj of Some (Object ms) \<Rightarrow> GetObjectItem ms key | _ \<Rightarrow> None)"

definition as_int :: "'d doubles \<Rightarrow> int \<Rightarrow> 'd obj \<Rightarrow> int" where
  "as_int D dflt obj =
     (case obj of
        Some (Integer n) \<Rightarrow> c_int n
      | Some (Real d) \<Rightarrow> dbl_to_int D d
      | Some (String s) \<Rightarrow> atoi s
      | _ \<Rightarrow> dflt)"

text \<open>The union is read as \<^verbatim>\<open>bool\<close>, its lowest byte; of a double that is an argument.\<close>

definition as_bool :: "('d \<Rightarrow> bool) \<Rightarrow> bool \<Rightarrow> 'd obj \<Rightarrow> bool" where
  "as_bool low_byte dflt obj =
     (case obj of
        Some (Boolean b) \<Rightarrow> b
      | Some (Integer n) \<Rightarrow> n mod 256 \<noteq> 0
      | Some (Real d) \<Rightarrow> low_byte d
      | Some (String s) \<Rightarrow> atoi s \<noteq> 0
      | _ \<Rightarrow> dflt)"

definition as_string :: "string \<Rightarrow> 'd obj \<Rightarrow> string" where
  "as_string dflt obj = (case obj of Some (String s) \<Rightarrow> s | _ \<Rightarrow> dflt)"

definition getInt :: "'d doubles \<Rightarrow> 'd obj \<Rightarrow> string \<Rightarrow> int \<Rightarrow> int" where
  "getInt D obj key dflt = as_int D dflt (get_object obj key)"

definition getBool :: "('d \<Rightarrow> bool) \<Rightarrow> 'd obj \<Rightarrow> string \<Rightarrow> bool" where
  "getBool low_byte obj key = as_bool low_byte False (get_object obj key)"

definition getString :: "'d obj \<Rightarrow> string \<Rightarrow> string" where
  "getString obj key = as_string [] (get_object obj key)"

definition hasMember :: "'d obj \<Rightarrow> string \<Rightarrow> bool" where
  "hasMember obj key = (get_object obj key \<noteq> None)"

section \<open>Writing\<close>

text \<open>
  The assignments: a null node takes the type of the value, a node of another type stays. An \<^verbatim>\<open>int\<close> is
  written to the lower half of the integer's eight bytes, which are zero in a null node.
\<close>

fun set_int :: "int \<Rightarrow> 'd json \<Rightarrow> 'd json" where
  "set_int v Null = Integer (v mod 2 ^ 32)"
| "set_int v (Integer n) = Integer (n div 2 ^ 32 * 2 ^ 32 + v mod 2 ^ 32)"
| "set_int v j = j"

fun set_bool :: "bool \<Rightarrow> 'd json \<Rightarrow> 'd json" where
  "set_bool v Null = Boolean v"
| "set_bool v (Boolean b) = Boolean v"
| "set_bool v j = j"

fun set_real :: "'d \<Rightarrow> 'd json \<Rightarrow> 'd json" where
  "set_real v Null = Real v"
| "set_real v (Real d) = Real v"
| "set_real v j = j"

fun set_string :: "string \<Rightarrow> 'd json \<Rightarrow> 'd json" where
  "set_string v Null = String v"
| "set_string v (String s) = String v"
| "set_string v j = j"

text \<open>
  \<open>append\<close> to a node. \<open>append_obj\<close> is \<^verbatim>\<open>append\<close> of an object that may be nil, which becomes an array.
\<close>

fun append_node :: "'d json \<Rightarrow> 'd json \<Rightarrow> 'd json" where
  "append_node x Null = Array [x]"
| "append_node x (Array xs) = Array (xs @ [x])"
| "append_node x j = j"

definition append_obj :: "'d json \<Rightarrow> 'd obj \<Rightarrow> 'd obj" where
  "append_obj x obj = Some (append_node x (case obj of None \<Rightarrow> Array [] | Some j \<Rightarrow> j))"

text \<open>
  The non-const index operator followed by an update \<open>f\<close> of the node it gives: the first member of
  that name, or a new null member behind the others; a nil or null object becomes an object first.
  A node that is no object has no members and stays.
\<close>

fun set_member :: "string \<Rightarrow> ('d json \<Rightarrow> 'd json) \<Rightarrow> (string \<times> 'd json) list \<Rightarrow> (string \<times> 'd json) list" where
  "set_member key f [] = [(key, f Null)]"
| "set_member key f ((name, v) # ms) =
     (if stricmp_eq name key then (name, f v) # ms else (name, v) # set_member key f ms)"

fun at_member :: "string \<Rightarrow> ('d json \<Rightarrow> 'd json) \<Rightarrow> 'd json \<Rightarrow> 'd json" where
  "at_member key f Null = Object (set_member key f [])"
| "at_member key f (Object ms) = Object (set_member key f ms)"
| "at_member key f j = j"

definition put :: "string \<Rightarrow> ('d json \<Rightarrow> 'd json) \<Rightarrow> 'd obj \<Rightarrow> 'd obj" where
  "put key f obj = Some (at_member key f (case obj of None \<Rightarrow> Object [] | Some j \<Rightarrow> j))"

text \<open>
  \<^verbatim>\<open>setValue(const object&)\<close> on a null node copies the value's type first; of a nil object that reads
  through the null pointer. A double passes through \<^verbatim>\<open>float\<close>, \<open>narrow\<close>; an object copies no members.
\<close>

definition set_object :: "('d \<Rightarrow> 'd) \<Rightarrow> 'd obj \<Rightarrow> 'd json outcome" where
  "set_object narrow v =
     (case v of
        None \<Rightarrow> OutOfBounds
      | Some (Real d) \<Rightarrow> Returns (Real (narrow d))
      | Some (Object ms) \<Rightarrow> Returns (Object [])
      | Some x \<Rightarrow> Returns x)"

definition parseString :: "'d doubles \<Rightarrow> string \<Rightarrow> 'd obj outcome" where
  "parseString D value =
     (case cJSON_Parse D value of
        Parsed v rest \<Rightarrow> Returns (Some v)
      | Failed ep \<Rightarrow> Returns None
      | _ \<Rightarrow> OutOfBounds)"

definition toString :: "'d doubles \<Rightarrow> 'd obj \<Rightarrow> string outcome" where
  "toString D obj = (case obj of None \<Rightarrow> Returns [] | Some j \<Rightarrow> cJSON_Print D False j)"

section \<open>Reading back what was written\<close>

lemma stricmp_eq_refl [simp]: "stricmp_eq k k"
  by (simp add: stricmp_eq_def)

lemma stricmp_eq_cong: "stricmp_eq a b \<Longrightarrow> stricmp_eq c a \<longleftrightarrow> stricmp_eq c b"
  by (simp add: stricmp_eq_def)

lemma GetObjectItem_set_member:
  "GetObjectItem (set_member key f ms) k =
     (if stricmp_eq k key then Some (f (case GetObjectItem ms key of None \<Rightarrow> Null | Some v \<Rightarrow> v))
      else GetObjectItem ms k)"
  by (induction ms) (auto simp: stricmp_eq_def)

definition is_node :: "'d obj \<Rightarrow> bool" where
  "is_node obj = (case obj of None \<Rightarrow> True | Some (Object ms) \<Rightarrow> True | Some Null \<Rightarrow> True | _ \<Rightarrow> False)"

lemma is_node_simps [simp]: "is_node None" "is_node (Some (Object ms))" "is_node (Some Null)"
  by (simp_all add: is_node_def)

lemma get_object_put:
  "is_node obj \<Longrightarrow> get_object (put key f obj) k =
     (if stricmp_eq k key then Some (f (case get_object obj key of None \<Rightarrow> Null | Some v \<Rightarrow> v))
      else get_object obj k)"
  by (auto simp: put_def get_object_def GetObjectItem_set_member is_node_def stricmp_eq_def
      split: option.splits json.splits)

lemma is_node_put [simp]: "is_node obj \<Longrightarrow> is_node (put key f obj)"
  by (auto simp: put_def is_node_def split: option.splits json.splits)

end
