(* ===== verification/SqlClient.thy ===== *)
theory SqlClient
  imports CLib
begin

text \<open>
  The database client of the server, \<^verbatim>\<open>refs/httpserver/mysql_client.cpp\<close> and the result sets of
  \<^verbatim>\<open>thelib/utils/mysqlcc.cpp\<close>. The MySQL library is an argument, a record of functions on a state \<open>'w\<close>
  of the world outside the program; the model records the statements handed to it. A row is its
  columns as text: the statements of the server store no \<^verbatim>\<open>NULL\<close>.
\<close>

section \<open>The library\<close>

text \<open>
  The result of \<^verbatim>\<open>mysql_real_query\<close> followed by \<^verbatim>\<open>mysql_store_result\<close>: an error, success without a
  result set, or its rows.
\<close>

datatype query_result = Query_failed | No_rows_stored | Rows "string list list"

record 'w mysql =
  mysql_query :: "string \<Rightarrow> 'w \<Rightarrow> query_result \<times> 'w"
  mysql_connected :: "'w \<Rightarrow> bool"
  mysql_errno :: "'w \<Rightarrow> int"
  mysql_ping_ok :: "'w \<Rightarrow> bool"
  mysql_reopen :: "'w \<Rightarrow> 'w"
  mysql_insert_id :: "'w \<Rightarrow> nat"

record 'w client =
  world :: 'w
  sent :: "string list"

definition CR_SERVER_GONE_ERROR :: int where "CR_SERVER_GONE_ERROR = 2006"
definition CR_SERVER_LOST :: int where "CR_SERVER_LOST = 2013"
definition ER_DUP_ENTRY :: int where "ER_DUP_ENTRY = 1062"

section \<open>Statements\<close>

definition SQL_MAX_LEN :: nat where
  "SQL_MAX_LEN = 512"

text \<open>
  The buffer of a formatted statement and the length \<^verbatim>\<open>vsnprintf\<close> returns, which is that of the whole
  text: what lies in the buffer is its first 511 characters and a NUL, and a greater length makes
  the library read behind it.
\<close>

definition format_statement :: "string \<Rightarrow> string outcome" where
  "format_statement t =
     (if length t < SQL_MAX_LEN then Returns t
      else if length t = SQL_MAX_LEN then Returns (take (SQL_MAX_LEN - 1) t @ [CHR 0x00])
      else OutOfBounds)"

definition is_lost :: "'w mysql \<Rightarrow> 'w \<Rightarrow> bool" where
  "is_lost M w = (\<not> mysql_connected M w \<or> mysql_errno M w = CR_SERVER_GONE_ERROR
     \<or> mysql_errno M w = CR_SERVER_LOST \<or> \<not> mysql_ping_ok M w)"

definition exec_query_i :: "'w mysql \<Rightarrow> string \<Rightarrow> 'w client \<Rightarrow> query_result \<times> 'w client" where
  "exec_query_i M sql c =
     (let w = (if is_lost M (world c) then mysql_reopen M (world c) else world c);
          (r, w') = mysql_query M sql w
      in (r, \<lparr>world = w', sent = sent c @ [sql]\<rparr>))"

text \<open>
  \<^verbatim>\<open>exec_query0\<close> and \<^verbatim>\<open>exec_query1\<close> with the formatted text. A result set that is not \<^verbatim>\<open>validated\<close> is
  \<open>None\<close>.
\<close>

definition exec_query0 :: "'w mysql \<Rightarrow> string \<Rightarrow> 'w client \<Rightarrow> bool outcome \<times> 'w client" where
  "exec_query0 M t c =
     (case format_statement t of
        Returns sql \<Rightarrow> (case exec_query_i M sql c of (r, c') \<Rightarrow> (Returns (r \<noteq> Query_failed), c'))
      | _ \<Rightarrow> (OutOfBounds, c))"

definition exec_query1 :: "'w mysql \<Rightarrow> string \<Rightarrow> 'w client \<Rightarrow> string list list option outcome \<times> 'w client" where
  "exec_query1 M t c =
     (case format_statement t of
        Returns sql \<Rightarrow> (case exec_query_i M sql c of
            (Rows rows, c') \<Rightarrow> (Returns (Some rows), c')
          | (_, c') \<Rightarrow> (Returns None, c'))
      | _ \<Rightarrow> (OutOfBounds, c))"

definition has_one :: "string list list \<Rightarrow> bool" where
  "has_one rows = (length rows = 1)"

definition has_on_least :: "string list list \<Rightarrow> bool" where
  "has_on_least rows = (length rows \<ge> 1)"

text \<open>
  The conversions of the formats: \<^verbatim>\<open>%d\<close> and \<^verbatim>\<open>%u\<close> of an integer argument, of which they take 32 bits.
\<close>

definition fmt_d :: "int \<Rightarrow> string" where
  "fmt_d n = show_int (c_int n)"

definition fmt_u :: "int \<Rightarrow> string" where
  "fmt_u n = show_nat (nat (n mod 2 ^ 32))"

section \<open>Lengths of formatted numbers\<close>

lemma length_show_nat: "n < 10 ^ k \<Longrightarrow> 0 < k \<Longrightarrow> length (show_nat n) \<le> k"
proof (induction k arbitrary: n)
  case (Suc k)
  show ?case
  proof (cases "n < 10")
    case True
    then show ?thesis by (subst show_nat.simps) simp
  next
    case False
    then have "k > 0" using Suc.prems(1) by (cases k) auto
    moreover have "n div 10 < 10 ^ k" using Suc.prems(1) by (simp add: less_mult_imp_div_less mult.commute)
    ultimately show ?thesis using Suc.IH [of "n div 10"] False by (subst show_nat.simps) simp
  qed
qed simp

lemma length_fmt_d: "length (fmt_d n) \<le> 11"
proof -
  have "length (show_nat m) \<le> 10" if "m \<le> 2 ^ 31" for m
    by (rule length_show_nat) (use that in simp_all)
  moreover have "nat (c_int n) \<le> 2 ^ 31" "nat (- c_int n) \<le> 2 ^ 31"
    using c_int_range [of n] by simp_all
  ultimately have "length (show_nat (nat (c_int n))) \<le> 10" "length (show_nat (nat (- c_int n))) \<le> 10" by blast+
  then show ?thesis by (simp add: fmt_d_def show_int_def)
qed

lemma length_fmt_u: "length (fmt_u n) \<le> 10"
  unfolding fmt_u_def
proof (rule length_show_nat)
  have "n mod 2 ^ 32 < 2 ^ 32" by simp
  then show "nat (n mod 2 ^ 32) < 10 ^ 10" by simp
qed simp

lemma format_statement_fits: "length t < 512 \<Longrightarrow> format_statement t = Returns t"
  by (simp add: format_statement_def SQL_MAX_LEN_def)

end
