(* ===== verification/ServerMd5.thy ===== *)
theory ServerMd5
  imports MD5 CLib
begin

text \<open>
  The hash of the server's passwords, \<^verbatim>\<open>md5\<close> and \<^verbatim>\<open>md5chars\<close> of
  \<^verbatim>\<open>refs/httpserver/thelib/utils/crypto_utils.c\<close>: a second implementation of MD5, with its tables, its
  padded copy of the message and its one loop of 64 rounds. \<^verbatim>\<open>size_t\<close> has 64 bits.
\<close>

definition md5_k :: "u32 list" where
  "md5_k =
     [0xd76aa478, 0xe8c7b756, 0x242070db, 0xc1bdceee,
      0xf57c0faf, 0x4787c62a, 0xa8304613, 0xfd469501,
      0x698098d8, 0x8b44f7af, 0xffff5bb1, 0x895cd7be,
      0x6b901122, 0xfd987193, 0xa679438e, 0x49b40821,
      0xf61e2562, 0xc040b340, 0x265e5a51, 0xe9b6c7aa,
      0xd62f105d, 0x02441453, 0xd8a1e681, 0xe7d3fbc8,
      0x21e1cde6, 0xc33707d6, 0xf4d50d87, 0x455a14ed,
      0xa9e3e905, 0xfcefa3f8, 0x676f02d9, 0x8d2a4c8a,
      0xfffa3942, 0x8771f681, 0x6d9d6122, 0xfde5380c,
      0xa4beea44, 0x4bdecfa9, 0xf6bb4b60, 0xbebfbc70,
      0x289b7ec6, 0xeaa127fa, 0xd4ef3085, 0x04881d05,
      0xd9d4d039, 0xe6db99e5, 0x1fa27cf8, 0xc4ac5665,
      0xf4292244, 0x432aff97, 0xab9423a7, 0xfc93a039,
      0x655b59c3, 0x8f0ccc92, 0xffeff47d, 0x85845dd1,
      0x6fa87e4f, 0xfe2ce6e0, 0xa3014314, 0x4e0811a1,
      0xf7537e82, 0xbd3af235, 0x2ad7d2bb, 0xeb86d391]"

definition md5_r :: "nat list" where
  "md5_r =
     [7, 12, 17, 22, 7, 12, 17, 22, 7, 12, 17, 22, 7, 12, 17, 22,
      5,  9, 14, 20, 5,  9, 14, 20, 5,  9, 14, 20, 5,  9, 14, 20,
      4, 11, 16, 23, 4, 11, 16, 23, 4, 11, 16, 23, 4, 11, 16, 23,
      6, 10, 15, 21, 6, 10, 15, 21, 6, 10, 15, 21, 6, 10, 15, 21]"

definition LEFTROTATE :: "u32 \<Rightarrow> nat \<Rightarrow> u32" where
  "LEFTROTATE x c = push_bit c x OR drop_bit (32 - c) x"

definition to_bytes :: "u32 \<Rightarrow> bytes" where
  "to_bytes val = [ucast val, ucast (drop_bit 8 val), ucast (drop_bit 16 val), ucast (drop_bit 24 val)]"

definition to_int32 :: "bytes \<Rightarrow> u32" where
  "to_int32 b = ucast (b ! 0) OR push_bit 8 (ucast (b ! 1)) OR push_bit 16 (ucast (b ! 2)) OR push_bit 24 (ucast (b ! 3))"

definition hex2chr :: "nat \<Rightarrow> char" where
  "hex2chr hex = char_of (if hex > 9 then hex - 10 + 97 else hex + 48)"

definition hex2chrp :: "byte \<Rightarrow> string" where
  "hex2chrp hex = [hex2chr (unat (drop_bit 4 hex)), hex2chr (unat (hex AND 0x0f))]"

definition to_chars :: "u32 \<Rightarrow> string" where
  "to_chars v = hex2chrp (ucast v) @ hex2chrp (ucast (drop_bit 8 v)) @ hex2chrp (ucast (drop_bit 16 v))
     @ hex2chrp (ucast (drop_bit 24 v))"

text \<open>How far the padded length is, for the termination of the loop that looks for it.\<close>

lemma zeros_needed: "(120 - n mod 64) mod 64 = (if n mod 64 \<le> 56 then 56 - n mod 64 else 120 - n mod (64 :: nat))"
proof -
  have "n mod 64 < 64" by simp
  then show ?thesis by (cases "n mod 64 \<le> 56") (simp_all add: le_mod_geq)
qed

lemma zeros_needed_Suc:
  "n mod 64 \<noteq> 56 \<Longrightarrow> Suc ((120 - Suc n mod 64) mod 64) = (120 - n mod (64 :: nat)) mod 64"
proof -
  assume n: "n mod 64 \<noteq> 56"
  have "n mod 64 < 64" by simp
  then show ?thesis
    unfolding zeros_needed using n by (cases "n mod 64 = 63") (auto simp: mod_Suc)
qed


function padded_length :: "nat \<Rightarrow> nat" where
  "padded_length n = (if n mod 64 = 56 then n else padded_length (n + 1))"
  by pat_completeness auto

termination
proof (relation "measure (\<lambda>n. (120 - n mod 64) mod 64)")
  fix n :: nat assume "n mod 64 \<noteq> 56"
  then show "(n + 1, n) \<in> measure (\<lambda>n. (120 - n mod 64) mod 64)" using zeros_needed_Suc [of n] by simp
qed simp

declare padded_length.simps [simp del]

definition padded_message :: "bytes \<Rightarrow> bytes" where
  "padded_message m =
     (let len = length m; w = word_of_nat len :: u64; new_len = padded_length (len + 1)
      in m @ [0x80] @ replicate (new_len - (len + 1)) 0
         @ to_bytes (ucast (push_bit 3 w)) @ to_bytes (ucast (drop_bit 29 w)))"

text \<open>A round; the loop of 64 over the state \<open>(a, b, c, d)\<close>; the loop over the chunks.\<close>

definition md5_round :: "u32 list \<Rightarrow> nat \<Rightarrow> md5_state \<Rightarrow> md5_state" where
  "md5_round w i s =
     (case s of (a, b, c, d) \<Rightarrow>
        let (f, g) =
          (if i < 16 then ((b AND c) OR (NOT b AND d), i)
           else if i < 32 then ((d AND b) OR (NOT d AND c), (5 * i + 1) mod 16)
           else if i < 48 then (b XOR c XOR d, (3 * i + 5) mod 16)
           else (c XOR (b OR NOT d), (7 * i) mod 16))
        in (d, b + LEFTROTATE (a + f + md5_k ! i + w ! g) (md5_r ! i), b, c))"

definition md5_chunk :: "bytes \<Rightarrow> md5_state \<Rightarrow> md5_state" where
  "md5_chunk chunk h =
     (let w = map (\<lambda>i. to_int32 (take 4 (drop (4 * i) chunk))) [0 ..< 16]
      in add_state h (fold (md5_round w) [0 ..< 64] h))"

fun md5_chunks_loop :: "nat \<Rightarrow> bytes \<Rightarrow> md5_state \<Rightarrow> md5_state" where
  "md5_chunks_loop 0 msg h = h"
| "md5_chunks_loop (Suc n) msg h = md5_chunks_loop n (drop 64 msg) (md5_chunk (take 64 msg) h)"

text \<open>The offsets 0, 64, ... below the padded length: their number.\<close>

definition md5_raw_state :: "bytes \<Rightarrow> md5_state" where
  "md5_raw_state m =
     md5_chunks_loop ((padded_length (length m + 1) + 63) div 64) (padded_message m)
       (0x67452301, 0xefcdab89, 0x98badcfe, 0x10325476)"

definition server_md5 :: "bytes \<Rightarrow> bytes" where
  "server_md5 m = (case md5_raw_state m of (h0, h1, h2, h3) \<Rightarrow> to_bytes h0 @ to_bytes h1 @ to_bytes h2 @ to_bytes h3)"

definition md5chars :: "bytes \<Rightarrow> string" where
  "md5chars m = (case md5_raw_state m of (h0, h1, h2, h3) \<Rightarrow> to_chars h0 @ to_chars h1 @ to_chars h2 @ to_chars h3)"

section \<open>It is RFC 1321\<close>

lemma tables: "md5_k = rfc_K" "md5_r = rfc_s"
  by (simp_all add: md5_k_def rfc_K_def md5_r_def rfc_s_list)

lemma round_rfc: "i < 64 \<Longrightarrow> md5_round w i s = rfc_step w i s"
proof -
  assume i: "i < 64"
  obtain a b c d where s: "s = (a, b, c, d)" by (cases s) auto
  have r: "LEFTROTATE x (rfc_s ! i) = word_rotl (rfc_s ! i) x" for x
    using rotate_left_rotl [of "rfc_s ! i" x] rfc_s_bounds [OF i] by (simp add: LEFTROTATE_def rotate_left_def)
  show ?thesis
    by (simp add: md5_round_def rfc_step_def s tables r rfc_f_def rfc_g_def Let_def)
      (auto simp: ac_simps)
qed

lemma to_bytes_le: "to_bytes v = le_bytes 4 v"
  by (simp add: to_bytes_def le_bytes_4)

lemma length_to_bytes [simp]: "length (to_bytes v) = 4"
  by (simp add: to_bytes_def)

lemma padded_length_eq: "padded_length n = n + (120 - n mod 64) mod 64"
proof (induction n rule: padded_length.induct)
  case (1 n)
  show ?case
  proof (cases "n mod 64 = 56")
    case True
    then show ?thesis by (subst padded_length.simps) simp
  next
    case False
    have "padded_length n = padded_length (Suc n)" using False by (subst padded_length.simps) simp
    also have "\<dots> = Suc n + (120 - Suc n mod 64) mod 64" using 1 False by simp
    also have "\<dots> = n + (120 - n mod 64) mod 64" using zeros_needed_Suc [OF False] by simp
    finally show ?thesis .
  qed
qed

lemma to_int32_le: "length b = 4 \<Longrightarrow> to_int32 b = le_word b"
proof -
  assume "length b = 4"
  then obtain p q r s where b: "b = [p, q, r, s]"
    by (auto simp: length_Suc_conv eval_nat_numeral)
  show ?thesis by (simp add: to_int32_def b push_bit_or or.assoc)
qed

lemma length_bits: "to_bytes (ucast (push_bit 3 w)) @ to_bytes (ucast (drop_bit 29 w)) = le_bytes 8 (push_bit 3 (w :: u64))"
  unfolding to_bytes_def le_bytes_8
  by (auto simp: bits_simps intro!: bit_word_eqI dest: bit_imp_le_length)

lemma padded_message_rfc: "padded_message m = rfc_pad m"
proof -
  have w: "push_bit 3 (word_of_nat (length m) :: u64) = word_of_nat (8 * length m)"
    by (simp add: push_bit_eq_mult mult.commute)
  have "padded_length (length m + 1) - (length m + 1) = (119 - length m mod 64) mod 64"
    by (simp add: padded_length_eq mod_Suc)
  then show ?thesis
    by (simp add: padded_message_def rfc_pad_def Let_def length_bits w)
qed

lemma hex2chr_digit: "list_all (\<lambda>n. hex2chr n = hex_digit n) [0..<16]"
  by code_simp

lemma hex2chrp_byte: "hex2chrp b = hex_byte b"
proof -
  have b: "unat b < 256" using unat_bound [of b] by simp
  have "unat (drop_bit 4 b) = unat b div 16" by (simp only: unat_drop_bit_eq) (simp add: drop_bit_eq_div)
  moreover have "unat (b AND 0x0f) = unat b mod 16"
  proof -
    have "b AND 0x0f = take_bit 4 b" by (simp add: take_bit_eq_mask mask_eq_exp_minus_1)
    then show ?thesis by (simp only: unsigned_take_bit_eq) (simp add: take_bit_eq_mod)
  qed
  moreover have "unat b div 16 \<in> set [0..<16]" "unat b mod 16 \<in> set [0..<16]"
    using b by (simp_all add: less_mult_imp_div_less)
  ultimately show ?thesis
    using hex2chr_digit unfolding list_all_iff hex2chrp_def hex_byte_def by metis
qed

lemma to_chars_hex: "to_chars v = concat (map hex_byte (to_bytes v))"
  by (simp add: to_chars_def to_bytes_def hex2chrp_byte)


lemma chunk_rfc: "64 \<le> length msg \<Longrightarrow> md5_chunk (take 64 msg) h = rfc_compress h (take 64 msg)"
proof -
  assume l: "64 \<le> length msg"
  have "map (\<lambda>i. to_int32 (take 4 (drop (4 * i) (take 64 msg)))) [0 ..< 16] = rfc_words (take 64 msg)"
    unfolding rfc_words_def using l by (intro map_cong refl to_int32_le) simp
  moreover have "fold (md5_round w) [0 ..< 64] h = fold (rfc_step w) [0 ..< 64] h" for w
    by (intro fold_cong refl ext) (simp add: round_rfc)
  ultimately show ?thesis by (simp add: md5_chunk_def rfc_compress_def)
qed

lemma chunks_rfc: "64 * n \<le> length msg \<Longrightarrow> md5_chunks_loop n msg h = rfc_absorb n h msg"
  by (induction n arbitrary: msg h) (simp_all add: chunk_rfc)

lemma padded_length_mod: "padded_length n mod 64 = 56"
proof -
  define q r where "q = n div 64" and "r = n mod 64"
  then have n: "n = 64 * q + r" "r < 64" by simp_all
  have "(120 - r) mod 64 = (if r \<le> 56 then 56 - r else 120 - r)" using zeros_needed [of n] by (simp add: r_def)
  then have "padded_length n = (if r \<le> 56 then 64 * q + 56 else 64 * (q + 1) + 56)"
    using n by (simp add: padded_length_eq r_def [symmetric])
  then show ?thesis by (cases "r \<le> 56"; simp only: if_True if_False; presburger)
qed

lemma chunk_count: "p mod 64 = 56 \<Longrightarrow> (p + 63) div 64 = (p + 8) div (64 :: nat)"
proof -
  assume "p mod 64 = 56"
  then have "p = 64 * (p div 64) + 56" by (metis mult_div_mod_eq)
  then obtain k where k: "p = 64 * k + 56" by blast
  have "64 * k + 56 + 63 = 55 + 64 * (k + 1)" "64 * k + 56 + 8 = 64 * (k + 1)" by simp_all
  then show ?thesis unfolding k by simp
qed

lemma raw_state_rfc: "md5_raw_state m = rfc_absorb (length (rfc_pad m) div 64) rfc_init (rfc_pad m)"
proof -
  let ?p = "padded_length (length m + 1)"
  have p: "?p mod 64 = 56"
    by (rule padded_length_mod)
  have "length (rfc_pad m) = ?p + 8"
    by (simp add: padded_message_rfc [symmetric] padded_message_def Let_def padded_length_eq)
  moreover have "(?p + 63) div 64 = (?p + 8) div 64" using p by (rule chunk_count)
  ultimately have "(?p + 63) div 64 = length (rfc_pad m) div 64" by simp
  then show ?thesis
    by (simp only: md5_raw_state_def padded_message_rfc rfc_init_def chunks_rfc [OF times_div_less_eq_dividend])
qed

lemma server_md5_rfc: "server_md5 m = rfc_md5 m" "md5chars m = concat (map hex_byte (rfc_md5 m))"
proof -
  obtain a b c d where s: "md5_raw_state m = (a, b, c, d)" by (metis prod_cases4)
  then have o: "rfc_md5 m = to_bytes a @ to_bytes b @ to_bytes c @ to_bytes d"
    by (simp add: rfc_md5_def raw_state_rfc [symmetric] rfc_output_def state_words_def to_bytes_le)
  then show "server_md5 m = rfc_md5 m" by (simp add: server_md5_def s)
  show "md5chars m = concat (map hex_byte (rfc_md5 m))" by (simp add: md5chars_def s o to_chars_hex)
qed

section \<open>Properties\<close>

text \<open>
  C14. The server's MD5 is that of RFC 1321 for every message, raw and as lower-case hexadecimal: the
  digest the client computes with its own implementation, \<open>MD5\<close>.
\<close>

theorem server_md5_is_rfc1321:
  "server_md5 m = rfc_md5 m \<and> md5chars m = concat (map hex_byte (rfc_md5 m))"
  using server_md5_rfc by blast

end
