(* ===== verification/GameHandlers.thy ===== *)
theory GameHandlers
  imports JsonObject SqlClient ServerMd5
begin

text \<open>
  The handlers of the game service, \<^verbatim>\<open>refs/httpserver/request_handler.cpp\<close>. A handler takes the request
  and the response so far and gives the response and the database client; its early returns are the
  branches that do not call the continuation of the \<^verbatim>\<open>CHECK_\<close> macros, which are written as operators
  here. The clock, the random numbers and the requests to other servers are arguments.
\<close>

section \<open>Codes\<close>

datatype request_type = Reg_new_user_id | Account_bind | Account_login | Account_logout
  | Submit_achievement | Submit_challenge_result | Send_invite | Answer_invite | Get_invite_list
  | Get_friend_list | Get_mail_counts | Get_mail_list | Collect_mail | Give_power
  | Get_product_list | Verify_ios_receipt | Get_game_info | Get_announcement | Check_server_ready

fun request_code :: "request_type \<Rightarrow> int" where
  "request_code Reg_new_user_id = 1"
| "request_code Account_bind = 2"
| "request_code Account_login = 3"
| "request_code Account_logout = 4"
| "request_code Submit_achievement = 5"
| "request_code Submit_challenge_result = 6"
| "request_code Send_invite = 7"
| "request_code Answer_invite = 8"
| "request_code Get_invite_list = 9"
| "request_code Get_friend_list = 10"
| "request_code Get_mail_counts = 11"
| "request_code Get_mail_list = 12"
| "request_code Collect_mail = 13"
| "request_code Give_power = 14"
| "request_code Get_product_list = 20080"
| "request_code Verify_ios_receipt = 20081"
| "request_code Get_game_info = 20082"
| "request_code Get_announcement = 20083"
| "request_code Check_server_ready = 60000"

datatype response_number = Success | Username_conflict | Username_incorrect | Password_incorrect
  | Session_expired | Request_expired | Invited_user_not_exist | Peer_already_invite_you
  | You_are_already_friends | Donot_reinvite_friend | Cannot_invite_self | Invalid_request
  | Invalid_user_id | Ios_verify_receipt_failed | You_are_in_challenging | Exec_sql_failed
  | Unknown_error | Feature_not_develop | Illegal_transaction

fun response_code :: "response_number \<Rightarrow> int" where
  "response_code Success = 0"
| "response_code Username_conflict = 2001"
| "response_code Username_incorrect = 2002"
| "response_code Password_incorrect = 2003"
| "response_code Session_expired = 2004"
| "response_code Request_expired = 2005"
| "response_code Invited_user_not_exist = 2006"
| "response_code Peer_already_invite_you = 2007"
| "response_code You_are_already_friends = 2008"
| "response_code Donot_reinvite_friend = 2009"
| "response_code Cannot_invite_self = 2010"
| "response_code Invalid_request = 2011"
| "response_code Invalid_user_id = 2012"
| "response_code Ios_verify_receipt_failed = 2013"
| "response_code You_are_in_challenging = 2014"
| "response_code Exec_sql_failed = 2015"
| "response_code Unknown_error = 2016"
| "response_code Feature_not_develop = 2017"
| "response_code Illegal_transaction = -2001"

datatype mail_category = Mail_system | Mail_friend | Mail_challenge

fun mail_category_code :: "mail_category \<Rightarrow> int" where
  "mail_category_code Mail_system = 0"
| "mail_category_code Mail_friend = 1"
| "mail_category_code Mail_challenge = 2"

datatype mail_type = Send_power | Send_diamond | Send_gold | Send_props | Send_challenge_request
  | Send_challenge_result | Send_accept_invite

fun mail_type_code :: "mail_type \<Rightarrow> int" where
  "mail_type_code Send_power = 1"
| "mail_type_code Send_diamond = 2"
| "mail_type_code Send_gold = 3"
| "mail_type_code Send_props = 4"
| "mail_type_code Send_challenge_request = 5"
| "mail_type_code Send_challenge_result = 6"
| "mail_type_code Send_accept_invite = 7"

definition information_lifetime :: int where "information_lifetime = 60"
definition seconds_per_day :: int where "seconds_per_day = 24 * 60 * 60"
definition send_power_interval :: int where "send_power_interval = 6 * 60 * 60"

section \<open>What the handlers use\<close>

record ('w, 'd) services =
  database :: "'w mysql"
  doubles_of :: "'d doubles"
  low_byte :: "'d \<Rightarrow> bool"
  narrow_float :: "'d \<Rightarrow> 'd"
  atof_float :: "string \<Rightarrow> 'd"
  clock_now :: "'w \<Rightarrow> int \<times> 'w"
  rand_unsigned :: "'w \<Rightarrow> nat \<times> 'w"
  peer_address :: string
  http_req :: "string \<Rightarrow> string \<Rightarrow> string \<Rightarrow> 'w \<Rightarrow> string \<times> 'w"

type_synonym ('w, 'd) answer = "'d obj outcome \<times> 'w client"

definition respond :: "'d obj \<Rightarrow> 'w client \<Rightarrow> ('w, 'd) answer" where
  "respond resp c = (Returns resp, c)"

definition ret :: "response_number \<Rightarrow> 'd obj \<Rightarrow> 'd obj" where
  "ret n resp = put ''ret'' (set_int (response_code n)) resp"

definition put_param :: "string \<Rightarrow> ('d json \<Rightarrow> 'd json) \<Rightarrow> 'd obj \<Rightarrow> 'd obj" where
  "put_param key f resp = put ''params'' (at_member key f) resp"

definition read_clock :: "('w, 'd) services \<Rightarrow> (int \<Rightarrow> 'w client \<Rightarrow> ('w, 'd) answer) \<Rightarrow> 'w client \<Rightarrow> ('w, 'd) answer" where
  "read_clock S k c = (case clock_now S (world c) of (t, w) \<Rightarrow> k t (c\<lparr>world := w\<rparr>))"

definition execute :: "('w, 'd) services \<Rightarrow> string \<Rightarrow> (bool \<Rightarrow> 'w client \<Rightarrow> ('w, 'd) answer) \<Rightarrow> 'w client \<Rightarrow> ('w, 'd) answer" where
  "execute S t k c =
     (case exec_query0 (database S) t c of (Returns ok, c') \<Rightarrow> k ok c' | (_, c') \<Rightarrow> (OutOfBounds, c'))"

definition query :: "('w, 'd) services \<Rightarrow> string \<Rightarrow> (string list list option \<Rightarrow> 'w client \<Rightarrow> ('w, 'd) answer)
    \<Rightarrow> 'w client \<Rightarrow> ('w, 'd) answer" where
  "query S t k c =
     (case exec_query1 (database S) t c of (Returns r, c') \<Rightarrow> k r c' | (_, c') \<Rightarrow> (OutOfBounds, c'))"

definition CHECK_WR :: "('w, 'd) services \<Rightarrow> string \<Rightarrow> 'd obj \<Rightarrow> ('w client \<Rightarrow> ('w, 'd) answer) \<Rightarrow> 'w client \<Rightarrow> ('w, 'd) answer" where
  "CHECK_WR S t resp k =
     execute S t (\<lambda>ok c. if ok then k c else respond (ret Exec_sql_failed resp) c)"

definition CHECK_RD :: "('w, 'd) services \<Rightarrow> string \<Rightarrow> 'd obj \<Rightarrow> (string list list \<Rightarrow> 'w client \<Rightarrow> ('w, 'd) answer)
    \<Rightarrow> 'w client \<Rightarrow> ('w, 'd) answer" where
  "CHECK_RD S t resp k =
     query S t (\<lambda>r c. case r of None \<Rightarrow> respond (ret Exec_sql_failed resp) c | Some rows \<Rightarrow> k rows c)"

section \<open>Sessions\<close>

definition rrand :: "int \<Rightarrow> int \<Rightarrow> nat \<Rightarrow> int" where
  "rrand mn mx r = c_int (int r mod ((mx - mn) mod 2 ^ 32) + mn)"

definition session_of_user :: "int \<Rightarrow> string" where
  "session_of_user user_id = ''select session_id from user where user_id='' @ fmt_u user_id"

definition update_session_id :: "('w, 'd) services \<Rightarrow> int \<Rightarrow> (int \<Rightarrow> 'w client \<Rightarrow> ('w, 'd) answer)
    \<Rightarrow> 'w client \<Rightarrow> ('w, 'd) answer" where
  "update_session_id S user_id k c =
     (if user_id = 0 then k 0 c
      else query S (session_of_user user_id @ '' limit 1;'') (\<lambda>r c.
        case r of
          None \<Rightarrow> k 0 c
        | Some rows \<Rightarrow>
            if has_one rows then
              let session_id = atoi (hd rows ! 0) mod 2 ^ 32;
                  (n, w) = rand_unsigned S (world c)
              in if session_id < 0x7fff - 1 then k (rrand (session_id + 1) 0x7fff n) (c\<lparr>world := w\<rparr>)
                 else if session_id < 0x7fffffff - 1 then k (rrand (session_id + 1) 0x7fffffff n) (c\<lparr>world := w\<rparr>)
                 else k 1 c
            else k 0 c) c)"

definition check_session_id :: "('w, 'd) services \<Rightarrow> int \<Rightarrow> int \<Rightarrow> (bool \<Rightarrow> 'w client \<Rightarrow> ('w, 'd) answer)
    \<Rightarrow> 'w client \<Rightarrow> ('w, 'd) answer" where
  "check_session_id S user_id session_id k =
     query S (session_of_user user_id) (\<lambda>r c.
       case r of
         None \<Rightarrow> k False c
       | Some rows \<Rightarrow>
           if has_one rows then k (session_id mod 2 ^ 32 = atoi (hd rows ! 0) mod 2 ^ 32) c else k False c)"

text \<open>An integer member of the request's parameters, 0 when there is none.\<close>

definition param :: "('w, 'd) services \<Rightarrow> 'd obj \<Rightarrow> string \<Rightarrow> int" where
  "param S req key = getInt (doubles_of S) (get_object req ''params'') key 0"

definition CHECK_SESSION :: "('w, 'd) services \<Rightarrow> 'd obj \<Rightarrow> 'd obj \<Rightarrow> ('w client \<Rightarrow> ('w, 'd) answer)
    \<Rightarrow> 'w client \<Rightarrow> ('w, 'd) answer" where
  "CHECK_SESSION S req resp k =
     (if param S req ''user_id'' = 0 then respond (ret Invalid_user_id resp)
      else check_session_id S (param S req ''user_id'') (param S req ''session_id'') (\<lambda>ok.
        if \<not> ok then respond (ret Session_expired resp)
        else read_clock S (\<lambda>t.
          if t - param S req ''time'' > information_lifetime then respond (ret Request_expired resp)
          else k)))"

section \<open>Accounts\<close>

text \<open>\<^verbatim>\<open>crypto::hash::md5\<close> of a C string, in hexadecimal.\<close>

definition hash_md5 :: "string \<Rightarrow> string" where
  "hash_md5 s = md5chars (map (\<lambda>c. word_of_nat (char_code c)) s)"

text \<open>An argument between single quotes, as the formats have it: nothing in it is escaped.\<close>

definition quoted :: "string \<Rightarrow> string" where
  "quoted s = CHR 0x27 # s @ [CHR 0x27]"

text \<open>The two handlers that insert a user write the numbers at the end with and without spaces.\<close>

definition insert_user :: "string \<Rightarrow> string \<Rightarrow> int \<Rightarrow> string" where
  "insert_user numbers addr t = ''insert into user values(0,'' @ quoted [] @ '','' @ quoted [] @ '','' @ fmt_d t @ '','' @ quoted addr
     @ '','' @ fmt_d t @ '','' @ quoted addr @ '','' @ numbers @ '');''"

definition handle_reg_new_use_id :: "('w, 'd) services \<Rightarrow> 'd obj \<Rightarrow> 'd obj \<Rightarrow> 'w client \<Rightarrow> ('w, 'd) answer" where
  "handle_reg_new_use_id S req resp =
     read_clock S (\<lambda>t.
     CHECK_WR S (insert_user ''0,1,1,0,0'' (peer_address S) t) resp (\<lambda>c.
       let user_id = c_int (int (mysql_insert_id (database S) (world c)))
       in respond (put_param ''user_id'' (set_int user_id) (ret Success resp)) c))"

text \<open>The second half of \<^verbatim>\<open>handle_account_bind\<close>, for an id that exists.\<close>

definition bind_account :: "('w, 'd) services \<Rightarrow> 'd obj \<Rightarrow> int \<Rightarrow> 'd obj \<Rightarrow> 'w client \<Rightarrow> ('w, 'd) answer" where
  "bind_account S params user_id resp =
     CHECK_WR S (''update user set username='' @ quoted (getString params ''username'')
         @ '',password='' @ quoted (hash_md5 (getString params ''password''))
         @ '' where user_id='' @ fmt_u user_id) resp (
     update_session_id S user_id (\<lambda>new_session_id.
     CHECK_WR S (''update user set session_id='' @ fmt_u new_session_id @ '' where user_id='' @ fmt_u user_id) resp (
     respond (put_param ''session_id'' (set_int (c_int new_session_id))
       (put_param ''user_id'' (set_int (c_int user_id)) (ret Success resp))))))"

definition handle_account_bind :: "('w, 'd) services \<Rightarrow> 'd obj \<Rightarrow> 'd obj \<Rightarrow> 'w client \<Rightarrow> ('w, 'd) answer" where
  "handle_account_bind S req resp =
     (let params = get_object req ''params'';
          user_id = param S req ''user_id'' mod 2 ^ 32
      in CHECK_RD S (''select 1 from user where username='' @ quoted (getString params ''username'') @ '' limit 1;'') resp (\<lambda>rows.
         if has_one rows then respond (ret Username_conflict resp)
         else if user_id = 0 then
           read_clock S (\<lambda>t.
           CHECK_WR S (insert_user ''0, 1, 1, 0, 0'' (peer_address S) t) resp (\<lambda>c.
             bind_account S params (int (mysql_insert_id (database S) (world c)) mod 2 ^ 32) resp c))
         else bind_account S params user_id resp))"

definition select_account :: "string \<Rightarrow> string" where
  "select_account username =
     ''select user_id,password,highest_score,furthest_distance from user where username='' @ quoted username"

definition handle_account_login :: "('w, 'd) services \<Rightarrow> 'd obj \<Rightarrow> 'd obj \<Rightarrow> 'w client \<Rightarrow> ('w, 'd) answer" where
  "handle_account_login S req resp =
     (let params = get_object req ''params''
      in CHECK_RD S (select_account (getString params ''username'')) resp (\<lambda>rows.
         if has_one rows then
           let row = hd rows;
               user_id = atoi (row ! 0)
           in if row ! 1 = hash_md5 (getString params ''password'') then
                update_session_id S (user_id mod 2 ^ 32) (\<lambda>new_session_id.
                read_clock S (\<lambda>t.
                CHECK_WR S (''update user set session_id='' @ fmt_u new_session_id @ '',latest_time='' @ fmt_d t
                    @ '',latest_ip='' @ quoted (peer_address S) @ '' where user_id='' @ fmt_u user_id) resp (
                respond (put_param ''session_id'' (set_int (c_int new_session_id))
                  (put_param ''furthest_distance'' (set_int (atoi (row ! 3)))
                  (put_param ''highest_score'' (set_int (atoi (row ! 2)))
                  (put_param ''user_id'' (set_int user_id) (ret Success resp))))))))
              else respond (ret Password_incorrect resp)
         else respond (ret Username_incorrect resp)))"

definition handle_account_logout :: "('w, 'd) services \<Rightarrow> 'd obj \<Rightarrow> 'd obj \<Rightarrow> 'w client \<Rightarrow> ('w, 'd) answer" where
  "handle_account_logout S req resp = respond (ret Feature_not_develop resp)"

section \<open>Achievements and challenges\<close>

definition handle_submit_achievement :: "('w, 'd) services \<Rightarrow> 'd obj \<Rightarrow> 'd obj \<Rightarrow> 'w client \<Rightarrow> ('w, 'd) answer" where
  "handle_submit_achievement S req resp =
     CHECK_SESSION S req resp (
     CHECK_RD S (''select highest_score,furthest_distance from user where user_id='' @ fmt_u (param S req ''user_id'')) resp (\<lambda>rows.
       if \<not> has_one rows then respond (ret Unknown_error resp)
       else
         let highest_score = atoi (hd rows ! 0);
             furthest_distance = atoi (hd rows ! 1);
             new_highest_score = param S req ''highest_score'';
             new_furthest_distance = param S req ''furthest_distance'';
             resp1 = (if highest_score < new_highest_score
                      then put_param ''highest_score'' (set_int new_highest_score) resp else resp);
             resp2 = (if furthest_distance < new_furthest_distance
                      then put_param ''furthest_distance'' (set_int new_furthest_distance) resp1 else resp1)
         in CHECK_WR S (''update user set role_id='' @ fmt_d (param S req ''role_id'')
              @ '',role_level='' @ fmt_d (param S req ''role_level'')
              @ '',highest_score='' @ fmt_d (if highest_score < new_highest_score then new_highest_score else highest_score)
              @ '',furthest_distance='' @ fmt_d (if furthest_distance < new_furthest_distance then new_furthest_distance
                  else furthest_distance)
              @ '' where user_id='' @ fmt_d (param S req ''user_id'')) resp2 (
            respond (ret Success resp2))))"

text \<open>The condition that selects the mails of one type between two users.\<close>

definition mail_condition :: "mail_type \<Rightarrow> string \<Rightarrow> string \<Rightarrow> string" where
  "mail_condition ty receiver sender = '' where mail_type='' @ fmt_d (mail_type_code ty)
     @ '' and mail_receiver_id='' @ receiver @ '' and mail_sender_id='' @ sender"

definition insert_mail :: "mail_category \<Rightarrow> mail_type \<Rightarrow> int \<Rightarrow> int \<Rightarrow> int \<Rightarrow> string \<Rightarrow> int \<Rightarrow> string" where
  "insert_mail cat ty receiver sender value1 value2 t =
     '' values(0,'' @ fmt_d (mail_category_code cat) @ '','' @ fmt_d (mail_type_code ty) @ '','' @ fmt_d receiver
     @ '','' @ fmt_d sender @ '','' @ fmt_d value1 @ '','' @ value2 @ '','' @ fmt_d t @ '')''"

definition mail_columns :: string where
  "mail_columns = '' (mail_id,mail_category,mail_type,mail_receiver_id,mail_sender_id,value1,value2,timestamp)''"

definition request_challenge :: "('w, 'd) services \<Rightarrow> 'd obj \<Rightarrow> 'd obj \<Rightarrow> 'w client \<Rightarrow> ('w, 'd) answer" where
  "request_challenge S req resp =
     CHECK_RD S (''select 1 from user_mails'' @ mail_condition Send_challenge_request
         (fmt_u (param S req ''other_id'')) (fmt_u (param S req ''user_id'')) @ '' limit 1;'') resp (\<lambda>rows.
       if has_one rows then respond (ret You_are_in_challenging resp)
       else read_clock S (\<lambda>t.
         CHECK_WR S (''insert into user_mails'' @ insert_mail Mail_challenge Send_challenge_request
           (param S req ''other_id'') (param S req ''user_id'') (param S req ''score'') ''0'' t) resp (
         CHECK_WR S (''update user_friends set is_challenging=1 where user_id='' @ fmt_d (param S req ''user_id'')
           @ '' and friend_id='' @ fmt_d (param S req ''other_id'')) resp (
         respond (ret Success resp)))))"

definition respond_challenge :: "('w, 'd) services \<Rightarrow> 'd obj \<Rightarrow> 'd obj \<Rightarrow> 'w client \<Rightarrow> ('w, 'd) answer" where
  "respond_challenge S req resp =
     CHECK_RD S (''select value1 from user_mails'' @ mail_condition Send_challenge_request
         (fmt_d (param S req ''user_id'')) (fmt_d (param S req ''other_id'')) @ '' limit 1;'') resp (\<lambda>rows.
       if \<not> has_one rows then respond (ret Unknown_error resp)
       else
         let challenger_score = atoi (hd rows ! 0)
         in CHECK_WR S (''delete from user_mails'' @ mail_condition Send_challenge_request
                (fmt_d (param S req ''user_id'')) (fmt_d (param S req ''other_id''))) resp (
            read_clock S (\<lambda>t.
            CHECK_WR S (''insert into user_mails'' @ mail_columns @ insert_mail Mail_challenge Send_challenge_result
                (param S req ''other_id'') (param S req ''user_id'') challenger_score (fmt_d (param S req ''score'')) t) resp (
            CHECK_WR S (''update user_friends set is_challenging=0 where user_id='' @ fmt_d (param S req ''other_id'')
                @ '' and friend_id='' @ fmt_d (param S req ''user_id'')) resp (
            respond (ret Success resp))))))"

definition handle_submit_challenge_result :: "('w, 'd) services \<Rightarrow> 'd obj \<Rightarrow> 'd obj \<Rightarrow> 'w client \<Rightarrow> ('w, 'd) answer" where
  "handle_submit_challenge_result S req resp =
     CHECK_SESSION S req resp (
       if param S req ''usre_id'' = param S req ''other_id'' then respond (ret Success resp)
       else if param S req ''challenge_type'' = 1 then request_challenge S req resp
       else if param S req ''challenge_type'' = 2 then respond_challenge S req resp
       else respond (ret Invalid_request resp))"

section \<open>Invites and friends\<close>

definition handle_send_invite :: "('w, 'd) services \<Rightarrow> 'd obj \<Rightarrow> 'd obj \<Rightarrow> 'w client \<Rightarrow> ('w, 'd) answer" where
  "handle_send_invite S req resp =
     (let user_id = fmt_d (param S req ''user_id'');
          invited_id = fmt_d (param S req ''invited_id'')
      in CHECK_SESSION S req resp (
         if param S req ''user_id'' = param S req ''invited_id'' then respond (ret Cannot_invite_self resp)
         else
         CHECK_RD S (''select 1 from user where user_id='' @ invited_id @ '' limit 1;'') resp (\<lambda>user_exist.
         if \<not> has_one user_exist then respond (ret Invited_user_not_exist resp)
         else
         CHECK_RD S (''select 1 from user_friends where user_id='' @ user_id @ '' and friend_id='' @ invited_id @ '' limit 1;'') resp
           (\<lambda>friend_exist.
         if has_one friend_exist then respond (ret You_are_already_friends resp)
         else
         CHECK_RD S (''select 1 from user_invites where invited_id='' @ user_id @ '' and inviter_id='' @ invited_id @ '' limit 1;'') resp
           (\<lambda>peer_invite_you.
         if has_one peer_invite_you then respond (ret Peer_already_invite_you resp)
         else
         execute S (''insert into user_invites (invited_id,inviter_id) values('' @ invited_id @ '','' @ user_id @ '');'')
           (\<lambda>succeed c.
         if mysql_errno (database S) (world c) = ER_DUP_ENTRY then respond (ret Donot_reinvite_friend resp) c
         else if succeed then respond (ret Success resp) c
         else respond (ret Exec_sql_failed resp) c))))))"

definition insert_friend :: "int \<Rightarrow> int \<Rightarrow> string" where
  "insert_friend user_id friend_id =
     ''insert into user_friends (user_id,friend_id,send_power_time,is_challenging) values(''
     @ fmt_d user_id @ '','' @ fmt_d friend_id @ '',0,0);''"

definition handle_answer_invite :: "('w, 'd) services \<Rightarrow> 'd obj \<Rightarrow> 'd obj \<Rightarrow> 'w client \<Rightarrow> ('w, 'd) answer" where
  "handle_answer_invite S req resp =
     (let user_id = param S req ''user_id'';
          inviter_id = param S req ''inviter_id'';
          accepted = getBool (low_byte S) (get_object req ''params'') ''accepted'';
          notify = read_clock S (\<lambda>t.
            CHECK_WR S (''insert into user_mails'' @ mail_columns @ insert_mail Mail_friend Send_accept_invite inviter_id user_id
              (if accepted then 1 else 0) ''0'' t) resp (
            respond (ret Success resp)))
      in CHECK_SESSION S req resp (
         CHECK_WR S (''delete from user_invites where invited_id='' @ fmt_d user_id @ '' and inviter_id='' @ fmt_d inviter_id) resp (
         if accepted then
           CHECK_WR S (insert_friend user_id inviter_id) resp (
           CHECK_WR S (insert_friend inviter_id user_id) resp notify)
         else notify)))"

text \<open>The members read from a row of a user.\<close>

definition user_info :: "string list \<Rightarrow> 'd json" where
  "user_info row = Object
     [(''user_id'', Integer (atoi (row ! 0))), (''username'', String (row ! 1)),
      (''role_id'', Integer (atoi (row ! 2))), (''role_level'', Integer (atoi (row ! 3))),
      (''highest_score'', Integer (atoi (row ! 4))), (''furthest_distance'', Integer (atoi (row ! 5)))]"

text \<open>A list member: it exists without rows too, and then stays null.\<close>

definition append_all :: "'d json list \<Rightarrow> 'd json \<Rightarrow> 'd json" where
  "append_all xs j = fold append_node xs j"

definition handle_get_invite_list :: "('w, 'd) services \<Rightarrow> 'd obj \<Rightarrow> 'd obj \<Rightarrow> 'w client \<Rightarrow> ('w, 'd) answer" where
  "handle_get_invite_list S req resp =
     CHECK_SESSION S req resp (
     CHECK_RD S (''SELECT user.user_id,user.username,user.role_id,user.role_level,user.highest_score,user.furthest_distance FROM user,user_invites WHERE user_invites.invited_id=''
         @ fmt_d (param S req ''user_id'') @ '' and user.user_id=user_invites.inviter_id limit 20;'') resp (\<lambda>rows.
     respond (ret Success (put_param ''user_list'' (append_all (map user_info rows)) resp))))"

text \<open>The loop over the friends: the text of the ids, the flags by id (the first of an id stays), the clock.\<close>

definition day_of :: "int \<Rightarrow> int" where
  "day_of t = (if t < 0 then - (- t div seconds_per_day) else t div seconds_per_day)"

fun friend_flags :: "('w, 'd) services \<Rightarrow> string list list \<Rightarrow> 'w \<Rightarrow> string \<times> (int \<times> bool \<times> bool) list \<times> 'w" where
  "friend_flags S [] w = ([], [], w)"
| "friend_flags S (row # rows) w =
     (let (t, w1) = clock_now S w;
          (ids, table, w2) = friend_flags S rows w1
      in (row ! 0 @ '','' @ ids,
          (atoi (row ! 0), day_of t > day_of (atoi (row ! 1)), atoi (row ! 2) \<noteq> 0) # table, w2))"

definition friend_info :: "(int \<times> bool \<times> bool) list \<Rightarrow> string list \<Rightarrow> 'd json" where
  "friend_info table row =
     (case map_of table (atoi (row ! 0)) of
        None \<Rightarrow> user_info row
      | Some (allow, challenging) \<Rightarrow>
          at_member ''is_challenging'' (set_bool challenging)
            (at_member ''is_allow_send_power'' (set_bool allow) (user_info row)))"

definition select_friends :: "string \<Rightarrow> int \<Rightarrow> string" where
  "select_friends ids user_id =
     ''select user_id,username,role_id,role_level,highest_score,furthest_distance from user where user_id in ''
     @ ''('' @ ids @ show_int user_id @ '')'' @ '';''"

definition handle_get_friend_list :: "('w, 'd) services \<Rightarrow> 'd obj \<Rightarrow> 'd obj \<Rightarrow> 'w client \<Rightarrow> ('w, 'd) answer" where
  "handle_get_friend_list S req resp =
     CHECK_SESSION S req resp (
     CHECK_RD S (''select friend_id,send_power_time,is_challenging from user_friends where user_id=''
         @ fmt_d (param S req ''user_id'') @ '' limit 50;'') resp (\<lambda>friendIds c.
     case friend_flags S friendIds (world c) of
       (ids, table, w) \<Rightarrow>
         CHECK_RD S (select_friends ids (param S req ''user_id'')) resp (\<lambda>rows.
         respond (put_param ''friends'' (append_all (map (friend_info table) rows)) (ret Success resp))) (c\<lparr>world := w\<rparr>)))"

section \<open>Mails and gifts\<close>

definition count_mails :: "int \<Rightarrow> mail_category \<Rightarrow> string" where
  "count_mails user_id cat = ''select count(*) from user_mails where mail_receiver_id='' @ fmt_d user_id
     @ '' and mail_category='' @ fmt_d (mail_category_code cat) @ '' limit 30''"

definition handle_get_mail_counts :: "('w, 'd) services \<Rightarrow> 'd obj \<Rightarrow> 'd obj \<Rightarrow> 'w client \<Rightarrow> ('w, 'd) answer" where
  "handle_get_mail_counts S req resp =
     (let user_id = param S req ''user_id''
      in CHECK_SESSION S req resp (
         CHECK_RD S (count_mails user_id Mail_friend) resp (\<lambda>friends.
         CHECK_RD S (count_mails user_id Mail_system) resp (\<lambda>systems.
         CHECK_RD S (count_mails user_id Mail_challenge) resp (\<lambda>challenges.
         if \<not> has_one friends \<or> \<not> has_one systems \<or> \<not> has_one challenges then respond (ret Unknown_error resp)
         else respond (ret Success
           (put_param ''challenge_mail_count'' (set_int (atoi (hd challenges ! 0)))
           (put_param ''system_mail_count'' (set_int (atoi (hd systems ! 0)))
           (put_param ''friends_mail_count'' (set_int (atoi (hd friends ! 0))) resp)))))))))"

definition mail_info :: "string list \<Rightarrow> 'd json" where
  "mail_info row = Object
     [(''mail_id'', Integer (atoi (row ! 0))), (''mail_type'', Integer (atoi (row ! 1))),
      (''mail_sender_id'', Integer (atoi (row ! 2))), (''mail_sender_name'', String (row ! 3)),
      (''mail_sender_role_id'', Integer (atoi (row ! 4))), (''value1'', Integer (atoi (row ! 5))),
      (''value2'', Integer (atoi (row ! 6)))]"

definition handle_get_mail_list :: "('w, 'd) services \<Rightarrow> 'd obj \<Rightarrow> 'd obj \<Rightarrow> 'w client \<Rightarrow> ('w, 'd) answer" where
  "handle_get_mail_list S req resp =
     CHECK_SESSION S req resp (
     CHECK_RD S (''select user_mails.mail_id,user_mails.mail_type,user_mails.mail_sender_id,user.username,user.role_id,user_mails.value1,user_mails.value2 from user_mails,user where user_mails.mail_receiver_id=''
         @ fmt_d (param S req ''user_id'') @ '' and user_mails.mail_category='' @ fmt_d (param S req ''mail_category'')
         @ '' and user.user_id=user_mails.mail_sender_id limit 30;'') resp (\<lambda>rows.
     respond (ret Success (put_param ''mail_list'' (append_all (map mail_info rows)) resp))))"

definition handle_collect_mail :: "('w, 'd) services \<Rightarrow> 'd obj \<Rightarrow> 'd obj \<Rightarrow> 'w client \<Rightarrow> ('w, 'd) answer" where
  "handle_collect_mail S req resp =
     CHECK_SESSION S req resp (
     CHECK_WR S (''delete from user_mails where mail_id='' @ fmt_d (param S req ''mail_id'')
         @ '' and mail_receiver_id='' @ fmt_d (param S req ''user_id'')) resp (
     respond (ret Success resp)))"

definition handle_give_power :: "('w, 'd) services \<Rightarrow> 'd obj \<Rightarrow> 'd obj \<Rightarrow> 'w client \<Rightarrow> ('w, 'd) answer" where
  "handle_give_power S req resp =
     (let user_id = fmt_d (param S req ''user_id'');
          receiver_id = fmt_d (param S req ''receiver_id'')
      in CHECK_SESSION S req resp (
         CHECK_RD S (''select send_power_time from user_friends where user_id='' @ user_id @ '' and friend_id='' @ receiver_id) resp (\<lambda>rows.
         if \<not> has_one rows then respond (ret Invalid_request resp)
         else read_clock S (\<lambda>t.
           if t - atoll (hd rows ! 0) > send_power_interval then
             read_clock S (\<lambda>t1.
             CHECK_WR S (''update user_friends set send_power_time='' @ fmt_d t1 @ '' where user_id='' @ user_id
                 @ '' and friend_id='' @ receiver_id @ '';'') resp (
             read_clock S (\<lambda>t2.
             CHECK_WR S (''insert into user_mails'' @ insert_mail Mail_friend Send_power (param S req ''receiver_id'')
                 (param S req ''user_id'') 1 ''0'' t2) resp (
             respond (ret Success resp)))))
           else respond (ret Invalid_request resp)))))"

section \<open>Shop and information\<close>

definition product_info :: "('w, 'd) services \<Rightarrow> string list \<Rightarrow> 'd json" where
  "product_info S row = Object
     [(''product_id'', String (row ! 0)), (''product_name'', String (row ! 1)),
      (''product_desc'', String (row ! 2)), (''product_price'', Real (atof_float S (row ! 3)))]"

text \<open>The statement is sent with its terminating NUL, which \<^verbatim>\<open>sizeof\<close> counts.\<close>

definition SELECT_PRODUCTS_SQL :: string where
  "SELECT_PRODUCTS_SQL = ''select product_id,product_name,product_desc,product_price from iap_info'' @ [CHR 0x00]"

text \<open>Without products the list stays nil, and its assignment reads through the null pointer.\<close>

definition handle_get_product_list :: "('w, 'd) services \<Rightarrow> 'd obj \<Rightarrow> 'd obj \<Rightarrow> 'w client \<Rightarrow> ('w, 'd) answer" where
  "handle_get_product_list S req resp =
     CHECK_SESSION S req resp (\<lambda>c.
     case exec_query_i (database S) SELECT_PRODUCTS_SQL c of
       (Query_failed, c1) \<Rightarrow> respond (ret Exec_sql_failed resp) c1
     | (No_rows_stored, c1) \<Rightarrow> (OutOfBounds, c1)
     | (Rows rows, c1) \<Rightarrow>
         (case set_object (narrow_float S) (fold append_obj (map (product_info S) rows) None) of
            Returns product_list \<Rightarrow>
              respond (put_param ''product_list'' (\<lambda>_. product_list) (ret Success resp)) c1
          | _ \<Rightarrow> (OutOfBounds, c1)))"

text \<open>A request to Apple's server and the parsing of its answer.\<close>

definition verify_receipt :: "('w, 'd) services \<Rightarrow> string \<Rightarrow> string \<Rightarrow> ('d obj \<Rightarrow> 'w client \<Rightarrow> ('w, 'd) answer)
    \<Rightarrow> 'w client \<Rightarrow> ('w, 'd) answer" where
  "verify_receipt S url body k c =
     (case http_req S url ''POST'' body (world c) of
        (answer, w) \<Rightarrow>
          (case parseString (doubles_of S) answer of
             Returns v \<Rightarrow> k v (c\<lparr>world := w\<rparr>)
           | _ \<Rightarrow> (OutOfBounds, c\<lparr>world := w\<rparr>)))"

definition finish_receipt :: "('w, 'd) services \<Rightarrow> 'd obj \<Rightarrow> 'd obj \<Rightarrow> 'd obj \<Rightarrow> 'd obj \<Rightarrow> 'w client \<Rightarrow> ('w, 'd) answer" where
  "finish_receipt S req resp sent_receipt verify_result =
     (if getInt (doubles_of S) verify_result ''status'' (-1) = 0 then
        let receipt = get_object verify_result ''receipt'';
            resp1 = put_param ''product_id'' (set_string (getString receipt ''product_id'')) (ret Success resp)
        in CHECK_WR S (''insert into transaction_log (platform_id,transaction_id,product_id,purchase_time) values(''
             @ fmt_d (param S req ''platform_id'') @ '','' @ quoted (getString receipt ''transaction_id'') @ '',''
             @ quoted (getString receipt ''product_id'') @ '','' @ fmt_d (atoi (getString receipt ''purchase_date_ms'')) @ '')'') resp1 (
           respond resp1)
      else
        read_clock S (\<lambda>t.
        CHECK_WR S (''insert into cheat_log (user_id,cheat_type,cheat_detail,timestamp) values('' @ fmt_d (param S req ''user_id'')
          @ '','' @ fmt_d 1 @ '','' @ quoted (getString sent_receipt ''product_id'') @ '','' @ fmt_d t @ '')'') resp (
        respond (ret Ios_verify_receipt_failed resp))))"

definition handle_ios_receipt_verify :: "('w, 'd) services \<Rightarrow> 'd obj \<Rightarrow> 'd obj \<Rightarrow> 'w client \<Rightarrow> ('w, 'd) answer" where
  "handle_ios_receipt_verify S req resp =
     CHECK_SESSION S req resp (
     CHECK_RD S (''select 1 from cheat_log where user_id='' @ fmt_d (param S req ''user_id'') @ '' limit 1;'') resp (\<lambda>cheat_check.
     if has_one cheat_check then respond (ret Illegal_transaction resp)
     else
       let receipt = put ''receipt-data'' (set_string (getString (get_object req ''params'') ''receipt-data'')) None
       in case toString (doubles_of S) receipt of
            Returns body \<Rightarrow>
              verify_receipt S ''https://buy.itunes.apple.com/verifyReceipt'' body (\<lambda>verify_result.
              if getInt (doubles_of S) verify_result ''status'' (-1) = 21007 then
                verify_receipt S ''https://sandbox.itunes.apple.com/verifyReceipt'' body (finish_receipt S req resp receipt)
              else finish_receipt S req resp receipt verify_result)
          | _ \<Rightarrow> (\<lambda>c. (OutOfBounds, c))))"

definition handle_get_announcement :: "('w, 'd) services \<Rightarrow> 'd obj \<Rightarrow> 'd obj \<Rightarrow> 'w client \<Rightarrow> ('w, 'd) answer" where
  "handle_get_announcement S req resp = respond resp"

definition handle_check_server_ready :: "('w, 'd) services \<Rightarrow> 'd obj \<Rightarrow> 'd obj \<Rightarrow> 'w client \<Rightarrow> ('w, 'd) answer" where
  "handle_check_server_ready S req resp = respond (ret Success resp)"

definition handle_get_game_info :: "('w, 'd) services \<Rightarrow> 'd obj \<Rightarrow> 'd obj \<Rightarrow> 'w client \<Rightarrow> ('w, 'd) answer" where
  "handle_get_game_info S req resp =
     CHECK_RD S (''select update_available,download_url from game_info where platform_id='' @ fmt_d (param S req ''platform_id'')) resp
       (\<lambda>rows.
     if has_one rows then
       respond (ret Success (put_param ''download_url'' (set_string (hd rows ! 1))
         (put_param ''update_available'' (set_bool (atoi (hd rows ! 0) \<noteq> 0)) resp)))
     else respond (ret Unknown_error resp))"

section \<open>The table of handlers\<close>

fun handler :: "request_type \<Rightarrow> ('w, 'd) services \<Rightarrow> 'd obj \<Rightarrow> 'd obj \<Rightarrow> 'w client \<Rightarrow> ('w, 'd) answer" where
  "handler Reg_new_user_id = handle_reg_new_use_id"
| "handler Account_bind = handle_account_bind"
| "handler Account_login = handle_account_login"
| "handler Account_logout = handle_account_logout"
| "handler Answer_invite = handle_answer_invite"
| "handler Check_server_ready = handle_check_server_ready"
| "handler Collect_mail = handle_collect_mail"
| "handler Get_announcement = handle_get_announcement"
| "handler Get_friend_list = handle_get_friend_list"
| "handler Get_invite_list = handle_get_invite_list"
| "handler Get_mail_counts = handle_get_mail_counts"
| "handler Get_mail_list = handle_get_mail_list"
| "handler Get_product_list = handle_get_product_list"
| "handler Give_power = handle_give_power"
| "handler Verify_ios_receipt = handle_ios_receipt_verify"
| "handler Send_invite = handle_send_invite"
| "handler Submit_achievement = handle_submit_achievement"
| "handler Submit_challenge_result = handle_submit_challenge_result"
| "handler Get_game_info = handle_get_game_info"

definition request_types :: "request_type list" where
  "request_types = [Reg_new_user_id, Account_bind, Account_login, Account_logout, Submit_achievement,
     Submit_challenge_result, Send_invite, Answer_invite, Get_invite_list, Get_friend_list, Get_mail_counts,
     Get_mail_list, Collect_mail, Give_power, Get_product_list, Verify_ios_receipt, Get_game_info,
     Get_announcement, Check_server_ready]"

definition find_handler :: "int \<Rightarrow> request_type option" where
  "find_handler code = find (\<lambda>ty. request_code ty = code) request_types"

end
