(* ===== verification/AnswerRules.thy ===== *)
theory AnswerRules
  imports GameHandlers
begin

text \<open>
  The contract behind the lemmas that hold of every handler: a property of a handler's run that a plain
  answer has and that reading the clock, a statement and a query keep is kept by the handlers' macros
  and by the steps of a session. Which statements and which answers count is left to the property.
\<close>

lemma CHECK_SESSION_query:
  "CHECK_SESSION S req resp k =
     (if param S req ''user_id'' = 0 then respond (ret Invalid_user_id resp)
      else query S (session_of_user (param S req ''user_id'')) (\<lambda>r. case r of
          None \<Rightarrow> respond (ret Session_expired resp)
        | Some rows \<Rightarrow>
            if length rows = 1 \<and> param S req ''session_id'' mod 2 ^ 32 = atoi (hd rows ! 0) mod 2 ^ 32 then
              read_clock S (\<lambda>t. if t - param S req ''time'' > information_lifetime then respond (ret Request_expired resp) else k)
            else respond (ret Session_expired resp)))"
  unfolding CHECK_SESSION_def check_session_id_def has_one_def
  by (intro if_cong refl arg_cong [where f = "query S (session_of_user (param S req ''user_id''))"] ext) (simp split: option.split)

lemma length_session_of_user: "length (session_of_user user_id) \<le> 60"
  using length_fmt_u [of user_id] by (simp add: session_of_user_def)

lemma length_select_session: "length (session_of_user user_id) < 512" "length (session_of_user user_id @ '' limit 1;'') < 512"
  using length_session_of_user [of user_id] by simp_all

locale answer_rules =
  fixes good :: "('w client \<Rightarrow> ('w, 'd) answer) \<Rightarrow> bool"
    and good_statement :: "string \<Rightarrow> bool"
    and good_answer :: "'d obj \<Rightarrow> bool"
  assumes short: "length t < 512 \<Longrightarrow> good_statement t"
    and answered: "good_answer resp \<Longrightarrow> good (respond resp)"
    and clock: "(\<And>t. good (k t)) \<Longrightarrow> good (read_clock S k)"
    and statement: "good_statement t \<Longrightarrow> (\<And>ok. good (m ok)) \<Longrightarrow> good (execute S t m)"
    and rows: "good_statement t \<Longrightarrow> (\<And>r. good (q r)) \<Longrightarrow> good (query S t q)"
    and pointwise: "(\<And>c. \<exists>k' c'. good k' \<and> run c = k' c') \<Longrightarrow> good run"
begin

lemma choice: "good a \<Longrightarrow> good b \<Longrightarrow> good (if P then a else b)"
  by simp

lemma CHECK_WR: "good_statement t \<Longrightarrow> good_answer (ret Exec_sql_failed resp) \<Longrightarrow> good k \<Longrightarrow> good (CHECK_WR S t resp k)"
  unfolding CHECK_WR_def by (rule statement, assumption, rule pointwise) (metis answered)

lemma CHECK_RD:
  "good_statement t \<Longrightarrow> good_answer (ret Exec_sql_failed resp) \<Longrightarrow> (\<And>rows. good (k rows)) \<Longrightarrow> good (CHECK_RD S t resp k)"
  unfolding CHECK_RD_def
proof (rule rows, assumption)
  fix r assume a: "good_answer (ret Exec_sql_failed resp)" "\<And>rows. good (k rows)"
  show "good (\<lambda>c. case r of None \<Rightarrow> respond (ret Exec_sql_failed resp) c | Some rows \<Rightarrow> k rows c)"
    by (cases r) (use a answered in simp_all)
qed

lemma CHECK_SESSION:
  assumes "good_answer (ret Invalid_user_id resp)" "good_answer (ret Session_expired resp)"
    "good_answer (ret Request_expired resp)" "good k"
  shows "good (CHECK_SESSION S req resp k)"
  unfolding CHECK_SESSION_query using assms
  by (intro choice rows answered short length_select_session(1)) (auto intro!: choice clock answered split: option.split)

lemma update_session_id:
  assumes k: "\<And>v. good (k v)"
  shows "good (update_session_id S user_id k)"
proof -
  have "good (\<lambda>c. case r of
      None \<Rightarrow> k 0 c
    | Some rows \<Rightarrow>
        if has_one rows then
          let session_id = atoi (hd rows ! 0) mod 2 ^ 32; (n, w) = rand_unsigned S (world c)
          in if session_id < 0x7fff - 1 then k (rrand (session_id + 1) 0x7fff n) (c\<lparr>world := w\<rparr>)
             else if session_id < 0x7fffffff - 1 then k (rrand (session_id + 1) 0x7fffffff n) (c\<lparr>world := w\<rparr>)
             else k 1 c
        else k 0 c)" for r
    by (rule pointwise) (use k in \<open>auto simp: Let_def split: option.splits prod.splits if_splits\<close>)
  then have "good (query S (session_of_user user_id @ '' limit 1;'') (\<lambda>r c. case r of
      None \<Rightarrow> k 0 c
    | Some rows \<Rightarrow>
        if has_one rows then
          let session_id = atoi (hd rows ! 0) mod 2 ^ 32; (n, w) = rand_unsigned S (world c)
          in if session_id < 0x7fff - 1 then k (rrand (session_id + 1) 0x7fff n) (c\<lparr>world := w\<rparr>)
             else if session_id < 0x7fffffff - 1 then k (rrand (session_id + 1) 0x7fffffff n) (c\<lparr>world := w\<rparr>)
             else k 1 c
        else k 0 c))"
    by (intro rows short length_select_session(2))
  moreover have "good (k 0)" by (rule k)
  ultimately show ?thesis
    by (intro pointwise) (cases "user_id = 0"; auto simp: update_session_id_def)
qed

end

end
