(* ===== verification/GameService.thy ===== *)
theory GameService
  imports AnswerRules
begin

text \<open>
  What the handlers of the game service guarantee: which requests need a session and what a request
  without one does, which requests cannot leave the statement buffer, the session ids, the outcomes of
  a login, and what an admitted request writes.
\<close>

section \<open>Requests that need a session\<close>

definition guarded :: "request_type \<Rightarrow> bool" where
  "guarded ty = (ty \<notin> {Reg_new_user_id, Account_bind, Account_login, Account_logout, Get_game_info,
     Get_announcement, Check_server_ready})"

abbreviation select_session :: "('w, 'd) services \<Rightarrow> 'd obj \<Rightarrow> string" where
  "select_session S req \<equiv> session_of_user (param S req ''user_id'')"

definition session_valid :: "('w, 'd) services \<Rightarrow> 'd obj \<Rightarrow> 'w client \<Rightarrow> bool" where
  "session_valid S req c =
     (case fst (exec_query_i (database S) (select_session S req) c) of
        Rows rows \<Rightarrow> length rows = 1 \<and> param S req ''session_id'' mod 2 ^ 32 = atoi (hd rows ! 0) mod 2 ^ 32
      | _ \<Rightarrow> False)"

lemma handler_guarded: "guarded ty \<Longrightarrow> \<exists>k. handler ty S req resp = CHECK_SESSION S req resp k"
  by (cases ty; simp only: guarded_def handler.simps Let_def insert_iff simp_thms;
      unfold handle_submit_achievement_def handle_submit_challenge_result_def handle_send_invite_def
        handle_answer_invite_def handle_get_invite_list_def handle_get_friend_list_def handle_get_mail_counts_def
        handle_get_mail_list_def handle_collect_mail_def handle_give_power_def handle_get_product_list_def
        handle_ios_receipt_verify_def Let_def)
    (rule exI, rule refl)+

lemma query_short:
  "length t < 512 \<Longrightarrow> query S t k c = (case exec_query_i (database S) t c of
      (Rows rows, c1) \<Rightarrow> k (Some rows) c1 | (_, c1) \<Rightarrow> k None c1)"
  by (simp add: query_def exec_query1_def format_statement_fits split: prod.splits query_result.splits)

lemma sent_exec_query_i [simp]: "sent (snd (exec_query_i M t c)) = sent c @ [t]"
  by (simp add: exec_query_i_def Let_def split: prod.splits)

lemma CHECK_SESSION_rejects:
  assumes "\<not> session_valid S req c"
  shows "CHECK_SESSION S req resp k c =
    (if param S req ''user_id'' = 0 then (Returns (ret Invalid_user_id resp), c)
     else (Returns (ret Session_expired resp), snd (exec_query_i (database S) (select_session S req) c)))"
  using assms
  by (auto simp: CHECK_SESSION_query query_short [OF length_select_session(1)] session_valid_def respond_def
      split: prod.splits query_result.splits)

section \<open>Statements that fit their buffer\<close>

definition fits :: "string \<Rightarrow> nat \<Rightarrow> bool" where
  "fits t n = (length t \<le> n)"

lemma fits_less: "fits t n \<Longrightarrow> n < 512 \<Longrightarrow> length t < 512"
  by (simp add: fits_def)

lemma fits_append: "fits a m \<Longrightarrow> fits b n \<Longrightarrow> fits (a @ b) (m + n)"
  by (simp add: fits_def)

lemma fits_quoted: "fits a m \<Longrightarrow> fits (quoted a) (m + 2)"
  by (simp add: fits_def quoted_def)

lemma fits_numbers: "fits (fmt_d i) 11" "fits (fmt_u i) 10"
  by (simp_all add: fits_def length_fmt_d length_fmt_u)

lemma fits_self: "fits t (length t)"
  by (simp add: fits_def)

definition returns :: "('w client \<Rightarrow> ('w, 'd) answer) \<Rightarrow> bool" where
  "returns m = (\<forall>c. \<exists>r. fst (m c) = Returns r)"

interpretation returning: answer_rules returns "\<lambda>t. length t < 512" "\<lambda>_. True"
proof
  fix run :: "'w client \<Rightarrow> ('w, 'd) answer"
  assume "\<And>c. \<exists>k' c'. returns k' \<and> run c = k' c'"
  then show "returns run" unfolding returns_def by metis
qed (auto simp: returns_def respond_def read_clock_def execute_def exec_query0_def query_short format_statement_fits
    split: prod.splits query_result.splits)

named_theorems returns_intros \<open>an operator of the handlers returns when its parts do\<close>

lemmas returns_operators [returns_intros] =
  returning.answered [OF TrueI] returning.clock returning.choice returning.CHECK_WR [OF _ TrueI]
  returning.CHECK_RD [OF _ TrueI] returning.CHECK_SESSION [OF TrueI TrueI TrueI]

lemmas fits_intros = fits_append fits_quoted fits_numbers fits_self

text \<open>The requests whose statements hold no text of the client and no list of ids.\<close>

definition fixed_statements :: "request_type \<Rightarrow> bool" where
  "fixed_statements ty =
     (ty \<notin> {Account_bind, Account_login, Get_friend_list, Get_product_list, Verify_ios_receipt})"

lemma returns_reg:
  "length (peer_address S) \<le> 45 \<Longrightarrow> returns (handle_reg_new_use_id S req resp)"
  unfolding handle_reg_new_use_id_def insert_user_def Let_def
  apply (intro returns_intros)
   apply (rule fits_less)
    apply (rule fits_append fits_quoted fits_numbers fits_self [of "peer_address S"] fits_self)+
   apply simp
  apply (simp add: returns_def respond_def)
  done

lemma returns_submit_achievement [returns_intros]: "returns (handle_submit_achievement S req resp)"
  unfolding handle_submit_achievement_def Let_def
  by (intro returns_intros; (rule fits_less, (rule fits_intros)+, simp))

lemma returns_request_challenge [returns_intros]: "returns (request_challenge S req resp)"
  unfolding request_challenge_def mail_condition_def insert_mail_def Let_def
  by (intro returns_intros; (rule fits_less, (rule fits_intros)+, simp))

lemma returns_respond_challenge [returns_intros]: "returns (respond_challenge S req resp)"
  unfolding respond_challenge_def mail_condition_def insert_mail_def mail_columns_def Let_def
  by (intro returns_intros; (rule fits_less, (rule fits_intros)+, simp))

lemma returns_send_invite [returns_intros]: "returns (handle_send_invite S req resp)"
  unfolding handle_send_invite_def Let_def
  by (intro returns_intros returning.statement; (simp add: returns_def respond_def; fail)?; (rule fits_less, (rule fits_intros)+, simp))

lemma returns_answer_invite [returns_intros]: "returns (handle_answer_invite S req resp)"
  unfolding handle_answer_invite_def insert_friend_def mail_columns_def insert_mail_def Let_def
  by (intro returns_intros; (rule fits_less, (rule fits_intros)+, simp))

lemma returns_get_invite_list [returns_intros]: "returns (handle_get_invite_list S req resp)"
  unfolding handle_get_invite_list_def Let_def
  by (intro returns_intros; (rule fits_less, (rule fits_intros)+, simp))

lemma returns_get_mail_counts [returns_intros]: "returns (handle_get_mail_counts S req resp)"
  unfolding handle_get_mail_counts_def count_mails_def Let_def
  by (intro returns_intros; (rule fits_less, (rule fits_intros)+, simp))

lemma returns_get_mail_list [returns_intros]: "returns (handle_get_mail_list S req resp)"
  unfolding handle_get_mail_list_def Let_def
  by (intro returns_intros; (rule fits_less, (rule fits_intros)+, simp))

lemma returns_collect_mail [returns_intros]: "returns (handle_collect_mail S req resp)"
  unfolding handle_collect_mail_def Let_def
  by (intro returns_intros; (rule fits_less, (rule fits_intros)+, simp))

lemma returns_give_power [returns_intros]: "returns (handle_give_power S req resp)"
  unfolding handle_give_power_def insert_mail_def Let_def
  by (intro returns_intros; (rule fits_less, (rule fits_intros)+, simp))

lemma returns_get_game_info [returns_intros]: "returns (handle_get_game_info S req resp)"
  unfolding handle_get_game_info_def Let_def
  by (intro returns_intros; (rule fits_less, (rule fits_intros)+, simp))

lemma returns_submit_challenge_result: "returns (handle_submit_challenge_result S req resp)"
  unfolding handle_submit_challenge_result_def by (intro returns_intros)

lemma returns_fixed:
  assumes "fixed_statements ty" "length (peer_address S) \<le> 45"
  shows "returns (handler ty S req resp)"
  using assms(1)
  by (cases ty; simp only: fixed_statements_def handler.simps insert_iff simp_thms request_type.distinct;
      (intro returns_intros returns_reg [OF assms(2)] returns_submit_challenge_result)?;
      (simp add: handle_account_logout_def handle_get_announcement_def handle_check_server_ready_def returning.answered)?)

section \<open>Session ids\<close>

text \<open>\<open>update_session_id\<close> in direct style: the new id and the client behind it.\<close>

definition next_session_id :: "int \<Rightarrow> nat \<Rightarrow> int" where
  "next_session_id old r =
     (if old < 0x7fff - 1 then rrand (old + 1) 0x7fff r
      else if old < 0x7fffffff - 1 then rrand (old + 1) 0x7fffffff r
      else 1)"

lemma rrand_range:
  assumes "0 \<le> mn" "mn < mx" "mx < 2 ^ 31"
  shows "mn \<le> rrand mn mx r" "rrand mn mx r < mx"
proof -
  have m: "(mx - mn) mod 2 ^ 32 = mx - mn" using assms by (intro mod_pos_pos_trivial) simp_all
  have x: "0 \<le> int r mod (mx - mn)" "int r mod (mx - mn) < mx - mn" using assms by simp_all
  then have "c_int (int r mod (mx - mn) + mn) = int r mod (mx - mn) + mn" using assms by (intro c_int_id) linarith+
  then show "mn \<le> rrand mn mx r" "rrand mn mx r < mx" using x unfolding rrand_def m by linarith+
qed

lemma next_session_id_range:
  assumes "0 \<le> old"
  shows "0 < next_session_id old r" "next_session_id old r < 0x7fffffff"
    and "old < 0x7ffffffe \<Longrightarrow> old < next_session_id old r"
  using assms rrand_range [of "old + 1" "0x7fff" r] rrand_range [of "old + 1" "0x7fffffff" r]
  by (auto simp: next_session_id_def)

definition stored_session :: "('w, 'd) services \<Rightarrow> int \<Rightarrow> 'w client \<Rightarrow> int option" where
  "stored_session S user_id c =
     (case fst (exec_query_i (database S) (session_of_user user_id @ '' limit 1;'') c) of
        Rows rows \<Rightarrow> if length rows = 1 then Some (atoi (hd rows ! 0) mod 2 ^ 32) else None
      | _ \<Rightarrow> None)"

lemma update_session_id_calls:
  assumes "user_id \<noteq> 0"
  shows "\<exists>r c1. update_session_id S user_id k c =
      k (case stored_session S user_id c of None \<Rightarrow> 0 | Some old \<Rightarrow> next_session_id old r) c1
    \<and> sent c1 = sent c @ [session_of_user user_id @ '' limit 1;'']"
proof -
  let ?t = "session_of_user user_id @ '' limit 1;''"
  note q = query_short [OF length_select_session(2) [of user_id], of S]
  obtain r c1 where e: "exec_query_i (database S) ?t c = (r, c1)" by force
  have s: "sent c1 = sent c @ [?t]" using sent_exec_query_i [of "database S" ?t c] e by simp
  obtain n w where nw: "rand_unsigned S (world c1) = (n, w)" by force
  show ?thesis
  proof (cases "\<exists>rows. r = Rows rows \<and> length rows = 1")
    case True
    then obtain rows where r: "r = Rows rows" "length rows = 1" by blast
    define old where "old = atoi (hd rows ! 0) mod 2 ^ 32"
    have "update_session_id S user_id k c = (if old < 0x7fff - 1 then k (rrand (old + 1) 0x7fff n) (c1\<lparr>world := w\<rparr>)
        else if old < 0x7fffffff - 1 then k (rrand (old + 1) 0x7fffffff n) (c1\<lparr>world := w\<rparr>) else k 1 c1)"
      unfolding update_session_id_def if_not_P [OF assms] q e old_def
      by (simp only: r prod.case query_result.case option.case has_one_def refl if_True nw Let_def)
    then have "update_session_id S user_id k c = k (next_session_id old n)
        (if old < 0x7fffffff - 1 then c1\<lparr>world := w\<rparr> else c1)"
      by (simp add: next_session_id_def)
    moreover have "stored_session S user_id c = Some old" unfolding stored_session_def e old_def
      by (simp only: r fst_conv query_result.case refl if_True)
    moreover have "sent (if old < 0x7fffffff - 1 then c1\<lparr>world := w\<rparr> else c1) = sent c @ [?t]" using s by simp
    ultimately show ?thesis by (intro exI conjI) (simp only: option.case, assumption)
  next
    case False
    then have "update_session_id S user_id k c = k 0 c1" "stored_session S user_id c = None"
      unfolding update_session_id_def if_not_P [OF assms] q e stored_session_def
      by (cases r; simp only: prod.case query_result.case option.case has_one_def fst_conv; simp)+
    then show ?thesis using s by auto
  qed
qed

section \<open>Answers\<close>

lemma key_facts [simp]: "\<not> stricmp_eq ''ret'' ''params''" "\<not> stricmp_eq ''params'' ''ret''"
  by code_simp+

lemma get_params_put_param:
  assumes "is_node resp" "is_node (get_object resp ''params'')"
  shows "get_object (get_object (put_param key f resp) ''params'') k =
    (if stricmp_eq k key then Some (f (case get_object (get_object resp ''params'') key of None \<Rightarrow> Null | Some v \<Rightarrow> v))
     else get_object (get_object resp ''params'') k)"
proof -
  obtain p where p: "get_object (put_param key f resp) ''params'' = Some (at_member key f p)"
    "p = (case get_object resp ''params'' of None \<Rightarrow> Null | Some v \<Rightarrow> v)"
    using assms(1) by (simp add: put_param_def get_object_put)
  have "Some (at_member key f p) = put key f (get_object resp ''params'')"
    using assms(2) by (auto simp: p(2) put_def is_node_def split: option.splits json.splits)
  then show ?thesis using get_object_put [OF assms(2)] p(1) by simp
qed

lemma is_node_put_param [simp]:
  "is_node resp \<Longrightarrow> is_node (put_param key f resp)"
  "is_node resp \<Longrightarrow> is_node (get_object resp ''params'') \<Longrightarrow> is_node (get_object (put_param key f resp) ''params'')"
  subgoal by (simp add: put_param_def)
  subgoal by (simp add: put_param_def get_object_put) (auto simp: is_node_def split: option.splits json.splits)
  done

lemma ret_params [simp]:
  "is_node resp \<Longrightarrow> is_node (ret n resp)"
  "is_node resp \<Longrightarrow> get_object (ret n resp) ''params'' = get_object resp ''params''"
  "is_node resp \<Longrightarrow> get_object (put_param key f resp) ''ret'' = get_object resp ''ret''"
  by (simp_all add: ret_def put_param_def get_object_put)

lemma get_ret [simp]:
  "is_node resp \<Longrightarrow> get_object resp ''ret'' = None \<Longrightarrow> get_object (ret n resp) ''ret'' = Some (Integer (response_code n mod 2 ^ 32))"
  by (simp add: ret_def get_object_put)

lemma get_object_None [simp]: "get_object None key = None"
  by (simp add: get_object_def)

definition answer_code :: "'d obj \<Rightarrow> int" where
  "answer_code resp = (case get_object resp ''ret'' of Some (Integer n) \<Rightarrow> n | _ \<Rightarrow> -1)"

lemma response_code_eq_0 [simp]: "response_code n = 0 \<longleftrightarrow> n = Success"
  by (cases n) simp_all

lemma response_code_range: "n \<noteq> Illegal_transaction \<Longrightarrow> response_code n mod 2 ^ 32 = response_code n"
  by (cases n) simp_all

lemma answer_code_ret [simp]: "answer_code (ret n None) = (if n = Illegal_transaction then 2 ^ 32 - 2001 else response_code n)"
  using response_code_range [of n] by (simp add: answer_code_def)

section \<open>Login\<close>

abbreviation login_update :: "('w, 'd) services \<Rightarrow> int \<Rightarrow> int \<Rightarrow> int \<Rightarrow> string" where
  "login_update S session t user_id \<equiv> ''update user set session_id='' @ fmt_u session @ '',latest_time='' @ fmt_d t
     @ '',latest_ip='' @ quoted (peer_address S) @ '' where user_id='' @ fmt_u user_id"

lemma length_select_account: "length (select_account u) = length u + 83"
  by (simp add: select_account_def quoted_def)

lemma CHECK_RD_short:
  "length t < 512 \<Longrightarrow> CHECK_RD S t resp k c = (case exec_query_i (database S) t c of
      (Rows rows, c1) \<Rightarrow> k rows c1 | (_, c1) \<Rightarrow> (Returns (ret Exec_sql_failed resp), c1))"
  by (simp add: CHECK_RD_def query_short respond_def split: prod.splits query_result.splits)

lemma CHECK_WR_short:
  "length t < 512 \<Longrightarrow> CHECK_WR S t resp k c = (case exec_query_i (database S) t c of
      (Query_failed, c1) \<Rightarrow> (Returns (ret Exec_sql_failed resp), c1) | (_, c1) \<Rightarrow> k c1)"
  by (simp add: CHECK_WR_def execute_def exec_query0_def format_statement_fits respond_def
      split: prod.splits query_result.splits)

lemma length_login_update: "length (peer_address S) \<le> 45 \<Longrightarrow> length (login_update S v t u) < 512"
  by (rule fits_less, (rule fits_append fits_quoted fits_numbers fits_self [of "peer_address S"] fits_self)+) simp


text \<open>
  The session id the continuation of a login gets: 0 for the user 0 and when no stored id is found, otherwise one
  that follows the stored one.
\<close>

definition new_session :: "('w, 'd) services \<Rightarrow> int \<Rightarrow> 'w client \<Rightarrow> int \<Rightarrow> bool" where
  "new_session S user_id c v =
     (if user_id = 0 then v = 0
      else case stored_session S user_id c of None \<Rightarrow> v = 0 | Some old \<Rightarrow> \<exists>r. v = next_session_id old r)"

definition session_statements :: "int \<Rightarrow> string list" where
  "session_statements user_id = (if user_id = 0 then [] else [session_of_user user_id @ '' limit 1;''])"

lemma update_session_id_continues:
  "\<exists>v c1. update_session_id S user_id k c = k v c1 \<and> new_session S user_id c v \<and> sent c1 = sent c @ session_statements user_id"
proof (cases "user_id = 0")
  case True
  then show ?thesis by (intro exI [of _ 0] exI [of _ c]) (simp add: update_session_id_def new_session_def session_statements_def)
next
  case False
  obtain r c1 where u: "update_session_id S user_id k c = k (case stored_session S user_id c of None \<Rightarrow> 0 | Some old \<Rightarrow> next_session_id old r) c1"
      "sent c1 = sent c @ [session_of_user user_id @ '' limit 1;'']"
    using update_session_id_calls [OF False] by blast
  have "new_session S user_id c (case stored_session S user_id c of None \<Rightarrow> 0 | Some old \<Rightarrow> next_session_id old r)"
    using False by (auto simp: new_session_def split: option.split)
  then show ?thesis using u False unfolding session_statements_def by (simp only: if_False) blast
qed

text \<open>The end of a login whose password matched.\<close>

definition login_answer :: "int \<Rightarrow> int \<Rightarrow> string list \<Rightarrow> 'd obj \<Rightarrow> 'd obj" where
  "login_answer v user_id row resp = put_param ''session_id'' (set_int (c_int v))
     (put_param ''furthest_distance'' (set_int (atoi (row ! 3)))
     (put_param ''highest_score'' (set_int (atoi (row ! 2)))
     (put_param ''user_id'' (set_int user_id) (ret Success resp))))"

lemma login_keys [simp]:
  "\<not> stricmp_eq ''session_id'' ''furthest_distance''" "\<not> stricmp_eq ''session_id'' ''highest_score''"
  "\<not> stricmp_eq ''session_id'' ''user_id''" "\<not> stricmp_eq ''user_id'' ''session_id''"
  "\<not> stricmp_eq ''user_id'' ''furthest_distance''" "\<not> stricmp_eq ''user_id'' ''highest_score''"
  "\<not> stricmp_eq ''highest_score'' ''session_id''" "\<not> stricmp_eq ''highest_score'' ''furthest_distance''"
  "\<not> stricmp_eq ''furthest_distance'' ''session_id''"
  by code_simp+

lemma login_answer_params:
  "answer_code (login_answer v u row None) = 0"
  "get_object (get_object (login_answer v u row None) ''params'') ''session_id'' = Some (Integer (c_int v mod 2 ^ 32))"
  "get_object (get_object (login_answer v u row None) ''params'') ''user_id'' = Some (Integer (u mod 2 ^ 32))"
  "get_object (get_object (login_answer v u row None) ''params'') ''highest_score'' = Some (Integer (atoi (row ! 2) mod 2 ^ 32))"
  "get_object (get_object (login_answer v u row None) ''params'') ''furthest_distance'' = Some (Integer (atoi (row ! 3) mod 2 ^ 32))"
  by (simp_all add: login_answer_def answer_code_def get_params_put_param)

lemma login_cases:
  assumes "length (getString (get_object req ''params'') ''username'') \<le> 400" "length (peer_address S) \<le> 45"
    and "exec_query_i (database S) (select_account (getString (get_object req ''params'') ''username'')) c = (q, c1)"
  shows "(case q of
      Rows rows \<Rightarrow>
        if length rows \<noteq> 1 then handle_account_login S req resp c = (Returns (ret Username_incorrect resp), c1)
        else if hd rows ! 1 \<noteq> hash_md5 (getString (get_object req ''params'') ''password'')
        then handle_account_login S req resp c = (Returns (ret Password_incorrect resp), c1)
        else \<exists>v t c2 q' c3. new_session S (atoi (hd rows ! 0) mod 2 ^ 32) c1 v
          \<and> sent c2 = sent c1 @ session_statements (atoi (hd rows ! 0) mod 2 ^ 32)
          \<and> exec_query_i (database S) (login_update S v t (atoi (hd rows ! 0))) c2 = (q', c3)
          \<and> handle_account_login S req resp c =
            (Returns (if q' = Query_failed then ret Exec_sql_failed resp
                      else login_answer v (atoi (hd rows ! 0)) (hd rows) resp), c3)
    | _ \<Rightarrow> handle_account_login S req resp c = (Returns (ret Exec_sql_failed resp), c1))"
proof -
  let ?u = "getString (get_object req ''params'') ''username''"
  have "length (select_account ?u) < 512" using assms(1) by (simp add: length_select_account)
  note rd = CHECK_RD_short [OF this, of S]
  show ?thesis
  proof (cases q)
    case (Rows rows)
    show ?thesis
    proof (cases "length rows = 1 \<and> hd rows ! 1 = hash_md5 (getString (get_object req ''params'') ''password'')")
      case False
      then show ?thesis unfolding handle_account_login_def Let_def rd assms(3) Rows
        by (auto simp: has_one_def respond_def)
    next
      case True
      then have one: "has_one rows" by (simp add: has_one_def)
      define k where "k = (\<lambda>v. read_clock S (\<lambda>t. CHECK_WR S (login_update S v t (atoi (hd rows ! 0))) resp
        (respond (login_answer v (atoi (hd rows ! 0)) (hd rows) resp))))"
      have login: "handle_account_login S req resp c = update_session_id S (atoi (hd rows ! 0) mod 2 ^ 32) k c1"
        unfolding handle_account_login_def Let_def rd assms(3) Rows k_def login_answer_def
        by (simp only: prod.case query_result.case one if_True True [THEN conjunct2] refl)
      obtain v c2 where v: "update_session_id S (atoi (hd rows ! 0) mod 2 ^ 32) k c1 = k v c2"
          "new_session S (atoi (hd rows ! 0) mod 2 ^ 32) c1 v" "sent c2 = sent c1 @ session_statements (atoi (hd rows ! 0) mod 2 ^ 32)"
        using update_session_id_continues by blast
      obtain t w where t: "clock_now S (world c2) = (t, w)" by force
      obtain q' c3 where q': "exec_query_i (database S) (login_update S v t (atoi (hd rows ! 0))) (c2\<lparr>world := w\<rparr>) = (q', c3)"
        by force
      have "k v c2 = (Returns (if q' = Query_failed then ret Exec_sql_failed resp
          else login_answer v (atoi (hd rows ! 0)) (hd rows) resp), c3)"
        unfolding k_def read_clock_def t prod.case CHECK_WR_short [OF length_login_update [OF assms(2)]] q'
        by (simp add: respond_def split: query_result.split)
      then have "handle_account_login S req resp c = (Returns (if q' = Query_failed then ret Exec_sql_failed resp
          else login_answer v (atoi (hd rows ! 0)) (hd rows) resp), c3)"
        unfolding login v(1) .
      moreover have "sent (c2\<lparr>world := w\<rparr>) = sent c1 @ session_statements (atoi (hd rows ! 0) mod 2 ^ 32)" using v(3) by simp
      ultimately show ?thesis using True v(2) q' unfolding Rows query_result.case by (simp only: refl if_False not_True_eq_False) blast
    qed
  qed (simp_all only: handle_account_login_def Let_def rd assms(3) prod.case query_result.case)
qed


text \<open>What a login answers, what it sends to the database and the client it leaves, in every case.\<close>

definition login_outcome :: "('w, 'd) services \<Rightarrow> 'd obj \<Rightarrow> 'w client \<Rightarrow> 'd obj \<Rightarrow> 'w client \<Rightarrow> bool" where
  "login_outcome S req c resp c' =
     (let params = get_object req ''params'';
          select = select_account (getString params ''username'');
          (q, c1) = exec_query_i (database S) select c
      in sent c1 = sent c @ [select]
       \<and> (case q of
            Rows rows \<Rightarrow>
              if length rows \<noteq> 1 then resp = ret Username_incorrect None \<and> c' = c1
              else if hd rows ! 1 \<noteq> hash_md5 (getString params ''password'')
              then resp = ret Password_incorrect None \<and> c' = c1
              else
                let row = hd rows;
                    user_id = atoi (row ! 0)
                in \<exists>v t c2 q'. new_session S (user_id mod 2 ^ 32) c1 v
                  \<and> sent c' = sent c1 @ session_statements (user_id mod 2 ^ 32) @ [login_update S v t user_id]
                  \<and> exec_query_i (database S) (login_update S v t user_id) c2 = (q', c')
                  \<and> (if q' = Query_failed then resp = ret Exec_sql_failed None
                     else answer_code resp = 0
                       \<and> get_object (get_object resp ''params'') ''user_id'' = Some (Integer (user_id mod 2 ^ 32))
                       \<and> get_object (get_object resp ''params'') ''session_id'' = Some (Integer (c_int v mod 2 ^ 32))
                       \<and> get_object (get_object resp ''params'') ''highest_score'' = Some (Integer (atoi (row ! 2) mod 2 ^ 32))
                       \<and> get_object (get_object resp ''params'') ''furthest_distance'' = Some (Integer (atoi (row ! 3) mod 2 ^ 32)))
          | _ \<Rightarrow> resp = ret Exec_sql_failed None \<and> c' = c1))"

lemma login_has_outcome:
  assumes "length (getString (get_object req ''params'') ''username'') \<le> 400" "length (peer_address S) \<le> 45"
  shows "\<exists>resp c'. handle_account_login S req None c = (Returns resp, c') \<and> login_outcome S req c resp c'"
proof -
  let ?params = "get_object req ''params''"
  let ?t = "select_account (getString ?params ''username'')"
  obtain q c1 where e: "exec_query_i (database S) ?t c = (q, c1)" by force
  have s1: "sent c1 = sent c @ [?t]" using sent_exec_query_i [of "database S" ?t c] e by simp
  note lc = login_cases [OF assms e, of None]
  have outcome: "login_outcome S req c resp c' \<longleftrightarrow> sent c1 = sent c @ [?t] \<and> (case q of
        Rows rows \<Rightarrow>
          if length rows \<noteq> 1 then resp = ret Username_incorrect None \<and> c' = c1
          else if hd rows ! 1 \<noteq> hash_md5 (getString ?params ''password'') then resp = ret Password_incorrect None \<and> c' = c1
          else \<exists>v t c2 q'. new_session S (atoi (hd rows ! 0) mod 2 ^ 32) c1 v
            \<and> sent c' = sent c1 @ session_statements (atoi (hd rows ! 0) mod 2 ^ 32) @ [login_update S v t (atoi (hd rows ! 0))]
            \<and> exec_query_i (database S) (login_update S v t (atoi (hd rows ! 0))) c2 = (q', c')
            \<and> (if q' = Query_failed then resp = ret Exec_sql_failed None
               else answer_code resp = 0
                 \<and> get_object (get_object resp ''params'') ''user_id'' = Some (Integer (atoi (hd rows ! 0) mod 2 ^ 32))
                 \<and> get_object (get_object resp ''params'') ''session_id'' = Some (Integer (c_int v mod 2 ^ 32))
                 \<and> get_object (get_object resp ''params'') ''highest_score'' = Some (Integer (atoi (hd rows ! 2) mod 2 ^ 32))
                 \<and> get_object (get_object resp ''params'') ''furthest_distance'' = Some (Integer (atoi (hd rows ! 3) mod 2 ^ 32)))
      | _ \<Rightarrow> resp = ret Exec_sql_failed None \<and> c' = c1)" for resp c'
    unfolding login_outcome_def Let_def e prod.case by (rule refl)
  show ?thesis
  proof (cases q)
    case (Rows rows)
    note lc = lc [unfolded Rows query_result.case] and outcome = outcome [unfolded Rows query_result.case]
    show ?thesis
    proof (cases "length rows = 1 \<and> hd rows ! 1 = hash_md5 (getString ?params ''password'')")
      case False
      then show ?thesis using lc s1 unfolding outcome by (cases "length rows = 1") simp_all
    next
      case True
      obtain v t c2 q' c3 where u: "new_session S (atoi (hd rows ! 0) mod 2 ^ 32) c1 v"
          "sent c2 = sent c1 @ session_statements (atoi (hd rows ! 0) mod 2 ^ 32)"
          "exec_query_i (database S) (login_update S v t (atoi (hd rows ! 0))) c2 = (q', c3)"
          "handle_account_login S req None c = (Returns (if q' = Query_failed then ret Exec_sql_failed None
            else login_answer v (atoi (hd rows ! 0)) (hd rows) None), c3)"
        using lc True by auto
      have "sent c3 = sent c1 @ session_statements (atoi (hd rows ! 0) mod 2 ^ 32) @ [login_update S v t (atoi (hd rows ! 0))]"
        using sent_exec_query_i [of "database S" "login_update S v t (atoi (hd rows ! 0))" c2] u(2,3) by (simp del: append_Cons)
      then have "login_outcome S req c (if q' = Query_failed then ret Exec_sql_failed None
          else login_answer v (atoi (hd rows ! 0)) (hd rows) None) c3"
        unfolding outcome using True s1 u(1,3) by (auto simp: login_answer_params simp del: append_Cons)
      then show ?thesis using u(4) by blast
    qed
  qed (use lc s1 outcome in auto)
qed

section \<open>Admitted requests\<close>

text \<open>The client behind a session check that lets the request through.\<close>

definition admit :: "('w, 'd) services \<Rightarrow> 'd obj \<Rightarrow> 'w client \<Rightarrow> 'w client option" where
  "admit S req c =
     (if param S req ''user_id'' = 0 \<or> \<not> session_valid S req c then None
      else
        let c1 = snd (exec_query_i (database S) (select_session S req) c);
            (t, w) = clock_now S (world c1)
        in if t - param S req ''time'' > information_lifetime then None else Some (c1\<lparr>world := w\<rparr>))"

lemma CHECK_SESSION_admits:
  "CHECK_SESSION S req resp k c =
    (case admit S req c of
       Some c1 \<Rightarrow> k c1
     | None \<Rightarrow> (Returns (ret (if param S req ''user_id'' = 0 then Invalid_user_id
           else if session_valid S req c then Request_expired else Session_expired) resp),
         if param S req ''user_id'' = 0 then c
         else let c1 = snd (exec_query_i (database S) (select_session S req) c)
              in if session_valid S req c then c1\<lparr>world := snd (clock_now S (world c1))\<rparr> else c1))"
proof (cases "session_valid S req c \<and> param S req ''user_id'' \<noteq> 0")
  case False
  then show ?thesis
    using CHECK_SESSION_rejects [of S req c resp k] by (auto simp: admit_def CHECK_SESSION_query respond_def Let_def)
next
  case True
  obtain q c1 where e: "exec_query_i (database S) (select_session S req) c = (q, c1)" by force
  obtain t w where t: "clock_now S (world c1) = (t, w)" by force
  obtain rows where "q = Rows rows" "length rows = 1"
    "param S req ''session_id'' mod 2 ^ 32 = atoi (hd rows ! 0) mod 2 ^ 32"
    using True e by (auto simp: session_valid_def split: query_result.splits)
  then show ?thesis using True e t
    by (simp add: CHECK_SESSION_query query_short [OF length_select_session(1)] read_clock_def admit_def respond_def Let_def)
qed

lemma admit_sent: "admit S req c = Some c1 \<Longrightarrow> sent c1 = sent c @ [select_session S req]"
  by (auto simp: admit_def Let_def split: if_splits prod.splits)


text \<open>The statements of a submitted achievement.\<close>

abbreviation select_best :: "('w, 'd) services \<Rightarrow> 'd obj \<Rightarrow> string" where
  "select_best S req \<equiv> ''select highest_score,furthest_distance from user where user_id='' @ fmt_u (param S req ''user_id'')"

abbreviation update_best :: "('w, 'd) services \<Rightarrow> 'd obj \<Rightarrow> int \<Rightarrow> int \<Rightarrow> string" where
  "update_best S req score distance \<equiv> ''update user set role_id='' @ fmt_d (param S req ''role_id'')
     @ '',role_level='' @ fmt_d (param S req ''role_level'') @ '',highest_score='' @ fmt_d score
     @ '',furthest_distance='' @ fmt_d distance @ '' where user_id='' @ fmt_d (param S req ''user_id'')"

lemma max_if: "(if a < b then b else a) = max a (b :: int)"
  by simp

lemma submit_achievement_updates:
  assumes "admit S req c = Some c1" "exec_query_i (database S) (select_best S req) c1 = (Rows [row], c2)"
  shows "\<exists>resp c'. handle_submit_achievement S req resp0 c = (Returns resp, c')
    \<and> sent c' = sent c @ [select_session S req, select_best S req,
        update_best S req (max (atoi (row ! 0)) (param S req ''highest_score''))
          (max (atoi (row ! 1)) (param S req ''furthest_distance''))]"
proof -
  let ?u = "update_best S req (max (atoi (row ! 0)) (param S req ''highest_score''))
    (max (atoi (row ! 1)) (param S req ''furthest_distance''))"
  have l: "length (select_best S req) < 512" "length ?u < 512"
    by (rule fits_less, (rule fits_intros)+, simp)+
  have s2: "sent c2 = sent c @ [select_session S req, select_best S req]"
    using sent_exec_query_i [of "database S" "select_best S req" c1] assms admit_sent [OF assms(1)]
    by (simp del: append_Cons)
  have one: "has_one [row] = True" by (simp add: has_one_def)
  obtain q c3 where q: "exec_query_i (database S) ?u c2 = (q, c3)" by force
  have s3: "sent c3 = sent c @ [select_session S req, select_best S req, ?u]"
    using sent_exec_query_i [of "database S" ?u c2] unfolding q s2 snd_conv by (simp only: append_assoc append.simps)
  have "\<exists>resp. handle_submit_achievement S req resp0 c = (Returns resp, c3)"
    unfolding handle_submit_achievement_def CHECK_SESSION_admits assms(1) option.case CHECK_RD_short [OF l(1)] assms(2)
      prod.case query_result.case one not_True_eq_False if_False Let_def list.sel max_if CHECK_WR_short [OF l(2)] q
    by (cases q) (simp_all add: respond_def)
  then show ?thesis using s3 by blast
qed

abbreviation select_power :: "('w, 'd) services \<Rightarrow> 'd obj \<Rightarrow> string" where
  "select_power S req \<equiv> ''select send_power_time from user_friends where user_id='' @ fmt_d (param S req ''user_id'')
     @ '' and friend_id='' @ fmt_d (param S req ''receiver_id'')"

lemma give_power_refused:
  assumes "admit S req c = Some c1" "exec_query_i (database S) (select_power S req) c1 = (Rows [row], c2)"
    and "clock_now S (world c2) = (t, w)" "t - atoll (row ! 0) \<le> send_power_interval"
  shows "handle_give_power S req resp c = (Returns (ret Invalid_request resp), c2\<lparr>world := w\<rparr>)"
proof -
  have l: "length (select_power S req) < 512"
    by (rule fits_less, (rule fits_intros)+, simp)
  have n: "\<not> send_power_interval < t - atoll (row ! 0)" using assms(4) by simp
  show ?thesis
    unfolding handle_give_power_def CHECK_SESSION_admits assms(1) option.case CHECK_RD_short [OF l] assms(2)
      prod.case query_result.case has_one_def Let_def read_clock_def
    by (simp add: assms(3) n respond_def)
qed

section \<open>The friend list\<close>

definition friend_ids :: "string list list \<Rightarrow> string" where
  "friend_ids rows = concat (map (\<lambda>row. row ! 0 @ '','') rows)"

lemma friend_flags_ids: "fst (friend_flags S rows w) = friend_ids rows"
proof (induction rows arbitrary: w)
  case (Cons row rows)
  obtain t w1 where t: "clock_now S w = (t, w1)" by force
  obtain ids table w2 where f: "friend_flags S rows w1 = (ids, table, w2)" by (metis prod_cases3)
  show ?case using Cons.IH [of w1] t f by (simp add: friend_ids_def)
qed (simp add: friend_ids_def)

text \<open>The second query of the friend list is formatted into the statement buffer with all the ids.\<close>

lemma friend_list_out_of_bounds:
  assumes "admit S req c = Some c1"
    and "exec_query_i (database S) (''select friend_id,send_power_time,is_challenging from user_friends where user_id=''
      @ fmt_d (param S req ''user_id'') @ '' limit 50;'') c1 = (Rows rows, c2)"
    and "length (select_friends (friend_ids rows) (param S req ''user_id'')) > 512"
  shows "fst (handle_get_friend_list S req resp c) = OutOfBounds"
proof -
  have l: "length (''select friend_id,send_power_time,is_challenging from user_friends where user_id=''
      @ fmt_d (param S req ''user_id'') @ '' limit 50;'') < 512"
    by (rule fits_less, (rule fits_intros)+, simp)
  obtain ids table w2 where f: "friend_flags S rows (world c2) = (ids, table, w2)" by (metis prod_cases3)
  then have ids: "ids = friend_ids rows" using friend_flags_ids [of S rows "world c2"] by simp
  have o: "format_statement (select_friends (friend_ids rows) (param S req ''user_id'')) = OutOfBounds"
    using assms(3) by (simp add: format_statement_def SQL_MAX_LEN_def)
  show ?thesis
    unfolding handle_get_friend_list_def CHECK_SESSION_admits assms(1) option.case CHECK_RD_short [OF l] assms(2)
      prod.case query_result.case f ids
    unfolding CHECK_RD_def query_def exec_query1_def o by simp
qed

section \<open>Properties\<close>

text \<open>
  C5. A request that needs a session and is not admitted - no user id, another session id than the
  stored one, a stale time - is answered with one of the three codes and nothing else in its response,
  and the database has seen at most the query of the session.
\<close>

theorem session_required:
  assumes "guarded ty" and "admit S req c = None"
  shows "\<exists>n \<in> {Invalid_user_id, Session_expired, Request_expired}. \<exists>c'. handler ty S req resp c = (Returns (ret n resp), c')
    \<and> sent c' = sent c @ (if param S req ''user_id'' = 0 then [] else [session_of_user (param S req ''user_id'')])"
proof -
  obtain k where k: "handler ty S req resp = CHECK_SESSION S req resp k" using handler_guarded [OF assms(1)] by blast
  show ?thesis unfolding k CHECK_SESSION_admits assms(2) by (auto simp: Let_def)
qed

text \<open>
  A database for examples: it answers the listed results in turn; the clock stands at 100, and the
  random numbers are zeros.
\<close>

definition scripted_mysql :: "query_result list mysql" where
  "scripted_mysql = \<lparr>mysql_query = (\<lambda>q w. (if w = [] then No_rows_stored else hd w, tl w)), mysql_connected = (\<lambda>w. True),
     mysql_errno = (\<lambda>w. 0), mysql_ping_ok = (\<lambda>w. True), mysql_reopen = (\<lambda>w. w), mysql_insert_id = (\<lambda>w. 1)\<rparr>"

definition plain_doubles :: "int doubles" where
  "plain_doubles = \<lparr>dbl_value = (\<lambda>s i f e. s * i), dbl_same = (=), dbl_in_int = (\<lambda>d. True),
     dbl_to_int = (\<lambda>d. d), dbl_integral = (\<lambda>d. True), dbl_extreme = (\<lambda>d. False), dbl_f0 = show_int,
     dbl_e = show_int, dbl_f = show_int\<rparr>"

definition scripted :: "(query_result list, int) services" where
  "scripted = \<lparr>database = scripted_mysql, doubles_of = plain_doubles, low_byte = (\<lambda>d. d mod 256 \<noteq> 0),
     narrow_float = (\<lambda>d. d), atof_float = decimal, clock_now = (\<lambda>w. (100, w)), rand_unsigned = (\<lambda>w. (0, w)),
     peer_address = ''10.0.0.1'', http_req = (\<lambda>u m b w. ([], w))\<rparr>"

definition scripted_client :: "query_result list \<Rightarrow> query_result list client" where
  "scripted_client rs = \<lparr>world = rs, sent = []\<rparr>"

definition sample_request :: "(string \<times> int json) list \<Rightarrow> int obj" where
  "sample_request ms = Some (Object [(''params'', Object ms)])"

lemma session_required_witness:
  "\<exists>n \<in> {Invalid_user_id, Session_expired, Request_expired}. \<exists>c'.
    handler Collect_mail scripted (sample_request [(''user_id'', Integer 7), (''session_id'', Integer 5)]) None
      (scripted_client [Rows [[''6'']]]) = (Returns (ret n None), c') \<and> length (sent c') \<le> 1"
proof -
  let ?req = "sample_request [(''user_id'', Integer 7), (''session_id'', Integer 5)]"
  have "admit scripted ?req (scripted_client [Rows [[''6'']]]) = None" by code_simp
  moreover have "guarded Collect_mail" by code_simp
  ultimately show ?thesis
    using session_required [of Collect_mail scripted ?req "scripted_client [Rows [[''6'']]]" None]
    by (fastforce simp: scripted_client_def)
qed

text \<open>
  C25. The requests whose statements are fixed texts with numbers always return: no statement is longer
  than the buffer it is formatted into.
\<close>

theorem requests_in_bounds:
  assumes "fixed_statements ty" and "length (peer_address S) \<le> 45"
  shows "\<exists>r. fst (handler ty S req resp c) = Returns r"
  using returns_fixed [OF assms] by (auto simp: returns_def)

lemma requests_in_bounds_witness:
  "\<exists>r. fst (handler Send_invite scripted None None (scripted_client [])) = Returns r"
  using requests_in_bounds [of Send_invite scripted None None "scripted_client []"]
  by (simp add: fixed_statements_def scripted_def)

text \<open>
  C8. What a login with a name of up to 400 and an address of up to 45 characters answers and sends, in each case.
  It first selects the account. When that statement fails it answers with the code of a failed statement, when it does not
  find one row with that of a wrong name, and when the row's password is not the MD5 of the one given with that of a
  wrong password, sending nothing more. Otherwise it asks for the stored session id and sends the update with a new one; when
  the update fails it answers that, else with success, the user's and the new session's ids and the two best values.
\<close>

theorem login_outcomes:
  assumes "length (getString (get_object req ''params'') ''username'') \<le> 400" and "length (peer_address S) \<le> 45"
  shows "\<exists>resp c'. handle_account_login S req None c = (Returns resp, c') \<and> login_outcome S req c resp c'"
  by (rule login_has_outcome [OF assms])

lemma login_outcomes_witness:
  "\<exists>resp c'. handle_account_login scripted (sample_request [(''username'', String ''bob'')]) None (scripted_client [Rows []])
      = (Returns resp, c')
    \<and> login_outcome scripted (sample_request [(''username'', String ''bob'')]) (scripted_client [Rows []]) resp c'"
proof (rule login_outcomes)
  show "length (getString (get_object (sample_request [(''username'', String ''bob'')]) ''params'') ''username'') \<le> 400"
    by code_simp
  show "length (peer_address scripted) \<le> 45" by (simp add: scripted_def)
qed

text \<open>
  C9. An admitted achievement leaves the stored best values no smaller: the one update sent carries
  the greater of the stored and the submitted score and distance.
\<close>

theorem achievement_keeps_best:
  assumes "admit S req c = Some c1" and "exec_query_i (database S) (select_best S req) c1 = (Rows [row], c2)"
  shows "\<exists>resp c'. handle_submit_achievement S req None c = (Returns resp, c')
    \<and> sent c' = sent c @ [session_of_user (param S req ''user_id''), select_best S req,
        update_best S req (max (atoi (row ! 0)) (param S req ''highest_score''))
          (max (atoi (row ! 1)) (param S req ''furthest_distance''))]"
  by (rule submit_achievement_updates [OF assms])

lemma achievement_keeps_best_witness:
  "\<exists>resp c'. handle_submit_achievement scripted
      (sample_request [(''user_id'', Integer 7), (''session_id'', Integer 5), (''time'', Integer 90), (''highest_score'', Integer 12)])
      None (scripted_client [Rows [[''5'']], Rows [[''10'', ''20'']], No_rows_stored]) = (Returns resp, c')
    \<and> length (sent c') = 3"
proof -
  let ?req = "sample_request [(''user_id'', Integer 7), (''session_id'', Integer 5), (''time'', Integer 90),
    (''highest_score'', Integer 12)]"
  let ?c = "scripted_client [Rows [[''5'']], Rows [[''10'', ''20'']], No_rows_stored]"
  let ?c1 = "\<lparr>world = [Rows [[''10'', ''20'']], No_rows_stored], sent = [session_of_user 7]\<rparr>"
  have "admit scripted ?req ?c = Some ?c1" by code_simp
  moreover have "exec_query_i (database scripted) (select_best scripted ?req) ?c1 = (Rows [[''10'', ''20'']],
      \<lparr>world = [No_rows_stored], sent = [session_of_user 7, select_best scripted ?req]\<rparr>)" by code_simp
  ultimately show ?thesis
    using achievement_keeps_best [of scripted ?req ?c ?c1 "[''10'', ''20'']"] by (fastforce simp: scripted_client_def)
qed

text \<open>
  C26. When the query for the stored session id of a login finds one, the new id is positive, fits in a signed integer
  and is greater than the stored one until that has reached \<open>0x7ffffffe\<close>, when it starts again at 1; when
  the query fails or finds none, the new id is 0.
\<close>

theorem session_ids_advance:
  assumes "user_id \<noteq> 0"
  shows "\<exists>v c1. update_session_id S user_id k c = k v c1 \<and> sent c1 = sent c @ [session_of_user user_id @ '' limit 1;'']
    \<and> (case stored_session S user_id c of
         None \<Rightarrow> v = 0
       | Some old \<Rightarrow> 0 < v \<and> v < 0x7fffffff \<and> (if old < 0x7ffffffe then old < v else v = 1))"
proof -
  obtain r c1 where u: "update_session_id S user_id k c =
      k (case stored_session S user_id c of None \<Rightarrow> 0 | Some old \<Rightarrow> next_session_id old r) c1"
    "sent c1 = sent c @ [session_of_user user_id @ '' limit 1;'']"
    using update_session_id_calls [OF assms] by blast
  have "0 \<le> old" if "stored_session S user_id c = Some old" for old
    using that by (auto simp: stored_session_def split: query_result.splits if_splits)
  then have "case stored_session S user_id c of None \<Rightarrow> True | Some old \<Rightarrow>
      0 < next_session_id old r \<and> next_session_id old r < 0x7fffffff
      \<and> (if old < 0x7ffffffe then old < next_session_id old r else next_session_id old r = 1)"
    using next_session_id_range [of _ r] by (cases "stored_session S user_id c") (auto simp: next_session_id_def)
  then show ?thesis
    using u by (intro exI [of _ "case stored_session S user_id c of None \<Rightarrow> 0 | Some old \<Rightarrow> next_session_id old r"] exI [of _ c1])
      (simp split: option.splits)
qed

lemma session_ids_advance_witness:
  "\<exists>v c1. update_session_id scripted 7 (\<lambda>v. respond (ret Success None)) (scripted_client [Rows [[''40'']]])
      = respond (ret Success None) c1 \<and> 40 < v \<and> v < (0x7fffffff :: int)"
proof -
  have "stored_session scripted 7 (scripted_client [Rows [[''40'']]]) = Some 40" by code_simp
  then show ?thesis
    using session_ids_advance [of 7 scripted "\<lambda>v. respond (ret Success None)" "scripted_client [Rows [[''40'']]]"] by auto
qed

end
