(* ===== verification/CryptoWrapper.thy ===== *)
theory CryptoWrapper
  imports Json
begin

text \<open>
  The encodings around the server's messages: the padding and chaining of
  \<^verbatim>\<open>refs/httpserver/thelib/utils/crypto_wrapper.h\<close>, \<^verbatim>\<open>aes_wrapper.cpp\<close> and \<^verbatim>\<open>aes_modes.c\<close>, the percent
  encoding of \<^verbatim>\<open>crypto_wrapper.cpp\<close> with the digits of \<^verbatim>\<open>crypto_utils.c\<close>, and the decoding of paths of
  \<^verbatim>\<open>request_handler.cpp\<close>. The AES block functions under a key, OpenSSL's, are arguments.
\<close>

section \<open>Cipher block chaining\<close>

definition AES_BLOCK_SIZE :: nat where
  "AES_BLOCK_SIZE = 16"

definition pkcs :: "string \<Rightarrow> string" where
  "pkcs plaintext =
     (let padding_size = AES_BLOCK_SIZE - length plaintext mod AES_BLOCK_SIZE
      in plaintext @ replicate padding_size (char_of padding_size))"

definition xor_char :: "char \<Rightarrow> char \<Rightarrow> char" where
  "xor_char x y = char_of (xor (char_code x) (char_code y))"

text \<open>
  The loops over whole blocks. A last block that is not whole makes both functions leave their
  buffers: encryption writes sixteen bytes of it, decryption reads sixteen.
\<close>

function cbc128_encrypt :: "(string \<Rightarrow> string) \<Rightarrow> string \<Rightarrow> string \<Rightarrow> string outcome" where
  "cbc128_encrypt block iv inp =
     (if inp = [] then Returns []
      else if length inp < AES_BLOCK_SIZE then OutOfBounds
      else
        let out = block (map2 xor_char (take AES_BLOCK_SIZE inp) iv)
        in bind_outcome (cbc128_encrypt block out (drop AES_BLOCK_SIZE inp)) (\<lambda>rest. Returns (out @ rest)))"
  by pat_completeness auto

termination
  by (relation "measure (\<lambda>(block, iv, inp). length inp)") (auto simp: AES_BLOCK_SIZE_def)

function cbc128_decrypt :: "(string \<Rightarrow> string) \<Rightarrow> string \<Rightarrow> string \<Rightarrow> string outcome" where
  "cbc128_decrypt block iv inp =
     (if inp = [] then Returns []
      else if length inp < AES_BLOCK_SIZE then OutOfBounds
      else
        let c = take AES_BLOCK_SIZE inp
        in bind_outcome (cbc128_decrypt block c (drop AES_BLOCK_SIZE inp)) (\<lambda>rest.
             Returns (map2 xor_char (block c) iv @ rest)))"
  by pat_completeness auto

termination
  by (relation "measure (\<lambda>(block, iv, inp). length inp)") (auto simp: AES_BLOCK_SIZE_def)

declare cbc128_encrypt.simps [simp del] cbc128_decrypt.simps [simp del]

definition ivec :: string where
  "ivec = map char_of [0x00, 0x23, 0x4b, 0x89, 0xaa, 0x96, 0xfe, 0xcd,
     0xaf, 0x80, 0xfb, 0xf1, 0x78, 0xa2, 0x56, 0x21 :: nat]"

definition aes_cbc_encrypt :: "(string \<Rightarrow> string) \<Rightarrow> string \<Rightarrow> string outcome" where
  "aes_cbc_encrypt aes_encrypt inp = cbc128_encrypt aes_encrypt ivec inp"

text \<open>
  Decryption gives the whole output and the length without padding, which stays \<open>outlen\<close> when the
  padding is not shorter than the input. A padding byte above 127 is a negative \<^verbatim>\<open>char\<close> and a huge size.
\<close>

definition aes_cbc_decrypt :: "(string \<Rightarrow> string) \<Rightarrow> string \<Rightarrow> nat \<Rightarrow> (string \<times> nat) outcome" where
  "aes_cbc_decrypt aes_decrypt inp outlen =
     bind_outcome (cbc128_decrypt aes_decrypt ivec inp) (\<lambda>out.
     if inp = [] then OutOfBounds
     else
       let padding_size = nat (schar (out ! (length inp - 1)) mod 2 ^ 64)
       in Returns (out, if length inp > padding_size then length inp - padding_size else outlen))"

section \<open>Percent encoding\<close>

definition hex2uchr :: "nat \<Rightarrow> char" where
  "hex2uchr hex = char_of (if hex > 9 then hex - 10 + 65 else hex + 48)"

definition uchr2hex :: "char \<Rightarrow> nat" where
  "uchr2hex ch = nat ((if is_digit ch then int (char_code ch) - 48 else int (char_code ch) - 65 + 10) mod 256)"

definition is_alnum :: "char \<Rightarrow> bool" where
  "is_alnum c = (is_digit c \<or> (CHR ''A'' \<le> c \<and> c \<le> CHR ''Z'') \<or> (CHR ''a'' \<le> c \<and> c \<le> CHR ''z''))"

definition encode_uchr :: "char \<Rightarrow> string" where
  "encode_uchr c = (if is_alnum c then [c]
     else [CHR ''%'', hex2uchr (char_code c div 16), hex2uchr (char_code c mod 16)])"

definition urlencode :: "string \<Rightarrow> string" where
  "urlencode inp = concat (map encode_uchr inp)"

text \<open>Two characters behind a percent sign are read; the first place behind the text is its NUL.\<close>

fun urldecode :: "string \<Rightarrow> string outcome" where
  "urldecode [] = Returns []"
| "urldecode (c # cs) =
     (if c = CHR ''%'' then
        (case cs of
           [] \<Rightarrow> OutOfBounds
         | [a] \<Rightarrow> Returns [char_of (or (uchr2hex a * 16 mod 256) (uchr2hex (CHR 0x00)))]
         | a # b # rest \<Rightarrow> bind_outcome (urldecode rest) (\<lambda>t.
             Returns (char_of (or (uchr2hex a * 16 mod 256) (uchr2hex b)) # t)))
      else bind_outcome (urldecode cs) (\<lambda>t. Returns ((if c = CHR ''+'' then CHR '' '' else c) # t)))"

text \<open>
  \<^verbatim>\<open>is >> std::hex >> value\<close> on a text: white space, a sign, an optional prefix, hexadecimal digits.
\<close>

fun hex_number :: "nat \<Rightarrow> string \<Rightarrow> nat" where
  "hex_number acc [] = acc"
| "hex_number acc (c # cs) = (case hex_value c of None \<Rightarrow> acc | Some v \<Rightarrow> hex_number (acc * 16 + v) cs)"

definition extract_hex :: "string \<Rightarrow> int option" where
  "extract_hex s =
     (let t = dropWhile is_space s;
          (sgn, u) = (case t of
              [] \<Rightarrow> (1, [])
            | c # cs \<Rightarrow> if c = CHR ''-'' then (-1, cs) else if c = CHR ''+'' then (1, cs) else (1, t));
          v = (if take 2 u = ''0x'' \<or> take 2 u = ''0X'' then drop 2 u else u)
      in if v = [] \<or> hex_value (hd v) = None then None else Some (sgn * int (hex_number 0 v)))"

fun url_decode :: "string \<Rightarrow> string option" where
  "url_decode [] = Some []"
| "url_decode (c # cs) =
     (if c = CHR ''%'' then
        (case cs of
           a # b # rest \<Rightarrow>
             (case extract_hex [a, b] of
                Some value \<Rightarrow> map_option (\<lambda>t. char_of (nat (value mod 256)) # t) (url_decode rest)
              | None \<Rightarrow> None)
         | _ \<Rightarrow> None)
      else map_option (\<lambda>t. (if c = CHR ''+'' then CHR '' '' else c) # t) (url_decode cs))"

section \<open>The percent encoding read back\<close>

lemma hex2uchr_check:
  "list_all (\<lambda>h. hex_value (hex2uchr h) = Some h \<and> uchr2hex (hex2uchr h) = h
     \<and> \<not> is_space (hex2uchr h) \<and> hex2uchr h \<notin> set ''+-xX'') [0..<16]"
  by code_simp

lemma hex2uchr_facts:
  assumes "h < 16"
  shows "hex_value (hex2uchr h) = Some h" "uchr2hex (hex2uchr h) = h" "\<not> is_space (hex2uchr h)"
    "hex2uchr h \<noteq> CHR ''+''" "hex2uchr h \<noteq> CHR ''-''" "hex2uchr h \<noteq> CHR ''x''" "hex2uchr h \<noteq> CHR ''X''"
proof -
  have "h \<in> set [0..<16]" using assms by simp
  then have "hex_value (hex2uchr h) = Some h \<and> uchr2hex (hex2uchr h) = h
     \<and> \<not> is_space (hex2uchr h) \<and> hex2uchr h \<notin> set ''+-xX''"
    using hex2uchr_check unfolding list_all_iff by (rule bspec [rotated])
  then show "hex_value (hex2uchr h) = Some h" "uchr2hex (hex2uchr h) = h" "\<not> is_space (hex2uchr h)"
    "hex2uchr h \<noteq> CHR ''+''" "hex2uchr h \<noteq> CHR ''-''" "hex2uchr h \<noteq> CHR ''x''" "hex2uchr h \<noteq> CHR ''X''"
    by auto
qed

lemma nibble_or: "l < 16 \<Longrightarrow> or (h * 16) l = h * 16 + (l :: nat)"
proof -
  assume "l < 16"
  then have l: "take_bit 4 l = l" by (simp add: take_bit_eq_mod)
  have "h * 16 = push_bit 4 h" by (simp add: push_bit_eq_mult)
  moreover have "push_bit 4 h + l = or (push_bit 4 h) l"
    by (rule disjunctive_add_eq_or) (subst l [symmetric], rule bit_eqI, simp add: bit_simps)
  ultimately show ?thesis by simp
qed

lemma hex_pair:
  assumes "n < 256"
  shows "extract_hex [hex2uchr (n div 16), hex2uchr (n mod 16)] = Some (int n)"
    and "or (uchr2hex (hex2uchr (n div 16)) * 16 mod 256) (uchr2hex (hex2uchr (n mod 16))) = n"
proof -
  have h: "n div 16 < 16" "n mod 16 < 16" using assms by (simp_all add: less_mult_imp_div_less)
  have "n div 16 * 16 mod 256 = n div 16 * 16" using h(1) by simp
  moreover have "n div 16 * 16 + n mod 16 = n" by simp
  ultimately show "extract_hex [hex2uchr (n div 16), hex2uchr (n mod 16)] = Some (int n)"
    "or (uchr2hex (hex2uchr (n div 16)) * 16 mod 256) (uchr2hex (hex2uchr (n mod 16))) = n"
    using hex2uchr_facts [OF h(1)] hex2uchr_facts [OF h(2)] nibble_or [OF h(2)]
    by (simp_all add: extract_hex_def Let_def)
qed

lemma alnum_plain: "is_alnum c \<Longrightarrow> c \<noteq> CHR ''%'' \<and> c \<noteq> CHR ''+''"
  by (auto simp: is_alnum_def is_digit_def less_eq_char_def)

lemma decode_uchr:
  "url_decode (encode_uchr c @ rest) = map_option (\<lambda>t. c # t) (url_decode rest)"
  "urldecode (encode_uchr c @ rest) = bind_outcome (urldecode rest) (\<lambda>t. Returns (c # t))"
  using alnum_plain [of c] hex_pair [OF char_code_less, of c] by (auto simp: encode_uchr_def)

lemma urlencode_decoded:
  "url_decode (urlencode s) = Some s" "urldecode (urlencode s) = Returns s"
  by (induction s) (simp_all add: urlencode_def decode_uchr)

section \<open>The chaining undone\<close>

lemma xor_char_twice [simp]: "xor_char (xor_char x y) y = x"
proof -
  have "take_bit 8 (xor (take_bit 8 (xor (char_code x) (char_code y))) (char_code y)) = take_bit 8 (char_code x)"
    by (rule bit_eqI) (auto simp: bit_simps)
  then have "xor (xor (char_code x) (char_code y) mod 256) (char_code y) mod 256 = char_code x mod 256"
    by (simp add: take_bit_eq_mod)
  then show ?thesis unfolding xor_char_def by (subst char_code_eq) simp
qed

lemma map2_xor_twice: "length a \<le> length b \<Longrightarrow> map2 xor_char (map2 xor_char a b) b = a"
proof (induction a arbitrary: b)
  case (Cons x a)
  then show ?case by (cases b) auto
qed simp

lemma cbc_roundtrip:
  assumes "\<forall>b. length b = 16 \<longrightarrow> length (enc b) = 16 \<and> dec (enc b) = b"
  shows "length iv = 16 \<Longrightarrow> length inp mod 16 = 0 \<Longrightarrow>
    \<exists>out. cbc128_encrypt enc iv inp = Returns out \<and> length out = length inp \<and> cbc128_decrypt dec iv out = Returns inp"
proof (induction "length inp" arbitrary: iv inp rule: less_induct)
  case less
  show ?case
  proof (cases "inp = []")
    case True
    then show ?thesis by (simp add: cbc128_encrypt.simps cbc128_decrypt.simps)
  next
    case False
    then have n: "16 \<le> length inp" using less.prems(2) by (cases "length inp < 16") auto
    define x where "x = map2 xor_char (take 16 inp) iv"
    have x: "length x = 16" using n less.prems(1) by (simp add: x_def)
    then have e: "length (enc x) = 16" "dec (enc x) = x" using assms by auto
    have d: "length (drop 16 inp) < length inp" "length (drop 16 inp) mod 16 = 0"
      using n less.prems(2) by (simp_all add: mod_if [of "length inp"] le_mod_geq)
    obtain out where out: "cbc128_encrypt enc (enc x) (drop 16 inp) = Returns out"
      "length out = length (drop 16 inp)" "cbc128_decrypt dec (enc x) out = Returns (drop 16 inp)"
      using less.hyps [OF d(1) e(1) d(2)] by (elim exE conjE)
    have "map2 xor_char x iv = take 16 inp" unfolding x_def using less.prems(1) by (simp add: map2_xor_twice)
    moreover have "enc x \<noteq> []" using e(1) by auto
    ultimately have "cbc128_decrypt dec iv (enc x @ out) = Returns inp"
      using out(3) e by (subst cbc128_decrypt.simps) (simp add: AES_BLOCK_SIZE_def Let_def)
    moreover have "cbc128_encrypt enc iv inp = Returns (enc x @ out)"
      using out(1) False n by (subst cbc128_encrypt.simps) (simp add: AES_BLOCK_SIZE_def Let_def x_def)
    ultimately show ?thesis using out(2) e(1) n by simp
  qed
qed

lemma length_pkcs: "length (pkcs s) mod 16 = 0" "length s < length (pkcs s)"
proof -
  have "length s + (16 - length s mod 16) = (length s div 16 + 1) * 16"
    by presburger
  then show "length (pkcs s) mod 16 = 0" by (simp add: pkcs_def AES_BLOCK_SIZE_def Let_def)
  show "length s < length (pkcs s)" by (simp add: pkcs_def AES_BLOCK_SIZE_def Let_def)
qed

lemma take_pkcs [simp]: "take (length s) (pkcs s) = s"
  by (simp add: pkcs_def Let_def)

lemma last_pkcs: "schar (pkcs s ! (length (pkcs s) - 1)) = int (length (pkcs s) - length s)"
proof -
  define k where "k = 16 - length s mod 16"
  have k: "0 < k" "k \<le> 16" by (simp_all add: k_def)
  have p: "pkcs s = s @ replicate k (char_of k)" by (simp add: pkcs_def AES_BLOCK_SIZE_def k_def Let_def)
  have "\<not> length s + k - Suc 0 < length s" using k(1) by linarith
  then have "pkcs s ! (length (pkcs s) - 1) = char_of k" using k by (simp add: p nth_append)
  moreover have "schar (char_of k) = int k" using k by (simp add: schar_def Let_def)
  ultimately show ?thesis by (simp add: p)
qed

lemma aes_roundtrip:
  assumes "\<forall>b. length b = 16 \<longrightarrow> length (enc b) = 16 \<and> dec (enc b) = b"
  shows "\<exists>out. aes_cbc_encrypt enc (pkcs s) = Returns out \<and> out \<noteq> [] \<and> length out mod 16 = 0
    \<and> length out = length (pkcs s) \<and> aes_cbc_decrypt dec out 0 = Returns (pkcs s, length s)"
proof -
  have "length ivec = 16" by (simp add: ivec_def)
  then obtain out where out: "cbc128_encrypt enc ivec (pkcs s) = Returns out" "length out = length (pkcs s)"
    "cbc128_decrypt dec ivec out = Returns (pkcs s)"
    using cbc_roundtrip [OF assms _ length_pkcs(1)] by blast
  have "out \<noteq> []" using out(2) length_pkcs(2) [of s] by auto
  moreover have "nat (int (length (pkcs s) - length s) mod 2 ^ 64) = length (pkcs s) - length s"
  proof -
    have "length (pkcs s) - length s \<le> 16" by (simp add: pkcs_def AES_BLOCK_SIZE_def Let_def)
    then show ?thesis by simp
  qed
  ultimately have "aes_cbc_decrypt dec out 0 = Returns (pkcs s, if length (pkcs s) > length (pkcs s) - length s
      then length (pkcs s) - (length (pkcs s) - length s) else 0)"
    using out(2,3) by (simp add: aes_cbc_decrypt_def last_pkcs [unfolded One_nat_def] Let_def)
  also have "\<dots> = Returns (pkcs s, length s)" using length_pkcs(2) [of s] by (cases s) auto
  finally show ?thesis using out length_pkcs(1) [of s] \<open>out \<noteq> []\<close> by (simp add: aes_cbc_encrypt_def)
qed

end
