(* ===== verification/HttpParser.thy ===== *)
theory HttpParser
  imports CLib
begin

text \<open>
  The HTTP request parser, \<^verbatim>\<open>refs/httpserver/request_parser.hpp\<close> and \<^verbatim>\<open>request_parser.cpp\<close>: a
  state machine fed one character at a time, its loop over a buffer, and the requests it accepts.
\<close>

section \<open>The state machine\<close>

record header =
  hd_name :: string
  hd_value :: string

record request =
  req_method :: string
  req_uri :: string
  req_major :: int
  req_minor :: int
  req_header_length :: nat
  req_headers :: "header list"
  req_content_length :: nat
  req_content :: string

datatype result_type = Good | Bad | Indeterminate

datatype parse_state = Method_start | Method | Uri | Http_version_h | Http_version_t_1
  | Http_version_t_2 | Http_version_p | Http_version_slash | Http_version_major_start
  | Http_version_major | Http_version_minor_start | Http_version_minor | Expecting_newline_1
  | Header_line_start | Header_lws | Header_name | Space_before_header_value | Header_value
  | Expecting_newline_2 | Expecting_newline_3

definition is_char :: "int \<Rightarrow> bool" where
  "is_char c = (0 \<le> c \<and> c \<le> 127)"

definition is_ctl :: "int \<Rightarrow> bool" where
  "is_ctl c = ((0 \<le> c \<and> c \<le> 31) \<or> c = 127)"

definition tspecials :: string where
  "tspecials = ''()<>@,;:'' @ [CHR 0x5C, CHR 0x22] @ ''/[]?={} '' @ [CHR 0x09]"

definition is_tspecial :: "int \<Rightarrow> bool" where
  "is_tspecial c = (c \<in> set (map schar tspecials))"

definition token_char :: "char \<Rightarrow> bool" where
  "token_char c = (is_char (schar c) \<and> \<not> is_ctl (schar c) \<and> \<not> is_tspecial (schar c))"

definition CR :: char where "CR = CHR 0x0D"
definition LF :: char where "LF = CHR 0x0A"
definition TAB :: char where "TAB = CHR 0x09"

text \<open>\<^verbatim>\<open>headers.back().name.push_back\<close> and its like; \<^verbatim>\<open>back()\<close> is used on a non-empty vector only.\<close>

definition push_name :: "char \<Rightarrow> request \<Rightarrow> request" where
  "push_name c r = r\<lparr>req_headers := butlast (req_headers r)
     @ [last (req_headers r)\<lparr>hd_name := hd_name (last (req_headers r)) @ [c]\<rparr>]\<rparr>"

definition push_value :: "char \<Rightarrow> request \<Rightarrow> request" where
  "push_value c r = r\<lparr>req_headers := butlast (req_headers r)
     @ [last (req_headers r)\<lparr>hd_value := hd_value (last (req_headers r)) @ [c]\<rparr>]\<rparr>"

definition push_digit :: "int \<Rightarrow> char \<Rightarrow> int" where
  "push_digit v c = c_int (v * 10 + schar c - 48)"

definition size_of_int :: "int \<Rightarrow> nat" where
  "size_of_int v = nat (v mod 2 ^ 64)"

definition note_content_length :: "request \<Rightarrow> request" where
  "note_content_length r =
     (if req_headers r \<noteq> [] \<and> stricmp_eq ''Content-Length'' (hd_name (last (req_headers r)))
      then r\<lparr>req_content_length := size_of_int (atoi (hd_value (last (req_headers r))))\<rparr> else r)"

fun consume :: "parse_state \<Rightarrow> request \<Rightarrow> char \<Rightarrow> result_type \<times> parse_state \<times> request" where
  "consume Method_start r c =
     (if \<not> token_char c then (Bad, Method_start, r)
      else (Indeterminate, Method, r\<lparr>req_method := req_method r @ [c]\<rparr>))"
| "consume Method r c =
     (if c = CHR '' '' then (Indeterminate, Uri, r)
      else if \<not> token_char c then (Bad, Method, r)
      else (Indeterminate, Method, r\<lparr>req_method := req_method r @ [c]\<rparr>))"
| "consume Uri r c =
     (if c = CHR '' '' then (Indeterminate, Http_version_h, r)
      else if is_ctl (schar c) then (Bad, Uri, r)
      else (Indeterminate, Uri, r\<lparr>req_uri := req_uri r @ [c]\<rparr>))"
| "consume Http_version_h r c =
     (if c = CHR ''H'' then (Indeterminate, Http_version_t_1, r) else (Bad, Http_version_h, r))"
| "consume Http_version_t_1 r c =
     (if c = CHR ''T'' then (Indeterminate, Http_version_t_2, r) else (Bad, Http_version_t_1, r))"
| "consume Http_version_t_2 r c =
     (if c = CHR ''T'' then (Indeterminate, Http_version_p, r) else (Bad, Http_version_t_2, r))"
| "consume Http_version_p r c =
     (if c = CHR ''P'' then (Indeterminate, Http_version_slash, r) else (Bad, Http_version_p, r))"
| "consume Http_version_slash r c =
     (if c = CHR ''/'' then (Indeterminate, Http_version_major_start, r\<lparr>req_major := 0, req_minor := 0\<rparr>)
      else (Bad, Http_version_slash, r))"
| "consume Http_version_major_start r c =
     (if is_digit c then (Indeterminate, Http_version_major, r\<lparr>req_major := push_digit (req_major r) c\<rparr>)
      else (Bad, Http_version_major_start, r))"
| "consume Http_version_major r c =
     (if c = CHR ''.'' then (Indeterminate, Http_version_minor_start, r)
      else if is_digit c then (Indeterminate, Http_version_major, r\<lparr>req_major := push_digit (req_major r) c\<rparr>)
      else (Bad, Http_version_major, r))"
| "consume Http_version_minor_start r c =
     (if is_digit c then (Indeterminate, Http_version_minor, r\<lparr>req_minor := push_digit (req_minor r) c\<rparr>)
      else (Bad, Http_version_minor_start, r))"
| "consume Http_version_minor r c =
     (if c = CR then (Indeterminate, Expecting_newline_1, r)
      else if is_digit c then (Indeterminate, Http_version_minor, r\<lparr>req_minor := push_digit (req_minor r) c\<rparr>)
      else (Bad, Http_version_minor, r))"
| "consume Expecting_newline_1 r c =
     (if c = LF then (Indeterminate, Header_line_start, r) else (Bad, Expecting_newline_1, r))"
| "consume Header_line_start r c =
     (if c = CR then (Indeterminate, Expecting_newline_3, r)
      else if req_headers r \<noteq> [] \<and> (c = CHR '' '' \<or> c = TAB) then (Indeterminate, Header_lws, r)
      else if \<not> token_char c then (Bad, Header_line_start, r)
      else (Indeterminate, Header_name,
        push_name c (r\<lparr>req_headers := req_headers r @ [\<lparr>hd_name = [], hd_value = []\<rparr>]\<rparr>)))"
| "consume Header_lws r c =
     (if c = CR then (Indeterminate, Expecting_newline_2, r)
      else if c = CHR '' '' \<or> c = TAB then (Indeterminate, Header_lws, r)
      else if is_ctl (schar c) then (Bad, Header_lws, r)
      else (Indeterminate, Header_value, push_value c r))"
| "consume Header_name r c =
     (if c = CHR '':'' then (Indeterminate, Space_before_header_value, r)
      else if \<not> token_char c then (Bad, Header_name, r)
      else (Indeterminate, Header_name, push_name c r))"
| "consume Space_before_header_value r c =
     (if c = CHR '' '' then (Indeterminate, Header_value, r) else (Bad, Space_before_header_value, r))"
| "consume Header_value r c =
     (if c = CR then (Indeterminate, Expecting_newline_2, r)
      else if is_ctl (schar c) then (Bad, Header_value, r)
      else (Indeterminate, Header_value, push_value c r))"
| "consume Expecting_newline_2 r c =
     (if c = LF then (Indeterminate, Header_line_start, note_content_length r)
      else (Bad, Expecting_newline_2, r))"
| "consume Expecting_newline_3 r c = ((if c = LF then Good else Bad), Expecting_newline_3, r)"

text \<open>\<^verbatim>\<open>parse\<close>: the result, the parser's state, the request, and what of the input was not read.\<close>

fun parse :: "parse_state \<Rightarrow> request \<Rightarrow> string \<Rightarrow> result_type \<times> parse_state \<times> request \<times> string" where
  "parse p r [] = (Indeterminate, p, r, [])"
| "parse p r (c # cs) =
     (let r1 = r\<lparr>req_header_length := req_header_length r + 1\<rparr>;
          (res, p', r') = consume p r1 c
      in if res = Good \<or> res = Bad then (res, p', r', cs) else parse p' r' cs)"

text \<open>The versions of a new request are indeterminate; the parser sets them to 0 at the slash, before it or anyone reads them.\<close>

definition request_init :: request where
  "request_init = \<lparr>req_method = [], req_uri = [], req_major = 0, req_minor = 0,
     req_header_length = 0, req_headers = [], req_content_length = 0, req_content = []\<rparr>"

section \<open>Requests as text\<close>

definition crlf :: string where "crlf = [CR, LF]"

definition print_header :: "header \<Rightarrow> string" where
  "print_header h = hd_name h @ '': '' @ hd_value h @ crlf"

definition print_request :: "request \<Rightarrow> string" where
  "print_request r = req_method r @ '' '' @ req_uri r @ '' HTTP/'' @ show_nat (nat (req_major r))
     @ ''.'' @ show_nat (nat (req_minor r)) @ crlf
     @ concat (map print_header (req_headers r)) @ crlf"

definition wf_header :: "header \<Rightarrow> bool" where
  "wf_header h \<longleftrightarrow> hd_name h \<noteq> [] \<and> list_all token_char (hd_name h)
     \<and> list_all (\<lambda>c. \<not> is_ctl (schar c)) (hd_value h)"

definition wf_request :: "request \<Rightarrow> bool" where
  "wf_request r \<longleftrightarrow> req_method r \<noteq> [] \<and> list_all token_char (req_method r)
     \<and> list_all (\<lambda>c. c \<noteq> CHR '' '' \<and> \<not> is_ctl (schar c)) (req_uri r)
     \<and> 0 \<le> req_major r \<and> req_major r < 2 ^ 31 \<and> 0 \<le> req_minor r \<and> req_minor r < 2 ^ 31
     \<and> list_all wf_header (req_headers r)"

text \<open>The content length the headers announce: the last \<^verbatim>\<open>Content-Length\<close> header counts.\<close>

fun announced :: "nat \<Rightarrow> header list \<Rightarrow> nat" where
  "announced n [] = n"
| "announced n (h # hs) =
     announced (if stricmp_eq ''Content-Length'' (hd_name h) then size_of_int (atoi (hd_value h)) else n) hs"

section \<open>Parsing\<close>

lemma token_char_facts:
  "token_char c \<Longrightarrow> c \<noteq> CHR '' '' \<and> c \<noteq> CHR '':'' \<and> c \<noteq> CR \<and> c \<noteq> TAB"
  by (auto simp: token_char_def is_tspecial_def tspecials_def CR_def TAB_def is_ctl_def schar_def char_code_def)

lemma not_ctl_CR: "\<not> is_ctl (schar c) \<Longrightarrow> c \<noteq> CR"
  by (auto simp: CR_def is_ctl_def schar_def char_code_def)

lemma digit_facts: "is_digit c \<Longrightarrow> c \<noteq> CHR ''.'' \<and> c \<noteq> CR \<and> schar c - 48 = int (digit_value c)"
  by (auto simp: is_digit_code CR_def schar_def char_code_def digit_value_def Let_def)

text \<open>Input arrives in pieces.\<close>

lemma parse_append:
  "parse p r xs = (Indeterminate, p', r', []) \<Longrightarrow> parse p r (xs @ ys) = parse p' r' ys"
  by (induction p r xs rule: parse.induct) (auto simp: Let_def split: prod.splits if_splits)

lemma parse_done:
  "parse p r xs = (res, p', r', rest) \<Longrightarrow> res \<noteq> Indeterminate \<Longrightarrow> parse p r (xs @ ys) = (res, p', r', rest @ ys)"
  by (induction p r xs rule: parse.induct) (auto simp: Let_def split: prod.splits if_splits)

lemma parse_waiting: "parse p r xs = (Indeterminate, p', r', rest) \<Longrightarrow> rest = []"
  by (induction p r xs rule: parse.induct) (auto simp: Let_def split: prod.splits if_splits)

definition count_header :: "nat \<Rightarrow> request \<Rightarrow> request" where
  "count_header n r = r\<lparr>req_header_length := req_header_length r + n\<rparr>"

lemma count_header_simps [simp]:
  "req_headers (count_header n r) = req_headers r" "req_method (count_header n r) = req_method r"
  "req_uri (count_header n r) = req_uri r" "req_major (count_header n r) = req_major r"
  "req_minor (count_header n r) = req_minor r" "count_header n (count_header m r) = count_header (n + m) r"
  "req_header_length (count_header n r) = req_header_length r + n"
  "req_content_length (count_header n r) = req_content_length r"
  by (simp_all add: count_header_def add_ac)

text \<open>The header length is kept outermost.\<close>

lemma header_length_last:
  "r\<lparr>req_header_length := n, req_method := x1\<rparr> = r\<lparr>req_method := x1, req_header_length := n\<rparr>"
  "r\<lparr>req_header_length := n, req_uri := x1\<rparr> = r\<lparr>req_uri := x1, req_header_length := n\<rparr>"
  "r\<lparr>req_header_length := n, req_major := v\<rparr> = r\<lparr>req_major := v, req_header_length := n\<rparr>"
  "r\<lparr>req_header_length := n, req_minor := v\<rparr> = r\<lparr>req_minor := v, req_header_length := n\<rparr>"
  "r\<lparr>req_header_length := n, req_headers := hs\<rparr> = r\<lparr>req_headers := hs, req_header_length := n\<rparr>"
  "r\<lparr>req_header_length := n, req_content_length := k\<rparr> = r\<lparr>req_content_length := k, req_header_length := n\<rparr>"
  by (cases r; simp)+

lemma parse_method:
  "list_all token_char cs \<Longrightarrow> parse Method r (cs @ rest)
    = parse Method (count_header (length cs) (r\<lparr>req_method := req_method r @ cs\<rparr>)) rest"
proof (induction cs arbitrary: r)
  case Nil
  then show ?case by (simp add: count_header_def)
next
  case (Cons c cs)
  then show ?case
    using token_char_facts [of c] by (simp add: Let_def count_header_def)
qed

lemma parse_uri_chars:
  "list_all (\<lambda>c. c \<noteq> CHR '' '' \<and> \<not> is_ctl (schar c)) cs \<Longrightarrow> parse Uri r (cs @ rest)
    = parse Uri (count_header (length cs) (r\<lparr>req_uri := req_uri r @ cs\<rparr>)) rest"
proof (induction cs arbitrary: r)
  case Nil
  then show ?case by (simp add: count_header_def)
next
  case (Cons c cs)
  then show ?case by (simp add: Let_def count_header_def)
qed

lemma push_digit_value:
  assumes "is_digit c" and "digits_value (acc * 10 + digit_value c) cs < 2 ^ 31"
  shows "push_digit (int acc) c = int (acc * 10 + digit_value c)"
proof -
  have "acc * 10 + digit_value c < 2 ^ 31"
    using digits_value_ge [of "acc * 10 + digit_value c" cs] assms(2) by simp
  moreover have "int acc * 10 + schar c - 48 = int (acc * 10 + digit_value c)"
    using digit_facts [OF assms(1)] by simp
  ultimately show ?thesis by (simp add: push_digit_def)
qed

lemma parse_major:
  "list_all is_digit cs \<Longrightarrow> digits_value acc cs < 2 ^ 31 \<Longrightarrow> req_major r = int acc \<Longrightarrow>
    parse Http_version_major r (cs @ rest)
    = parse Http_version_major (count_header (length cs) (r\<lparr>req_major := int (digits_value acc cs)\<rparr>)) rest"
proof (induction cs arbitrary: acc r)
  case Nil
  then show ?case by (cases r) (simp add: count_header_def)
next
  case (Cons c cs)
  then show ?case
    using digit_facts [of c] push_digit_value [of c acc cs]
    by (simp add: Let_def count_header_def header_length_last)
qed

lemma parse_minor:
  "list_all is_digit cs \<Longrightarrow> digits_value acc cs < 2 ^ 31 \<Longrightarrow> req_minor r = int acc \<Longrightarrow>
    parse Http_version_minor r (cs @ rest)
    = parse Http_version_minor (count_header (length cs) (r\<lparr>req_minor := int (digits_value acc cs)\<rparr>)) rest"
proof (induction cs arbitrary: acc r)
  case Nil
  then show ?case by (cases r) (simp add: count_header_def)
next
  case (Cons c cs)
  then show ?case
    using digit_facts [of c] push_digit_value [of c acc cs]
    by (simp add: Let_def count_header_def header_length_last)
qed

lemma parse_number:
  assumes "n < 2 ^ 31"
  shows "req_major r = 0 \<Longrightarrow> parse Http_version_major_start r (show_nat n @ rest)
      = parse Http_version_major (count_header (length (show_nat n)) (r\<lparr>req_major := int n\<rparr>)) rest"
    and "req_minor r = 0 \<Longrightarrow> parse Http_version_minor_start r (show_nat n @ rest)
      = parse Http_version_minor (count_header (length (show_nat n)) (r\<lparr>req_minor := int n\<rparr>)) rest"
proof -
  obtain c cs where s: "show_nat n = c # cs" by (cases "show_nat n") simp_all
  have d: "list_all is_digit (c # cs)" using is_digit_show_nat [of _ n] by (simp add: s list_all_iff)
  have v: "digits_value (digit_value c) cs = n" using digits_value_show_nat [of n] by (simp add: s)
  have p: "push_digit 0 c = int (digit_value c)"
    using push_digit_value [of c 0 cs] d v assms by simp
  show "req_major r = 0 \<Longrightarrow> parse Http_version_major_start r (show_nat n @ rest)
      = parse Http_version_major (count_header (length (show_nat n)) (r\<lparr>req_major := int n\<rparr>)) rest"
    using d p v assms
      parse_major [of cs "digit_value c" "count_header 1 (r\<lparr>req_major := int (digit_value c)\<rparr>)" rest]
    by (simp add: s Let_def count_header_def header_length_last)
  show "req_minor r = 0 \<Longrightarrow> parse Http_version_minor_start r (show_nat n @ rest)
      = parse Http_version_minor (count_header (length (show_nat n)) (r\<lparr>req_minor := int n\<rparr>)) rest"
    using d p v assms
      parse_minor [of cs "digit_value c" "count_header 1 (r\<lparr>req_minor := int (digit_value c)\<rparr>)" rest]
    by (simp add: s Let_def count_header_def header_length_last)
qed

lemma parse_header_name:
  "list_all token_char cs \<Longrightarrow> req_headers r = hs @ [h] \<Longrightarrow> parse Header_name r (cs @ rest)
    = parse Header_name (count_header (length cs) (r\<lparr>req_headers := hs @ [h\<lparr>hd_name := hd_name h @ cs\<rparr>]\<rparr>)) rest"
proof (induction cs arbitrary: r h)
  case Nil
  then show ?case by (cases r) (simp add: count_header_def)
next
  case (Cons c cs)
  then show ?case
    using token_char_facts [of c] by (simp add: Let_def count_header_def header_length_last push_name_def)
qed

lemma parse_header_value:
  "list_all (\<lambda>c. \<not> is_ctl (schar c)) cs \<Longrightarrow> req_headers r = hs @ [h] \<Longrightarrow> parse Header_value r (cs @ rest)
    = parse Header_value (count_header (length cs) (r\<lparr>req_headers := hs @ [h\<lparr>hd_value := hd_value h @ cs\<rparr>]\<rparr>)) rest"
proof (induction cs arbitrary: r h)
  case Nil
  then show ?case by (cases r) (simp add: count_header_def)
next
  case (Cons c cs)
  then show ?case
    using not_ctl_CR [of c] by (simp add: Let_def count_header_def header_length_last push_value_def)
qed

lemma parse_header:
  assumes "wf_header h"
  shows "parse Header_line_start r (print_header h @ rest) = parse Header_line_start
    (note_content_length (count_header (length (print_header h)) (r\<lparr>req_headers := req_headers r @ [h]\<rparr>))) rest"
proof -
  obtain c cs where n: "hd_name h = c # cs" using assms by (cases "hd_name h") (auto simp: wf_header_def)
  then have t: "token_char c" "list_all token_char cs" using assms by (auto simp: wf_header_def)
  let ?h1 = "\<lparr>hd_name = [c], hd_value = []\<rparr>"
  let ?r1 = "count_header 1 (r\<lparr>req_headers := req_headers r @ [?h1]\<rparr>)"
  have "parse Header_line_start r (print_header h @ rest)
      = parse Header_name ?r1 (cs @ '': '' @ hd_value h @ crlf @ rest)"
    using token_char_facts [OF t(1)] t(1)
    by (simp add: print_header_def n Let_def count_header_def header_length_last push_name_def)
  also have "\<dots> = parse Header_name (count_header (length cs) (?r1\<lparr>req_headers := req_headers r
      @ [?h1\<lparr>hd_name := c # cs\<rparr>]\<rparr>)) ('': '' @ hd_value h @ crlf @ rest)"
    using parse_header_name [OF t(2), of ?r1 "req_headers r" ?h1] by simp
  also have "\<dots> = parse Header_value (count_header (2 + length cs) (?r1\<lparr>req_headers := req_headers r
      @ [?h1\<lparr>hd_name := c # cs\<rparr>]\<rparr>)) (hd_value h @ crlf @ rest)"
    by (simp add: Let_def count_header_def header_length_last)
  also have "\<dots> = parse Header_value (count_header (length (hd_value h)) (count_header (2 + length cs)
      (?r1\<lparr>req_headers := req_headers r @ [h]\<rparr>))) (crlf @ rest)"
    using parse_header_value [of "hd_value h" "count_header (2 + length cs) (?r1\<lparr>req_headers := req_headers r
      @ [?h1\<lparr>hd_name := c # cs\<rparr>]\<rparr>)" "req_headers r" "?h1\<lparr>hd_name := c # cs\<rparr>"] assms n
    by (simp add: wf_header_def count_header_def) (metis header.surjective header.update_convs(2) old.unit.exhaust)
  finally show ?thesis
    by (simp add: print_header_def crlf_def n Let_def count_header_def header_length_last note_content_length_def add_ac)
qed

lemma note_content_length_last:
  "note_content_length (count_header n (r\<lparr>req_headers := hs @ [h]\<rparr>))
    = count_header n (r\<lparr>req_headers := hs @ [h], req_content_length := announced (req_content_length r) [h]\<rparr>)"
  by (cases r) (simp add: note_content_length_def count_header_def)

lemma parse_headers:
  "list_all wf_header hs \<Longrightarrow> parse Header_line_start r (concat (map print_header hs) @ rest)
    = parse Header_line_start (count_header (length (concat (map print_header hs)))
        (r\<lparr>req_headers := req_headers r @ hs, req_content_length := announced (req_content_length r) hs\<rparr>)) rest"
proof (induction hs arbitrary: r)
  case Nil
  then show ?case by (cases r) (simp add: count_header_def)
next
  case (Cons h hs)
  let ?r = "count_header (length (print_header h))
    (r\<lparr>req_headers := req_headers r @ [h], req_content_length := announced (req_content_length r) [h]\<rparr>)"
  have "parse Header_line_start r (concat (map print_header (h # hs)) @ rest)
      = parse Header_line_start ?r (concat (map print_header hs) @ rest)"
    using Cons.prems parse_header [of h r "concat (map print_header hs) @ rest"]
    by (simp add: note_content_length_last)
  also have "\<dots> = parse Header_line_start (count_header (length (concat (map print_header hs)))
      (?r\<lparr>req_headers := req_headers ?r @ hs, req_content_length := announced (req_content_length ?r) hs\<rparr>)) rest"
    using Cons.IH [of ?r] Cons.prems by simp
  finally show ?case
    by (cases r) (simp add: count_header_def add_ac)
qed

lemma parse_go:
  "consume p (r\<lparr>req_header_length := req_header_length r + 1\<rparr>) c = (Indeterminate, p', r') \<Longrightarrow>
    parse p r (c # cs) = parse p' r' cs"
  by simp

lemma parse_print_request:
  assumes "wf_request r"
  shows "parse Method_start request_init (print_request r @ rest) =
    (Good, Expecting_newline_3, r\<lparr>req_header_length := length (print_request r),
      req_content_length := announced 0 (req_headers r), req_content := []\<rparr>, rest)"
proof -
  obtain c cs where m: "req_method r = c # cs" "token_char c" "list_all token_char cs"
    using assms by (cases "req_method r") (auto simp: wf_request_def)
  obtain k where k: "req_major r = int k" "k < 2 ^ 31"
    using assms that [of "nat (req_major r)"] by (simp add: wf_request_def nat_less_iff)
  obtain l where l: "req_minor r = int l" "l < 2 ^ 31"
    using assms that [of "nat (req_minor r)"] by (simp add: wf_request_def nat_less_iff)
  let ?hs = "concat (map print_header (req_headers r))"
  let ?t5 = "crlf @ rest" and ?t4 = "?hs @ crlf @ rest"
  let ?t3 = "''.'' @ show_nat l @ crlf @ ?hs @ crlf @ rest"
  let ?t2 = "'' HTTP/'' @ show_nat k @ ?t3"
  let ?r0 = "request_init\<lparr>req_method := req_method r\<rparr>"
  let ?r1 = "?r0\<lparr>req_uri := req_uri r\<rparr>"
  let ?r2 = "?r1\<lparr>req_major := int k\<rparr>"
  let ?r3 = "?r2\<lparr>req_minor := int l\<rparr>"
  have "parse Method_start request_init (print_request r @ rest)
      = parse Method (count_header 1 (request_init\<lparr>req_method := [c]\<rparr>)) (cs @ '' '' @ req_uri r @ ?t2)"
    using m(2) by (simp add: print_request_def m(1) k l parse_go count_header_def request_init_def del: parse.simps(2))
  also have "\<dots> = parse Method (count_header (length (req_method r)) ?r0) ('' '' @ req_uri r @ ?t2)"
    using parse_method [OF m(3), of "count_header 1 (request_init\<lparr>req_method := [c]\<rparr>)"]
    by (simp add: m(1) count_header_def request_init_def)
  also have "\<dots> = parse Uri (count_header (1 + length (req_method r)) ?r0) (req_uri r @ ?t2)"
    by (simp add: parse_go count_header_def del: parse.simps(2))
  also have "\<dots> = parse Uri (count_header (1 + length (req_method r) + length (req_uri r)) ?r1) ?t2"
    using parse_uri_chars [of "req_uri r" "count_header (1 + length (req_method r)) ?r0"] assms
    by (simp add: wf_request_def count_header_def request_init_def add_ac)
  also have "\<dots> = parse Http_version_major_start
      (count_header (7 + length (req_method r) + length (req_uri r)) ?r1) (show_nat k @ ?t3)"
    by (simp add: parse_go count_header_def request_init_def eval_nat_numeral del: parse.simps(2))
  also have "\<dots> = parse Http_version_major
      (count_header (7 + length (req_method r) + length (req_uri r) + length (show_nat k)) ?r2) ?t3"
    using parse_number(1) [OF k(2), of "count_header (7 + length (req_method r) + length (req_uri r)) ?r1"]
    by (simp add: request_init_def count_header_def add_ac)
  also have "\<dots> = parse Http_version_minor_start
      (count_header (8 + length (req_method r) + length (req_uri r) + length (show_nat k)) ?r2) (show_nat l @ crlf @ ?t4)"
    by (simp add: parse_go count_header_def request_init_def eval_nat_numeral del: parse.simps(2))
  also have "\<dots> = parse Http_version_minor (count_header (8 + length (req_method r) + length (req_uri r)
      + length (show_nat k) + length (show_nat l)) ?r3) (crlf @ ?t4)"
    using parse_number(2) [OF l(2), of "count_header (8 + length (req_method r) + length (req_uri r)
      + length (show_nat k)) ?r2"]
    by (simp add: request_init_def count_header_def add_ac)
  also have "\<dots> = parse Header_line_start (count_header (10 + length (req_method r) + length (req_uri r)
      + length (show_nat k) + length (show_nat l)) ?r3) ?t4"
    by (simp add: crlf_def parse_go count_header_def request_init_def eval_nat_numeral del: parse.simps(2))
  also have "\<dots> = parse Header_line_start (count_header (10 + length (req_method r) + length (req_uri r)
      + length (show_nat k) + length (show_nat l) + length ?hs)
      (?r3\<lparr>req_headers := req_headers r, req_content_length := announced 0 (req_headers r)\<rparr>)) ?t5"
    using parse_headers [of "req_headers r" "count_header (10 + length (req_method r) + length (req_uri r)
      + length (show_nat k) + length (show_nat l)) ?r3" ?t5] assms
    by (simp add: wf_request_def count_header_def request_init_def add_ac)
  also have "\<dots> = (Good, Expecting_newline_3, count_header (12 + length (req_method r) + length (req_uri r)
      + length (show_nat k) + length (show_nat l) + length ?hs)
      (?r3\<lparr>req_headers := req_headers r, req_content_length := announced 0 (req_headers r)\<rparr>), rest)"
    by (simp add: crlf_def Let_def parse_go count_header_def request_init_def eval_nat_numeral)
  also have "12 + length (req_method r) + length (req_uri r) + length (show_nat k) + length (show_nat l)
      + length ?hs = length (print_request r)"
    by (simp add: print_request_def crlf_def k l)
  also have "count_header (length (print_request r))
      (?r3\<lparr>req_headers := req_headers r, req_content_length := announced 0 (req_headers r)\<rparr>)
      = r\<lparr>req_header_length := length (print_request r),
        req_content_length := announced 0 (req_headers r), req_content := []\<rparr>"
    using k l by (cases r) (simp add: count_header_def request_init_def)
  finally show ?thesis .
qed

section \<open>The current header exists\<close>

text \<open>The states that use \<^verbatim>\<open>headers.back()\<close>, which is undefined on an empty vector.\<close>

definition in_header :: "parse_state \<Rightarrow> bool" where
  "in_header p = (p \<in> {Header_lws, Header_name, Space_before_header_value, Header_value, Expecting_newline_2})"

definition header_ok :: "parse_state \<Rightarrow> request \<Rightarrow> bool" where
  "header_ok p r = (in_header p \<longrightarrow> req_headers r \<noteq> [])"

lemma header_ok_consume_split:
  "header_ok p r \<Longrightarrow> case_prod (\<lambda>_. case_prod header_ok) (consume p r c)"
  by (cases p) (simp_all add: header_ok_def in_header_def push_name_def push_value_def note_content_length_def)

lemma header_ok_consume:
  "header_ok p r \<Longrightarrow> consume p r c = (res, p', r') \<Longrightarrow> header_ok p' r'"
  using header_ok_consume_split [of p r c] by simp

lemma header_ok_parse:
  "header_ok p r \<Longrightarrow> parse p r xs = (res, p', r', rest) \<Longrightarrow> header_ok p' r'"
proof (induction p r xs rule: parse.induct)
  case (2 p r c cs)
  obtain res1 p1 r1 where c: "consume p (r\<lparr>req_header_length := req_header_length r + 1\<rparr>) c = (res1, p1, r1)"
    by (cases "consume p (r\<lparr>req_header_length := req_header_length r + 1\<rparr>) c") auto
  have ok: "header_ok p1 r1" using header_ok_consume [OF _ c] 2(2) by (simp add: header_ok_def)
  then show ?case using 2(1) [OF refl refl c [symmetric] refl _ ok] 2(3) c by (auto split: if_splits)
qed simp

section \<open>Properties\<close>

text \<open>
  C12. The parser reads back every well-formed request: from its text followed by anything it
  answers \<^verbatim>\<open>good\<close> at the end of the header, with the method, the uri, the version and the headers
  that were printed, the header's length, and the length the last \<^verbatim>\<open>Content-Length\<close> header announces.
\<close>

theorem parse_printed_request:
  assumes "wf_request r"
  shows "parse Method_start request_init (print_request r @ rest) =
    (Good, Expecting_newline_3, r\<lparr>req_header_length := length (print_request r),
      req_content_length := announced 0 (req_headers r), req_content := []\<rparr>, rest)"
  by (rule parse_print_request [OF assms])

definition example_request :: request where
  "example_request = request_init\<lparr>req_method := ''POST'', req_uri := ''/login'', req_major := 1,
     req_minor := 1, req_headers := [\<lparr>hd_name = ''Content-Length'', hd_value = ''5''\<rparr>]\<rparr>"

theorem parse_printed_request_witness:
  "fst (parse Method_start request_init (print_request example_request @ ''a=b&c'')) = Good
    \<and> announced 0 (req_headers example_request) = 5"
proof -
  have "wf_request example_request" by code_simp
  moreover have "announced 0 (req_headers example_request) = 5" by code_simp
  ultimately show ?thesis using parse_printed_request [of example_request "''a=b&c''"] by simp
qed

text \<open>
  A header cut into any two pieces parses as the whole does: a first piece that leaves the
  parser waiting is resumed exactly where it stopped, and what decides the request is not changed
  by the bytes behind it.
\<close>

theorem parse_resumes:
  "parse p r (xs @ ys) = (case parse p r xs of
      (Indeterminate, p', r', rest) \<Rightarrow> parse p' r' ys
    | (res, p', r', rest) \<Rightarrow> (res, p', r', rest @ ys))"
proof -
  obtain res p' r' rest where x: "parse p r xs = (res, p', r', rest)"
    by (cases "parse p r xs") auto
  show ?thesis
    using parse_append [of p r xs p' r' ys] parse_done [OF x] parse_waiting x by (cases res) auto
qed

text \<open>
  On any input at all, whatever pieces it comes in, the parser never reaches for the last header
  when there is none: in every state whose transitions call \<^verbatim>\<open>headers.back()\<close> the vector is not empty.
\<close>

theorem current_header_exists:
  assumes "parse Method_start request_init xs = (Indeterminate, p, r, rest)"
    and "p \<in> {Header_lws, Header_name, Space_before_header_value, Header_value, Expecting_newline_2}"
  shows "req_headers r \<noteq> []"
  using header_ok_parse [OF _ assms(1)] assms(2) by (auto simp: header_ok_def in_header_def)

theorem current_header_exists_witness:
  "\<exists>r. parse Method_start request_init (''G / HTTP/1.1'' @ crlf @ ''X'') = (Indeterminate, Header_name, r, [])
    \<and> req_headers r \<noteq> []"
proof -
  have tk: "token_char CHR ''G''" "token_char CHR ''X''" "\<not> is_ctl (schar CHR ''/'')" "is_digit CHR ''1''"
    by code_simp+
  have "\<exists>r. parse Method_start request_init (''G / HTTP/1.1'' @ crlf @ ''X'') = (Indeterminate, Header_name, r, [])"
    by (simp add: tk crlf_def CR_def LF_def request_init_def parse_go del: parse.simps(2))
  then obtain r where r: "parse Method_start request_init (''G / HTTP/1.1'' @ crlf @ ''X'') = (Indeterminate, Header_name, r, [])" ..
  show ?thesis using r current_header_exists [OF r] by blast
qed

end
