(* ===== verification/HttpReply.thy ===== *)
theory HttpReply
  imports HttpParser
begin

text \<open>
  Replies, \<^verbatim>\<open>refs/httpserver/reply.hpp\<close> and \<^verbatim>\<open>reply.cpp\<close>, and the mime types of
  \<^verbatim>\<open>mime_types.cpp\<close>: the status lines, the stock contents, and the bytes sent for a reply.
\<close>

section \<open>Status lines and stock contents\<close>

datatype status_type = Ok
  | Created
  | Accepted
  | No_content
  | Multiple_choices
  | Moved_permanently
  | Moved_temporarily
  | Not_modified
  | Bad_request
  | Unauthorized
  | Forbidden
  | Not_found
  | Internal_server_error
  | Not_implemented
  | Bad_gateway
  | Service_unavailable | Other_status int

fun status_code :: "status_type \<Rightarrow> int" where
  "status_code Ok = 200"
| "status_code Created = 201"
| "status_code Accepted = 202"
| "status_code No_content = 204"
| "status_code Multiple_choices = 300"
| "status_code Moved_permanently = 301"
| "status_code Moved_temporarily = 302"
| "status_code Not_modified = 304"
| "status_code Bad_request = 400"
| "status_code Unauthorized = 401"
| "status_code Forbidden = 403"
| "status_code Not_found = 404"
| "status_code Internal_server_error = 500"
| "status_code Not_implemented = 501"
| "status_code Bad_gateway = 502"
| "status_code Service_unavailable = 503"
| "status_code (Other_status n) = n"

fun status_string :: "status_type \<Rightarrow> string" where
  "status_string Ok = ''HTTP/1.0 200 OK'' @ crlf"
| "status_string Created = ''HTTP/1.0 201 Created'' @ crlf"
| "status_string Accepted = ''HTTP/1.0 202 Accepted'' @ crlf"
| "status_string No_content = ''HTTP/1.0 204 No Content'' @ crlf"
| "status_string Multiple_choices = ''HTTP/1.0 300 Multiple Choices'' @ crlf"
| "status_string Moved_permanently = ''HTTP/1.0 301 Moved Permanently'' @ crlf"
| "status_string Moved_temporarily = ''HTTP/1.0 302 Moved Temporarily'' @ crlf"
| "status_string Not_modified = ''HTTP/1.0 304 Not Modified'' @ crlf"
| "status_string Bad_request = ''HTTP/1.0 400 Bad Request'' @ crlf"
| "status_string Unauthorized = ''HTTP/1.0 401 Unauthorized'' @ crlf"
| "status_string Forbidden = ''HTTP/1.0 403 Forbidden'' @ crlf"
| "status_string Not_found = ''HTTP/1.0 404 Not Found'' @ crlf"
| "status_string Internal_server_error = ''HTTP/1.0 500 Internal Server Error'' @ crlf"
| "status_string Not_implemented = ''HTTP/1.0 501 Not Implemented'' @ crlf"
| "status_string Bad_gateway = ''HTTP/1.0 502 Bad Gateway'' @ crlf"
| "status_string Service_unavailable = ''HTTP/1.0 503 Service Unavailable'' @ crlf"
| "status_string (Other_status n) = ''HTTP/1.0 500 Internal Server Error'' @ crlf"

fun stock_content :: "status_type \<Rightarrow> string" where
  "stock_content Ok =
     []"
| "stock_content Created =
     ''<html><head><title>Created</title></head><body><h1>201 Created</h1></body></html>''"
| "stock_content Accepted =
     ''<html><head><title>Accepted</title></head><body><h1>202 Accepted</h1></body></html>''"
| "stock_content No_content =
     ''<html><head><title>No Content</title></head><body><h1>204 Content</h1></body></html>''"
| "stock_content Multiple_choices =
     ''<html><head><title>Multiple Choices</title></head><body><h1>300 Multiple Choices</h1></body></html>''"
| "stock_content Moved_permanently =
     ''<html><head><title>Moved Permanently</title></head><body><h1>301 Moved Permanently</h1></body></html>''"
| "stock_content Moved_temporarily =
     ''<html><head><title>Moved Temporarily</title></head><body><h1>302 Moved Temporarily</h1></body></html>''"
| "stock_content Not_modified =
     ''<html><head><title>Not Modified</title></head><body><h1>304 Not Modified</h1></body></html>''"
| "stock_content Bad_request =
     ''<html><head><title>Bad Request</title></head><body><h1>400 Bad Request</h1></body></html>''"
| "stock_content Unauthorized =
     ''<html><head><title>Unauthorized</title></head><body><h1>401 Unauthorized</h1></body></html>''"
| "stock_content Forbidden =
     ''<html><head><title>Forbidden</title></head><body><h1>403 Forbidden</h1></body></html>''"
| "stock_content Not_found =
     ''<html><head><title>Not Found</title></head><body><h1>404 Not Found</h1></body></html>''"
| "stock_content Internal_server_error =
     ''<html><head><title>Internal Server Error</title></head><body><h1>500 Internal Server Error</h1></body></html>''"
| "stock_content Not_implemented =
     ''<html><head><title>Not Implemented</title></head><body><h1>501 Not Implemented</h1></body></html>''"
| "stock_content Bad_gateway =
     ''<html><head><title>Bad Gateway</title></head><body><h1>502 Bad Gateway</h1></body></html>''"
| "stock_content Service_unavailable =
     ''<html><head><title>Service Unavailable</title></head><body><h1>503 Service Unavailable</h1></body></html>''"
| "stock_content (Other_status n) =
     ''<html><head><title>Internal Server Error</title></head><body><h1>500 Internal Server Error</h1></body></html>''"

section \<open>Replies\<close>

record reply =
  rep_status :: status_type
  rep_headers :: "header list"
  rep_content :: string

definition to_buffers :: "reply \<Rightarrow> string" where
  "to_buffers r = status_string (rep_status r)
     @ concat (map (\<lambda>h. hd_name h @ '': '' @ hd_value h @ crlf) (rep_headers r))
     @ crlf @ rep_content r"

definition stock_reply :: "status_type \<Rightarrow> reply" where
  "stock_reply status =
     \<lparr>rep_status = status,
      rep_headers = [\<lparr>hd_name = ''Content-Length'', hd_value = show_nat (length (stock_content status))\<rparr>,
        \<lparr>hd_name = ''Content-Type'', hd_value = ''text/html''\<rparr>],
      rep_content = stock_content status\<rparr>"

definition mime_mappings :: "(string \<times> string) list" where
  "mime_mappings = [(''gif'', ''image/gif''), (''htm'', ''text/html''), (''html'', ''text/html''),
     (''jpg'', ''image/jpeg''), (''png'', ''image/png'')]"

fun lookup_type :: "(string \<times> string) list \<Rightarrow> string \<Rightarrow> string" where
  "lookup_type [] extension = ''text/plain''"
| "lookup_type ((e, t) # ms) extension = (if e = extension then t else lookup_type ms extension)"

definition extension_to_type :: "string \<Rightarrow> string" where
  "extension_to_type extension = lookup_type mime_mappings extension"

section \<open>A client reading a reply\<close>

text \<open>
  The reader splits off the first line and reads header lines with the request parser's rules, as
  an HTTP client does: the reply's headers and content are recovered.
\<close>

definition print_headers :: "header list \<Rightarrow> string" where
  "print_headers hs = concat (map print_header hs)"

lemma to_buffers_parts:
  "to_buffers r = status_string (rep_status r) @ print_headers (rep_headers r) @ crlf @ rep_content r"
  by (simp add: to_buffers_def print_headers_def print_header_def [abs_def])

text \<open>The three digits after the version in a status line.\<close>

definition line_code :: "string \<Rightarrow> string" where
  "line_code s = takeWhile is_digit (drop 9 s)"

lemma status_line_code:
  "\<forall>n. s \<noteq> Other_status n \<Longrightarrow> digits_value 0 (line_code (status_string s)) = nat (status_code s)
    \<and> take 9 (status_string s) = ''HTTP/1.0 ''"
  by (cases s) (simp_all add: line_code_def is_digit_def less_eq_char_def digit_value_def char_code_def)

text \<open>Header parsing, started behind the status line, ends at the content with the headers recovered.\<close>

lemma headers_read_back:
  assumes "list_all wf_header hs"
  shows "\<exists>q. parse Header_line_start request_init (print_headers hs @ crlf @ content) = (Good, Expecting_newline_3, q, content)
    \<and> req_headers q = hs \<and> req_content_length q = announced 0 hs"
proof -
  let ?r = "count_header (length (print_headers hs)) (request_init\<lparr>req_headers := hs, req_content_length := announced 0 hs\<rparr>)"
  have "parse Header_line_start request_init (print_headers hs @ crlf @ content)
      = (Good, Expecting_newline_3, count_header 2 ?r, content)"
    unfolding print_headers_def
    by (simp add: parse_headers [OF assms] request_init_def) (simp add: crlf_def Let_def count_header_def)
  then show ?thesis by (intro exI [of _ "count_header 2 ?r"]) simp
qed

text \<open>The two headers every reply with a content has.\<close>

definition length_and_type :: "nat \<Rightarrow> string \<Rightarrow> header list" where
  "length_and_type n ty = [\<lparr>hd_name = ''Content-Length'', hd_value = show_nat n\<rparr>, \<lparr>hd_name = ''Content-Type'', hd_value = ty\<rparr>]"

lemma length_and_type_wf: "list_all (\<lambda>c. \<not> is_ctl (schar c)) ty \<Longrightarrow> list_all wf_header (length_and_type n ty)"
proof -
  assume ty: "list_all (\<lambda>c. \<not> is_ctl (schar c)) ty"
  have "\<not> is_ctl (schar c)" if "is_digit c" for c
    using that by (auto simp: is_digit_code is_ctl_def schar_def Let_def)
  then have "list_all (\<lambda>c. \<not> is_ctl (schar c)) (show_nat n)" using is_digit_show_nat by (auto simp: list_all_iff)
  moreover have "list_all token_char ''Content-Length''" "list_all token_char ''Content-Type''" by code_simp+
  ultimately show ?thesis using ty by (simp add: wf_header_def length_and_type_def)
qed

lemma announced_length_and_type: "n < 2 ^ 31 \<Longrightarrow> announced 0 (length_and_type n ty) = n"
  by (simp add: length_and_type_def stricmp_eq_def c_tolower_def less_eq_char_def char_code_def atoi_show_nat size_of_int_def)

section \<open>Properties\<close>

text \<open>
  Every stock reply is framed for its reader: after the status line, whose code is the
  status, header parsing ends exactly at the content, with the two headers recovered, and the
  announced length is the content's.
\<close>

theorem stock_reply_framed:
  "\<exists>line r. to_buffers (stock_reply s) = line @ print_headers (rep_headers (stock_reply s)) @ crlf @ stock_content s
    \<and> ((\<exists>n. s = Other_status n) \<or> digits_value 0 (line_code line) = nat (status_code s))
    \<and> parse Header_line_start request_init
        (print_headers (rep_headers (stock_reply s)) @ crlf @ stock_content s)
      = (Good, Expecting_newline_3, r, stock_content s)
    \<and> req_headers r = rep_headers (stock_reply s) \<and> req_content_length r = length (stock_content s)"
proof -
  let ?hs = "rep_headers (stock_reply s)" and ?n = "length (stock_content s)"
  have hs: "?hs = length_and_type ?n ''text/html''" by (simp add: stock_reply_def length_and_type_def)
  have "list_all (\<lambda>c. \<not> is_ctl (schar c)) ''text/html''" by code_simp
  then obtain q where q: "parse Header_line_start request_init (print_headers ?hs @ crlf @ stock_content s)
      = (Good, Expecting_newline_3, q, stock_content s)" "req_headers q = ?hs" "req_content_length q = announced 0 ?hs"
    using headers_read_back [of ?hs "stock_content s", unfolded hs, OF length_and_type_wf] hs by metis
  have "?n < 2 ^ 31" by (cases s) simp_all
  then have "req_content_length q = ?n" using q(3) announced_length_and_type unfolding hs by simp
  moreover have "to_buffers (stock_reply s) = status_string s @ print_headers ?hs @ crlf @ stock_content s"
    by (simp add: to_buffers_parts) (simp add: stock_reply_def)
  moreover have "(\<exists>n. s = Other_status n) \<or> digits_value 0 (line_code (status_string s)) = nat (status_code s)"
    using status_line_code [of s] by blast
  ultimately show ?thesis using q(1,2) by (intro exI [of _ "status_string s"] exI [of _ q] conjI)
qed

text \<open>
  The type of a reserved extension is that of the table; any other extension, letter case
  included, is plain text.
\<close>

lemma extension_to_type_cases:
  "extension_to_type e = (if e = ''gif'' then ''image/gif'' else if e = ''htm'' \<or> e = ''html'' then ''text/html''
     else if e = ''jpg'' then ''image/jpeg'' else if e = ''png'' then ''image/png'' else ''text/plain'')"
  by (simp add: extension_to_type_def mime_mappings_def)

end
