(* ===== verification/JsonLexical.thy ===== *)
theory JsonLexical
  imports Json
begin

text \<open>
  Strings and numbers of the JSON reader and printer: what is printed is read back, the printer's
  count of the bytes of a string is exact, and the reader always moves forward.
\<close>

section \<open>Strings\<close>

lemma special_codes:
  "char_code QUOTE = 34" "char_code BACKSLASH = 92" "char_code CHR 0x08 = 8" "char_code CHR 0x0C = 12"
  "char_code CHR 0x0A = 10" "char_code CHR 0x0D = 13" "char_code CHR 0x09 = 9"
  by (simp_all add: QUOTE_def BACKSLASH_def char_code_def)

lemma length_escape: "length (escape c) = escape_cost c"
  by (auto simp: escape_def escape_cost_def special_codes char_code_eq)

lemma print_string_total:
  "print_string_ptr s = Returns (QUOTE # concat (map escape s) @ [QUOTE])"
proof -
  have "length (concat (map escape s)) = sum_list (map escape_cost s)"
    by (induction s) (simp_all add: length_escape)
  then show ?thesis by (simp add: print_string_ptr_def in_buffer_def)
qed

lemma hex_value_hex_char: "n < 16 \<Longrightarrow> hex_value (hex_char n) = Some n"
  by (auto simp: hex_value_def hex_char_def less_eq_char_def)

lemma parse_hex4_printed:
  assumes "m < 256"
  shows "parse_hex4 (''00'' @ [hex_char (m div 16), hex_char (m mod 16)] @ rest) = m"
proof -
  have four: "(4::nat) = Suc (Suc (Suc (Suc 0)))" by simp
  have z: "hex_value (CHR ''0'') = Some 0" by (simp add: hex_value_def char_code_def)
  have "m div 16 < 16" using assms by linarith
  then show ?thesis
    unfolding parse_hex4_def four using hex_value_hex_char [of "m div 16"] hex_value_hex_char [of "m mod 16"]
    by (simp add: z)
qed

lemma escape_cases:
  obtains (plain) "escape c = [c]" "c \<noteq> QUOTE" "c \<noteq> BACKSLASH"
  | (simple) d where "escape c = [BACKSLASH, d]" "d \<noteq> CHR ''u''" "simple_escape d = c"
  | (unicode) "escape c = BACKSLASH # ''u00'' @ [hex_char (char_code c div 16), hex_char (char_code c mod 16)]"
      "char_code c < 32"
proof -
  consider "char_code c > 31" "c \<noteq> QUOTE" "c \<noteq> BACKSLASH"
    | "c \<in> {BACKSLASH, QUOTE, CHR 0x08, CHR 0x0C, CHR 0x0A, CHR 0x0D, CHR 0x09}"
    | "char_code c \<le> 31" "c \<notin> {BACKSLASH, QUOTE, CHR 0x08, CHR 0x0C, CHR 0x0A, CHR 0x0D, CHR 0x09}"
    by force
  then show thesis
  proof cases
    case 1
    then show ?thesis by (intro plain) (simp_all add: escape_def)
  next
    case 2
    have s: "escape BACKSLASH = [BACKSLASH, BACKSLASH]" "escape QUOTE = [BACKSLASH, QUOTE]"
      "escape CHR 0x08 = [BACKSLASH, CHR ''b'']" "escape CHR 0x0C = [BACKSLASH, CHR ''f'']"
      "escape CHR 0x0A = [BACKSLASH, CHR ''n'']" "escape CHR 0x0D = [BACKSLASH, CHR ''r'']"
      "escape CHR 0x09 = [BACKSLASH, CHR ''t'']"
      by (simp_all add: escape_def special_codes char_code_eq)
    then show ?thesis
      using 2 by (auto simp: simple_escape_def QUOTE_def BACKSLASH_def intro: simple)
  next
    case 3
    then show ?thesis by (intro unicode) (simp_all add: escape_def)
  qed
qed

lemma string_len_escaped: "\<exists>n \<ge> length s. string_len (concat (map escape s) @ QUOTE # rest) = Some n"
proof (induction s)
  case Nil
  then show ?case by simp
next
  case (Cons c s)
  then obtain n where n: "n \<ge> length s" "string_len (concat (map escape s) @ QUOTE # rest) = Some n" by blast
  have q: "BACKSLASH \<noteq> QUOTE" "CHR ''0'' \<noteq> QUOTE" "CHR ''0'' \<noteq> BACKSLASH"
    by (simp_all add: QUOTE_def BACKSLASH_def)
  have h: "m < 16 \<Longrightarrow> hex_char m \<noteq> QUOTE \<and> hex_char m \<noteq> BACKSLASH" for m
    by (auto simp: char_code_eq special_codes hex_char_def)
  show ?case
  proof (cases c rule: escape_cases)
    case plain
    then show ?thesis using n by simp
  next
    case (simple d)
    then show ?thesis using n q by simp
  next
    case unicode
    then show ?thesis using n q h [of "char_code c div 16"] h [of "char_code c mod 16"] by simp
  qed
qed

lemma unicode_escape_printed:
  "char_code c < 32 \<Longrightarrow> c \<noteq> CHR 0x00 \<Longrightarrow>
    unicode_escape (''00'' @ [hex_char (char_code c div 16), hex_char (char_code c mod 16)] @ rest) = Some ([c], rest)"
proof -
  assume c: "char_code c < 32" "c \<noteq> CHR 0x00"
  then have "char_code c \<noteq> 0" by (simp add: char_code_eq) (simp add: char_code_def)
  then show ?thesis
    using c parse_hex4_printed [of "char_code c" rest] by (simp add: unicode_escape_def utf8_def)
qed

lemma unescape_escaped:
  "CHR 0x00 \<notin> set s \<Longrightarrow> unescape (concat (map escape s) @ QUOTE # rest) = Some (s, QUOTE # rest)"
proof (induction s)
  case Nil
  then show ?case by (simp add: unescape.simps)
next
  case (Cons c s)
  then have IH: "unescape (concat (map escape s) @ QUOTE # rest) = Some (s, QUOTE # rest)" by simp
  have q: "BACKSLASH \<noteq> QUOTE" by (simp add: QUOTE_def BACKSLASH_def)
  show ?case
  proof (cases c rule: escape_cases)
    case plain
    then show ?thesis using IH by (subst unescape.simps) simp
  next
    case (simple d)
    then show ?thesis using IH q by (subst unescape.simps) simp
  next
    case unicode
    moreover have "c \<noteq> CHR 0x00" using Cons.prems by auto
    ultimately show ?thesis
      using IH q unicode_escape_printed [of c "concat (map escape s) @ QUOTE # rest"]
      by (subst unescape.simps) simp
  qed
qed

lemma parse_string_printed:
  assumes "CHR 0x00 \<notin> set s" and "print_string_ptr s = Returns out"
  shows "parse_string (out @ rest) = Parsed s rest"
proof -
  have out: "out @ rest = QUOTE # concat (map escape s) @ QUOTE # rest"
    using assms(2) print_string_total [of s] by simp
  obtain n where "n \<ge> length s" "string_len (concat (map escape s) @ QUOTE # rest) = Some n"
    using string_len_escaped by blast
  then show ?thesis
    unfolding out using unescape_escaped [OF assms(1), of rest] by (simp add: parse_string_def)
qed

section \<open>Numbers\<close>

lemma wrap64_id: "0 \<le> n \<Longrightarrow> n < 2 ^ 63 \<Longrightarrow> wrap64 n = n"
  by (simp add: wrap64_def)

lemma take_digits_all:
  "list_all is_digit cs \<Longrightarrow> digits_value acc cs < 2 ^ 63 \<Longrightarrow> rest = [] \<or> \<not> is_digit (hd rest) \<Longrightarrow>
    take_digits (int acc) (cs @ rest) = (int (digits_value acc cs), rest)"
proof (induction cs arbitrary: acc)
  case Nil
  then show ?case by (cases rest) auto
next
  case (Cons c cs)
  have "acc * 10 + digit_value c < 2 ^ 63"
    using digits_value_ge [of "acc * 10 + digit_value c" cs] Cons.prems(2) by simp
  then have "wrap64 (int acc * 10 + int (digit_value c)) = int (acc * 10 + digit_value c)"
    using wrap64_id [of "int (acc * 10 + digit_value c)"] by simp
  then show ?case using Cons.IH [of "acc * 10 + digit_value c"] Cons.prems by simp
qed

text \<open>What may follow a number.\<close>

definition ends_number :: "string \<Rightarrow> bool" where
  "ends_number rest = (rest = [] \<or> \<not> (is_digit (hd rest) \<or> hd rest \<in> {CHR ''.'', CHR ''e'', CHR ''E''}))"

lemma parse_number_nat:
  assumes "n < 2 ^ 63" and "ends_number rest"
  shows "parse_integer (show_nat n @ rest) = (int n, rest)"
proof (cases "n = 0")
  case True
  have z: "show_nat 0 = ''0''" by (subst show_nat.simps) (simp add: digit_char_def, code_simp)
  have "rest = [] \<or> \<not> (CHR ''1'' \<le> hd rest \<and> hd rest \<le> CHR ''9'')"
    using assms(2) by (auto simp: ends_number_def is_digit_def less_eq_char_def)
  then show ?thesis using True z by (auto simp: parse_integer_def)
next
  case False
  then have h: "hd (show_nat n) \<noteq> CHR ''0''" using show_nat_first by simp
  obtain c cs where s: "show_nat n = c # cs" by (cases "show_nat n") simp_all
  have d: "is_digit c" using is_digit_show_nat [of c n] s by simp
  have "CHR ''1'' \<le> c \<and> c \<le> CHR ''9''"
  proof -
    have "char_code c \<noteq> char_code (CHR ''0'')" using h s char_code_eq by simp
    then have "char_code c \<noteq> 48" by (simp add: char_code_def)
    then show ?thesis using d by (auto simp: is_digit_code less_eq_char_def char_code_def)
  qed
  moreover have "take_digits 0 (show_nat n @ rest) = (int n, rest)"
    using take_digits_all [of "show_nat n" 0 rest] is_digit_show_nat [of _ n] assms
    by (auto simp: list_all_iff ends_number_def)
  ultimately show ?thesis using h s by (simp add: parse_integer_def)
qed

lemma parse_number_signed:
  assumes "parse_integer t = (m, rest)" and "\<not> starts (CHR ''-'') t" and "ends_number rest"
  shows "parse_number D t = (Integer m, rest)" "parse_number D (CHR ''-'' # t) = (Integer m, rest)"
proof -
  have "\<not> (starts (CHR ''.'') rest \<or> starts (CHR ''e'') rest \<or> starts (CHR ''E'') rest)"
    using assms(3) by (cases rest) (auto simp: ends_number_def)
  then show "parse_number D t = (Integer m, rest)" "parse_number D (CHR ''-'' # t) = (Integer m, rest)"
    using assms(1,2) by (simp_all add: parse_number_def)
qed

lemma parse_number_shown:
  assumes "\<bar>n\<bar> < 2 ^ 63" and "ends_number rest"
  shows "parse_number D (show_int n @ rest) = (Integer \<bar>n\<bar>, rest)"
proof -
  have m: "nat \<bar>n\<bar> < 2 ^ 63" using assms(1) by simp
  obtain c cs where s: "show_nat (nat \<bar>n\<bar>) = c # cs" by (cases "show_nat (nat \<bar>n\<bar>)") simp_all
  have "is_digit c" using is_digit_show_nat [of c "nat \<bar>n\<bar>"] s by simp
  then have "\<not> starts (CHR ''-'') (show_nat (nat \<bar>n\<bar>) @ rest)"
    using s by (auto simp: is_digit_def less_eq_char_def)
  note q = parse_number_signed [OF parse_number_nat [OF m assms(2)] this assms(2), of D]
  then show ?thesis by (cases "n < 0") (simp_all add: show_int_def)
qed

section \<open>Progress\<close>

lemma skip_space_shorter: "length (skip_space s) \<le> length s"
  by (simp add: skip_space_def length_dropWhile_le)

lemma unescape_shorter: "unescape s = Some (w, t) \<Longrightarrow> length t \<le> length s"
proof (induction s arbitrary: w t rule: unescape.induct)
  case (1 s)
  show ?case
  proof (cases s)
    case Nil
    then show ?thesis using 1(4) by (simp add: unescape.simps)
  next
    case (Cons c cs)
    show ?thesis
    proof (cases "c = QUOTE \<or> c \<noteq> BACKSLASH \<or> cs = []")
      case True
      then show ?thesis
        using 1(4) 1(1) [OF Cons] Cons by (subst (asm) unescape.simps) (auto split: if_splits)
    next
      case False
      then obtain d ds where cs: "cs = d # ds" by (cases cs) auto
      show ?thesis
      proof (cases "d = CHR ''u''")
        case True
        obtain v t' where u: "unicode_escape ds = Some (v, t')"
          using 1(4) Cons cs False True by (subst (asm) unescape.simps) (auto split: option.splits)
        obtain w' where "unescape t' = Some (w', t)"
          using 1(4) Cons cs False True u by (subst (asm) unescape.simps) auto
        then have "length t \<le> length t'"
          using 1(2) [OF Cons _ _ cs True u refl] False by simp
        then show ?thesis using unicode_escape_shorter [OF u] Cons cs by simp
      next
        case other: False
        obtain w' where "unescape ds = Some (w', t)"
          using 1(4) Cons cs False other by (subst (asm) unescape.simps) auto
        then have "length t \<le> length ds"
          using 1(3) [OF Cons _ _ cs other] False by simp
        then show ?thesis using Cons cs by simp
      qed
    qed
  qed
qed

lemma parse_string_shorter: "parse_string s = Parsed x rest \<Longrightarrow> length rest < length s"
  by (cases s) (auto simp: parse_string_def split: if_splits option.splits prod.splits
      dest!: unescape_shorter)

lemma take_digits_shorter: "take_digits n s = (m, t) \<Longrightarrow> length t \<le> length s"
  by (induction s arbitrary: n) (auto split: if_splits intro: le_SucI)

lemma parse_exponent_shorter: "length (snd (parse_exponent s)) \<le> length s"
proof -
  have d: "length (dropWhile is_digit t) \<le> length t" for t by (rule length_dropWhile_le)
  show ?thesis
    using d [of "tl s"] d [of "tl (tl s)"]
    by (cases s) (auto simp: parse_exponent_def Let_def split: list.split)
qed

lemma parse_integer_shorter:
  assumes "parse_integer s1 = (n, s3)"
  shows "length s3 \<le> length s1" and "s1 \<noteq> [] \<Longrightarrow> is_digit (hd s1) \<Longrightarrow> length s3 < length s1"
proof -
  define s2 where "s2 = (if starts (CHR ''0'') s1 then tl s1 else s1)"
  have d: "(if s2 \<noteq> [] \<and> CHR ''1'' \<le> hd s2 \<and> hd s2 \<le> CHR ''9'' then take_digits 0 s2 else (0, s2)) = (n, s3)"
    using assms unfolding parse_integer_def s2_def Let_def .
  then have le: "length s3 \<le> length s2" using take_digits_shorter by (auto split: if_splits)
  then show "length s3 \<le> length s1" by (auto simp: s2_def split: if_splits)
  assume s1: "s1 \<noteq> []" "is_digit (hd s1)"
  then obtain c cs where c: "s1 = c # cs" by (cases s1) auto
  show "length s3 < length s1"
  proof (cases "c = CHR ''0''")
    case True
    then show ?thesis using le c by (simp add: s2_def)
  next
    case False
    then have "s2 = c # cs" "CHR ''1'' \<le> c" "c \<le> CHR ''9''"
      using s1 c char_code_eq [of c "CHR ''0''"]
      by (auto simp: s2_def is_digit_code less_eq_char_def char_code_def)
    then have "take_digits (wrap64 (int (digit_value c))) cs = (n, s3)"
      using d s1 c by simp
    then show ?thesis using take_digits_shorter c by fastforce
  qed
qed

lemma parse_fraction_shorter: "length (snd (parse_fraction s)) \<le> length s"
  using length_dropWhile_le [of is_digit "tl s"] by (auto simp: parse_fraction_def)

lemma parse_number_shorter:
  assumes "parse_number D s = (v, rest)" and "starts (CHR ''-'') s \<or> (s \<noteq> [] \<and> is_digit (hd s))"
  shows "length rest < length s"
proof -
  define s1 where "s1 = (if starts (CHR ''-'') s then tl s else s)"
  obtain n s3 where s3: "parse_integer s1 = (n, s3)" by (cases "parse_integer s1") auto
  have "length s3 < length s"
    using parse_integer_shorter [OF s3] assms(2) by (cases s) (auto simp: s1_def split: if_splits)
  moreover have "rest = s3 \<or> rest = snd (parse_exponent (snd (parse_fraction s3)))"
    using assms(1) s3 by (simp add: parse_number_def s1_def split_beta Let_def split: if_splits)
  then have "length rest \<le> length s3"
    using parse_fraction_shorter [of s3] parse_exponent_shorter [of "snd (parse_fraction s3)"] by auto
  ultimately show ?thesis by simp
qed

end
