(* ===== verification/JsonFuel.thy ===== *)
theory JsonFuel
  imports JsonLexical
begin

text \<open>
  The recursion of the JSON reader: what it does by the first character, that every call and every
  round of a loop moves forward, that the fuel of \<^verbatim>\<open>cJSON_Parse\<close> is enough, and that more fuel
  changes nothing.
\<close>

lemma has_prefix_Cons: "has_prefix (p # ps) (c # cs) = (c = p \<and> has_prefix ps cs)" "has_prefix [] cs = True"
  "has_prefix (p # ps) [] = False"
  by (auto simp: has_prefix_def)

text \<open>\<^verbatim>\<open>parse_value\<close> by the first character.\<close>

lemma parse_value_string:
  "starts QUOTE s \<Longrightarrow> parse_value D (Suc n) s = map_parsed String (parse_string s)"
  by (cases s) (simp_all add: has_prefix_Cons QUOTE_def)

lemma parse_value_array:
  "starts (CHR ''['') s \<Longrightarrow> parse_value D (Suc n) s =
    (if starts (CHR '']'') (skip_space (tl s)) then Parsed (Array []) (tl (skip_space (tl s)))
     else parse_items D n [] (skip_space (tl s)))"
  by (cases s) (simp_all add: has_prefix_Cons QUOTE_def is_digit_def less_eq_char_def Let_def)

lemma parse_value_object:
  "starts (CHR ''{'') s \<Longrightarrow> parse_value D (Suc n) s =
    (if starts (CHR ''}'') (skip_space (tl s)) then Parsed (Object []) (tl (skip_space (tl s)))
     else parse_members D n [] (skip_space (tl s)))"
  by (cases s) (simp_all add: has_prefix_Cons QUOTE_def is_digit_def less_eq_char_def Let_def)

definition starts_number :: "string \<Rightarrow> bool" where
  "starts_number s = (starts (CHR ''-'') s \<or> (s \<noteq> [] \<and> is_digit (hd s)))"

lemma parse_value_number:
  "starts_number s \<Longrightarrow> parse_value D (Suc n) s = (case parse_number D s of (v, rest) \<Rightarrow> Parsed v rest)"
  by (cases s) (auto simp: starts_number_def has_prefix_Cons QUOTE_def is_digit_def less_eq_char_def split: prod.split)

lemma parse_value_literal:
  "parse_value D (Suc n) (''null'' @ rest) = Parsed Null rest"
  "parse_value D (Suc n) (''false'' @ rest) = Parsed (Boolean False) rest"
  "parse_value D (Suc n) (''true'' @ rest) = Parsed (Boolean True) rest"
  by (simp_all add: has_prefix_Cons)

lemma parse_value_other:
  "\<not> starts QUOTE s \<Longrightarrow> \<not> starts (CHR ''['') s \<Longrightarrow> \<not> starts (CHR ''{'') s \<Longrightarrow> \<not> starts_number s \<Longrightarrow>
    parse_value D (Suc n) s \<in> {Parsed Null (drop 4 s), Parsed (Boolean False) (drop 5 s), Parsed (Boolean True) (drop 4 s), Failed s}
    \<and> (s = [] \<longrightarrow> parse_value D (Suc n) s = Failed s)"
  by (auto simp: starts_number_def has_prefix_Cons)

lemma parse_value_cases:
  obtains (string) "starts QUOTE s" | (array) "starts (CHR ''['') s" | (object) "starts (CHR ''{'') s"
  | (number) "starts_number s" | (other) "\<not> starts QUOTE s" "\<not> starts (CHR ''['') s" "\<not> starts (CHR ''{'') s" "\<not> starts_number s"
  by blast

lemma and_then_Parsed: "and_then m k = Parsed y t \<Longrightarrow> \<exists>x rest. m = Parsed x rest \<and> k x rest = Parsed y t"
  by (cases m) auto

lemma starts_tl: "starts c s \<Longrightarrow> length (tl s) < length s"
  by (cases s) auto

lemma map_parsed_Parsed: "map_parsed f m = Parsed y t \<Longrightarrow> \<exists>x. m = Parsed x t"
  by (cases m) auto

lemma separator_shorter:
  assumes "(let t = skip_space r in if starts (CHR '','') t then f (tl t)
      else if starts c t then Parsed y (tl t) else Failed t) = Parsed v rest"
    and "\<And>s. f s = Parsed v rest \<Longrightarrow> length rest < length s"
  shows "length rest \<le> length r"
proof -
  define t where "t = skip_space r"
  have "length (tl t) \<le> length r" using skip_space_shorter [of r] by (simp add: t_def)
  moreover have "f (tl t) = Parsed v rest \<or> rest = tl t"
    using assms(1) by (auto simp: t_def [symmetric] Let_def split: if_splits)
  then have "length rest \<le> length (tl t)" using assms(2) [of "tl t"] by auto
  ultimately show ?thesis by simp
qed

lemma parse_shorter:
  "(\<forall>D s (v :: 'd json) rest. parse_value D n s = Parsed v rest \<longrightarrow> length rest < length s)
    \<and> (\<forall>D xs s (v :: 'd json) rest. parse_items D n xs s = Parsed v rest \<longrightarrow> length rest < length s)
    \<and> (\<forall>D ms s (v :: 'd json) rest. parse_members D n ms s = Parsed v rest \<longrightarrow> length rest < length s)"
proof (induction n)
  case 0
  then show ?case by simp
next
  case (Suc n)
  note sk = skip_space_shorter
  have v: "length rest < length s" if p: "parse_value D (Suc n) s = Parsed (v :: 'd json) rest" for D s v rest
  proof (cases s rule: parse_value_cases)
    case string
    then show ?thesis
      using p parse_string_shorter by (auto simp: parse_value_string dest!: map_parsed_Parsed simp del: parse_value.simps)
  next
    case array
    have "length (skip_space (tl s)) < length s" using sk [of "tl s"] starts_tl [OF array] by simp
    moreover have "length rest \<le> length (skip_space (tl s))"
      using p Suc.IH by (auto simp: parse_value_array [OF array] simp del: parse_value.simps intro: less_imp_le split: if_splits)
    ultimately show ?thesis by simp
  next
    case object
    have "length (skip_space (tl s)) < length s" using sk [of "tl s"] starts_tl [OF object] by simp
    moreover have "length rest \<le> length (skip_space (tl s))"
      using p Suc.IH by (auto simp: parse_value_object [OF object] simp del: parse_value.simps intro: less_imp_le split: if_splits)
    ultimately show ?thesis by simp
  next
    case number
    then show ?thesis
      using p parse_number_shorter [of D s]
      by (auto simp: parse_value_number starts_number_def simp del: parse_value.simps split: prod.splits)
  next
    case other
    then have "s \<noteq> []" "parse_value D (Suc n) s \<in> {Parsed Null (drop 4 s), Parsed (Boolean False) (drop 5 s),
        Parsed (Boolean True) (drop 4 s), Failed s}"
      using p parse_value_other [of s D n] by auto
    then show ?thesis using p by (cases s) (auto simp del: parse_value.simps)
  qed
  have i: "length rest < length s" if p: "parse_items D (Suc n) xs s = Parsed (v :: 'd json) rest" for D xs s v rest
  proof -
    obtain x r where x: "parse_value D n (skip_space s) = Parsed x r"
      and k: "(let t = skip_space r in if starts (CHR '','') t then parse_items D n (xs @ [x]) (tl t)
          else if starts (CHR '']'') t then Parsed (Array (xs @ [x])) (tl t) else Failed t) = Parsed v rest"
      using p and_then_Parsed by fastforce
    have "length r < length s" using x Suc.IH sk [of s] by (meson less_le_trans)
    moreover have "length rest \<le> length r" by (rule separator_shorter [OF k]) (use Suc.IH in blast)
    ultimately show ?thesis by simp
  qed
  have m: "length rest < length s" if p: "parse_members D (Suc n) ms s = Parsed (v :: 'd json) rest" for D ms s v rest
  proof -
    obtain name r where name: "parse_string (skip_space s) = Parsed name r"
      and k: "(let t = skip_space r in if \<not> starts (CHR '':'') t then Failed t
          else and_then (parse_value D n (skip_space (tl t))) (\<lambda>x rest'.
            let t' = skip_space rest'
            in if starts (CHR '','') t' then parse_members D n (ms @ [(name, x)]) (tl t')
               else if starts (CHR ''}'') t' then Parsed (Object (ms @ [(name, x)])) (tl t')
               else Failed t')) = Parsed v rest"
      using p and_then_Parsed by fastforce
    then obtain x r' where x: "parse_value D n (skip_space (tl (skip_space r))) = Parsed x r'"
      and k': "(let t' = skip_space r' in if starts (CHR '','') t' then parse_members D n (ms @ [(name, x)]) (tl t')
               else if starts (CHR ''}'') t' then Parsed (Object (ms @ [(name, x)])) (tl t') else Failed t') = Parsed v rest"
      using and_then_Parsed by (fastforce simp: Let_def split: if_splits)
    have "length r < length s" using parse_string_shorter [OF name] sk [of s] by simp
    moreover have "length r' \<le> length r"
    proof -
      have "length r' < length (skip_space (tl (skip_space r)))" using x Suc.IH by blast
      moreover have "length (skip_space (tl (skip_space r))) \<le> length r"
        using sk [of "tl (skip_space r)"] sk [of r] by simp
      ultimately show ?thesis by simp
    qed
    moreover have "length rest \<le> length r'" by (rule separator_shorter [OF k']) (use Suc.IH in blast)
    ultimately show ?thesis by simp
  qed
  show ?case using v i m by blast
qed
lemma and_then_Stuck: "and_then m k = Stuck \<longleftrightarrow> m = Stuck \<or> (\<exists>x rest. m = Parsed x rest \<and> k x rest = Stuck)"
  by (cases m) auto

lemma parse_string_not_Stuck: "parse_string s \<noteq> Stuck"
  by (auto simp: parse_string_def split: option.splits)

lemma map_parsed_Stuck: "map_parsed f m = Stuck \<longleftrightarrow> m = Stuck"
  by (cases m) auto

text \<open>Every round of a loop and every value consumes a character: the fuel does not run out.\<close>

lemma parse_not_stuck:
  "(\<forall>D s. 2 * length s < n \<longrightarrow> parse_value D n s \<noteq> (Stuck :: 'd json parsed))
    \<and> (\<forall>D xs s. 2 * length s + 1 < n \<longrightarrow> parse_items D n xs s \<noteq> (Stuck :: 'd json parsed))
    \<and> (\<forall>D ms s. 2 * length s + 1 < n \<longrightarrow> parse_members D n ms s \<noteq> (Stuck :: 'd json parsed))"
proof (induction n)
  case 0
  then show ?case by simp
next
  case (Suc n)
  note sk = skip_space_shorter and sh = parse_shorter [of n]
  have v: "parse_value D (Suc n) s \<noteq> (Stuck :: 'd json parsed)" if len: "2 * length s < Suc n" for D s
  proof (cases s rule: parse_value_cases)
    case string
    then show ?thesis by (simp add: parse_value_string map_parsed_Stuck parse_string_not_Stuck del: parse_value.simps)
  next
    case array
    have "2 * length (skip_space (tl s)) + 1 < n" using sk [of "tl s"] starts_tl [OF array] len by simp
    then show ?thesis using Suc.IH by (simp add: parse_value_array [OF array] del: parse_value.simps)
  next
    case object
    have "2 * length (skip_space (tl s)) + 1 < n" using sk [of "tl s"] starts_tl [OF object] len by simp
    then show ?thesis using Suc.IH by (simp add: parse_value_object [OF object] del: parse_value.simps)
  next
    case number
    then show ?thesis by (simp add: parse_value_number del: parse_value.simps split: prod.split)
  next
    case other
    then show ?thesis using parse_value_other [of s D n] by auto
  qed
  have i: "parse_items D (Suc n) xs s \<noteq> (Stuck :: 'd json parsed)" if len: "2 * length s + 1 < Suc n" for D xs s
  proof
    assume "parse_items D (Suc n) xs s = (Stuck :: 'd json parsed)"
    moreover have "parse_value D n (skip_space s) \<noteq> (Stuck :: 'd json parsed)"
      using Suc.IH sk [of s] len by auto
    ultimately obtain x r where x: "parse_value D n (skip_space s) = Parsed (x :: 'd json) r"
      and k: "parse_items D n (xs @ [x]) (tl (skip_space r)) = Stuck" "starts (CHR '','') (skip_space r)"
      by (auto simp: and_then_Stuck Let_def split: if_splits)
    have "length (tl (skip_space r)) + 1 \<le> length s"
      using x sh starts_tl [OF k(2)] sk [of r] sk [of s] by fastforce
    then show False using k(1) Suc.IH len by auto
  qed
  have m: "parse_members D (Suc n) ms s \<noteq> (Stuck :: 'd json parsed)" if len: "2 * length s + 1 < Suc n" for D ms s
  proof
    assume "parse_members D (Suc n) ms s = (Stuck :: 'd json parsed)"
    then obtain name r where name: "parse_string (skip_space s) = Parsed name r"
      and k: "parse_value D n (skip_space (tl (skip_space r))) = (Stuck :: 'd json parsed)
        \<or> (\<exists>x r'. parse_value D n (skip_space (tl (skip_space r))) = Parsed x r'
            \<and> starts (CHR '','') (skip_space r') \<and> parse_members D n (ms @ [(name, x)]) (tl (skip_space r')) = Stuck)"
      by (auto simp: and_then_Stuck parse_string_not_Stuck Let_def split: if_splits)
    have r: "length (skip_space (tl (skip_space r))) < length s"
      using parse_string_shorter [OF name] sk [of s] sk [of r] sk [of "tl (skip_space r)"] by simp
    then have "parse_value D n (skip_space (tl (skip_space r))) \<noteq> (Stuck :: 'd json parsed)"
      using Suc.IH len by auto
    with k obtain x r' where x: "parse_value D n (skip_space (tl (skip_space r))) = Parsed (x :: 'd json) r'"
      and k': "starts (CHR '','') (skip_space r')" "parse_members D n (ms @ [(name, x)]) (tl (skip_space r')) = Stuck"
      by auto
    have "length r' < length s" using x sh r by fastforce
    then have "length (tl (skip_space r')) + 1 \<le> length s"
      using starts_tl [OF k'(1)] sk [of r'] by simp
    then show False using k'(2) Suc.IH len by auto
  qed
  show ?case using v i m by blast
qed

text \<open>More fuel does not change a result.\<close>

lemma and_then_mono: "and_then m k \<noteq> Stuck \<Longrightarrow> (m \<noteq> Stuck \<Longrightarrow> m' = m) \<Longrightarrow>
    (\<And>x rest. m = Parsed x rest \<Longrightarrow> k x rest \<noteq> Stuck \<Longrightarrow> k' x rest = k x rest) \<Longrightarrow> and_then m' k' = and_then m k"
  by (cases m) auto

lemma parse_mono:
  "(\<forall>D s. parse_value D n s \<noteq> (Stuck :: 'd json parsed) \<longrightarrow> parse_value D (Suc n) s = parse_value D n s)
    \<and> (\<forall>D xs s. parse_items D n xs s \<noteq> (Stuck :: 'd json parsed) \<longrightarrow> parse_items D (Suc n) xs s = parse_items D n xs s)
    \<and> (\<forall>D ms s. parse_members D n ms s \<noteq> (Stuck :: 'd json parsed) \<longrightarrow> parse_members D (Suc n) ms s = parse_members D n ms s)"
proof (induction n)
  case 0
  then show ?case by simp
next
  case (Suc n)
  have v: "parse_value D (Suc (Suc n)) s = parse_value D (Suc n) s"
    if ns: "parse_value D (Suc n) s \<noteq> (Stuck :: 'd json parsed)" for D s
  proof (cases s rule: parse_value_cases)
    case string
    then show ?thesis by (simp only: parse_value_string)
  next
    case array
    then show ?thesis using ns Suc.IH by (simp only: parse_value_array split: if_split) auto
  next
    case object
    then show ?thesis using ns Suc.IH by (simp only: parse_value_object split: if_split) auto
  next
    case number
    then show ?thesis by (simp only: parse_value_number)
  next
    case other
    then show ?thesis by (auto simp: starts_number_def)
  qed
  have i: "parse_items D (Suc (Suc n)) xs s = parse_items D (Suc n) xs s"
    if ns: "parse_items D (Suc n) xs s \<noteq> (Stuck :: 'd json parsed)" for D xs s
    using ns unfolding parse_items.simps(2)
    by (rule and_then_mono) (use Suc.IH in \<open>auto simp: Let_def\<close>)
  have m: "parse_members D (Suc (Suc n)) ms s = parse_members D (Suc n) ms s"
    if ns: "parse_members D (Suc n) ms s \<noteq> (Stuck :: 'd json parsed)" for D ms s
  proof -
    let ?K = "\<lambda>k name x rest'. let t' = skip_space rest'
      in if starts (CHR '','') t' then parse_members D k (ms @ [(name, x)]) (tl t')
         else if starts (CHR ''}'') t' then Parsed (Object (ms @ [(name, x)])) (tl t') else Failed t'"
    let ?F = "\<lambda>k name rest. let t = skip_space rest in if \<not> starts (CHR '':'') t then Failed t
      else and_then (parse_value D k (skip_space (tl t))) (?K k name)"
    have eq: "parse_members D (Suc k) ms s = and_then (parse_string (skip_space s)) (?F k)" for k
      by (rule parse_members.simps(2))
    have inner: "and_then (parse_value D (Suc n) u) (?K (Suc n) name) = and_then (parse_value D n u) (?K n name)"
      if "and_then (parse_value D n u) (?K n name) \<noteq> Stuck" for u name
      by (rule and_then_mono [OF that]) (use Suc.IH in \<open>auto simp: Let_def simp del: parse_value.simps parse_members.simps split: if_splits\<close>)
    have "and_then (parse_string (skip_space s)) (?F (Suc n)) = and_then (parse_string (skip_space s)) (?F n)"
      using ns unfolding eq
      by (rule and_then_mono) (use inner in \<open>auto simp: Let_def simp del: parse_value.simps parse_members.simps split: if_splits\<close>)
    then show ?thesis unfolding eq .
  qed
  show ?case using v i m by blast
qed

lemma parse_value_stable:
  assumes "parse_value D n s \<noteq> (Stuck :: 'd json parsed)"
  shows "parse_value D (n + k) s = parse_value D n s"
proof (induction k)
  case (Suc k)
  then have "parse_value D (n + k) s \<noteq> (Stuck :: 'd json parsed)" using assms by simp
  then have "parse_value D (Suc (n + k)) s = parse_value D (n + k) s"
    using parse_mono [where n = "n + k" and ?'d = 'd] by blast
  then show ?case using Suc by (simp only: add_Suc_right)
qed (simp only: add_0_right)

text \<open>The fuel of \<^verbatim>\<open>cJSON_Parse\<close> never runs out, and its result is that of any larger fuel.\<close>

lemma fuel_for_enough: "parse_value D (fuel_for s) s \<noteq> (Stuck :: 'd json parsed)"
proof -
  have "2 * length s < fuel_for s" by (simp add: fuel_for_def)
  then show ?thesis using parse_not_stuck [where n = "fuel_for s"] by blast
qed

lemma parse_value_own_fuel:
  assumes "parse_value D n s = Parsed (v :: 'd json) rest"
  shows "parse_value D (fuel_for s) s = Parsed v rest"
proof (cases "n \<le> fuel_for s")
  case True
  then show ?thesis
    using parse_value_stable [of D n s "fuel_for s - n"] assms by (simp del: parse_value.simps)
next
  case False
  then show ?thesis
    using parse_value_stable [OF fuel_for_enough, of D s "n - fuel_for s"] assms by (simp del: parse_value.simps)
qed

end
