(* ===== verification/JsonSafety.thy ===== *)
theory JsonSafety
  imports JsonFuel
begin

text \<open>
  Texts on which the JSON reader stays in its buffers: every backslash is followed by a character, and not by
  the letter of the escape that is skipped unread. All that the reader goes on with is the end of its text.
\<close>

fun calm :: "string \<Rightarrow> bool" where
  "calm [] = True"
| "calm (c # cs) = (calm cs \<and> (c = BACKSLASH \<longrightarrow> cs \<noteq> [] \<and> hd cs \<noteq> CHR ''u''))"

lemma calm_drop: "calm s \<Longrightarrow> calm (drop k s)"
proof (induction s arbitrary: k)
  case (Cons c cs)
  then show ?case by (cases k) auto
qed simp

lemma calm_tl: "calm s \<Longrightarrow> calm (tl s)"
  by (cases s) auto

lemma calm_dropWhile: "calm s \<Longrightarrow> calm (dropWhile p s)"
  by (induction s) auto

lemma calm_skip_space: "calm s \<Longrightarrow> calm (skip_space s)"
  by (simp add: skip_space_def calm_dropWhile)

lemma calm_take_digits: "calm s \<Longrightarrow> calm (snd (take_digits n s))"
  by (induction s arbitrary: n) auto

lemma calm_parse_integer: "calm s \<Longrightarrow> calm (snd (parse_integer s))"
  by (simp add: parse_integer_def Let_def calm_take_digits calm_tl)

lemma calm_parse_fraction: "calm s \<Longrightarrow> calm (snd (parse_fraction s))"
  by (simp add: parse_fraction_def calm_dropWhile calm_tl)

lemma calm_parse_exponent: "calm s \<Longrightarrow> calm (snd (parse_exponent s))"
  by (cases s) (auto simp: parse_exponent_def Let_def split_beta intro!: calm_dropWhile split: list.split)

lemma calm_parse_number: "calm s \<Longrightarrow> calm (snd (parse_number D s))"
  by (auto simp: parse_number_def Let_def split_beta intro!: calm_parse_integer calm_parse_fraction calm_parse_exponent calm_tl)

text \<open>Without that escape the second pass writes no more than the first one counted.\<close>

lemma calm_passes:
  "calm s \<Longrightarrow> \<exists>len out rest. string_len s = Some len \<and> unescape s = Some (out, rest) \<and> length out \<le> len \<and> calm rest"
proof (induction s rule: length_induct)
  case (1 s)
  have ih: "\<exists>len out rest. string_len t = Some len \<and> unescape t = Some (out, rest) \<and> length out \<le> len \<and> calm rest"
    if "length t < length s" "calm t" for t
    using 1 that by blast
  show ?case
  proof (cases s)
    case Nil
    then show ?thesis by (simp add: unescape.simps)
  next
    case (Cons c cs)
    have cs: "calm cs" using 1 Cons by simp
    consider "c = QUOTE" | "c \<noteq> QUOTE" "c \<noteq> BACKSLASH" | d ds where "c = BACKSLASH" "cs = d # ds" "d \<noteq> CHR ''u''"
      using 1 Cons by (cases cs) auto
    then show ?thesis
    proof cases
      case 1
      then show ?thesis using Cons \<open>calm s\<close> by (simp add: unescape.simps)
    next
      case 2
      then show ?thesis using ih [of cs] cs Cons by (auto simp: unescape.simps [of "c # cs"])
    next
      case 3
      have "calm ds" using cs 3 by simp
      have q: "BACKSLASH \<noteq> QUOTE" by (simp add: QUOTE_def BACKSLASH_def)
      obtain len out rest where r: "string_len ds = Some len" "unescape ds = Some (out, rest)" "length out \<le> len" "calm rest"
        using ih [of ds] Cons 3 \<open>calm ds\<close> by auto
      have "unescape s = Some (simple_escape d # out, rest)"
        unfolding Cons 3(1,2) by (subst unescape.simps) (simp add: q 3(3) r(2))
      moreover have "string_len s = Some (Suc len)" unfolding Cons 3(1,2) by (simp add: q r(1))
      ultimately show ?thesis using r by simp
    qed
  qed
qed

definition stays :: "'a parsed \<Rightarrow> bool" where
  "stays r \<longleftrightarrow> r \<noteq> Overrun \<and> (\<forall>x rest. r = Parsed x rest \<longrightarrow> calm rest)"

lemma stays_simps [simp]: "stays (Parsed x rest) = calm rest" "stays (Failed t)" "stays Stuck" "\<not> stays Overrun"
  by (auto simp: stays_def)

lemma stays_map: "stays m \<Longrightarrow> stays (map_parsed f m)"
  by (cases m) simp_all

lemma stays_then: "stays m \<Longrightarrow> (\<And>x rest. calm rest \<Longrightarrow> stays (k x rest)) \<Longrightarrow> stays (and_then m k)"
  by (cases m) simp_all

lemma stays_string:
  assumes "calm s"
  shows "stays (parse_string s)"
proof (cases "starts QUOTE s")
  case True
  obtain len out rest where "string_len (tl s) = Some len" "unescape (tl s) = Some (out, rest)" "length out \<le> len" "calm rest"
    using calm_passes [OF calm_tl [OF assms]] by blast
  then show ?thesis using True by (simp add: parse_string_def calm_tl)
qed (simp add: parse_string_def)

lemma stays_separator:
  assumes "calm r" and "\<And>t. calm t \<Longrightarrow> stays (f t)"
  shows "stays (let t = skip_space r in if starts (CHR '','') t then f (tl t)
    else if starts c t then Parsed y (tl t) else Failed t)"
  using assms(2) calm_tl [OF calm_skip_space [OF assms(1)]] by (simp add: Let_def)

lemma parse_stays:
  "(\<forall>D s. calm s \<longrightarrow> stays (parse_value D n s :: 'd json parsed))
    \<and> (\<forall>D xs s. calm s \<longrightarrow> stays (parse_items D n xs s :: 'd json parsed))
    \<and> (\<forall>D ms s. calm s \<longrightarrow> stays (parse_members D n ms s :: 'd json parsed))"
proof (induction n)
  case 0
  then show ?case by simp
next
  case (Suc n)
  note sk = calm_skip_space
  have v: "stays (parse_value D (Suc n) s :: 'd json parsed)" if c: "calm s" for D s
  proof (cases s rule: parse_value_cases)
    case string
    then show ?thesis using stays_map [OF stays_string [OF c]] by (simp only: parse_value_string)
  next
    case array
    have "calm (skip_space (tl s))" using sk [OF calm_tl [OF c]] .
    then show ?thesis using Suc.IH calm_tl by (simp add: parse_value_array [OF array] del: parse_value.simps)
  next
    case object
    have "calm (skip_space (tl s))" using sk [OF calm_tl [OF c]] .
    then show ?thesis using Suc.IH calm_tl by (simp add: parse_value_object [OF object] del: parse_value.simps)
  next
    case number
    then show ?thesis using calm_parse_number [OF c, of D] by (cases "parse_number D s") (simp add: parse_value_number del: parse_value.simps)
  next
    case other
    then show ?thesis using parse_value_other [of s D n] calm_drop [OF c] by fastforce
  qed
  have i: "stays (parse_items D (Suc n) xs s :: 'd json parsed)" if c: "calm s" for D xs s
    unfolding parse_items.simps(2)
    by (rule stays_then) (use Suc.IH sk [OF c] in \<open>auto intro!: stays_separator\<close>)
  have m: "stays (parse_members D (Suc n) ms s :: 'd json parsed)" if c: "calm s" for D ms s
    unfolding parse_members.simps(2)
  proof (rule stays_then)
    show "stays (parse_string (skip_space s))" by (rule stays_string [OF sk [OF c]])
    fix name rest
    assume rest: "calm rest"
    have t: "calm (skip_space (tl (skip_space rest)))" using sk [OF calm_tl [OF sk [OF rest]]] .
    have "stays (and_then (parse_value D n (skip_space (tl (skip_space rest)))) (\<lambda>x rest'.
            let t' = skip_space rest'
            in if starts (CHR '','') t' then parse_members D n (ms @ [(name, x)]) (tl t')
               else if starts (CHR ''}'') t' then Parsed (Object (ms @ [(name, x)])) (tl t')
               else Failed t') :: 'd json parsed)"
      by (rule stays_then) (use Suc.IH t in \<open>auto intro!: stays_separator\<close>)
    then show "stays (let t = skip_space rest
       in if \<not> starts (CHR '':'') t then Failed t
          else and_then (parse_value D n (skip_space (tl t))) (\<lambda>x rest'.
            let t' = skip_space rest'
            in if starts (CHR '','') t' then parse_members D n (ms @ [(name, x)]) (tl t')
               else if starts (CHR ''}'') t' then Parsed (Object (ms @ [(name, x)])) (tl t')
               else Failed t') :: 'd json parsed)"
      by (simp add: Let_def)
  qed
  show ?case using v i m by blast
qed

lemma stays_ParseWithOpts:
  assumes "calm (c_string s)"
  shows "cJSON_ParseWithOpts D terminated s \<noteq> (Overrun :: 'd json parsed)"
proof -
  let ?v = "skip_space (c_string s)"
  have "stays (parse_value D (fuel_for ?v) ?v :: 'd json parsed)"
    using parse_stays [of "fuel_for ?v", where ?'d = 'd] calm_skip_space [OF assms] by blast
  then show ?thesis
    unfolding cJSON_ParseWithOpts_def Let_def by (cases "parse_value D (fuel_for ?v) ?v :: 'd json parsed") simp_all
qed

end
