(* ===== verification/JsonRoundtrip.thy ===== *)
theory JsonRoundtrip
  imports JsonSafety
begin

text \<open>
  What the JSON printer writes and the reader makes of it: the printed text is read back, up to the
  sign of the integers; which values overrun the printer's buffers; and the properties of the reader.
\<close>

section \<open>The printed text\<close>

fun unsigned :: "'d json \<Rightarrow> 'd json" where
  "unsigned (Integer n) = Integer \<bar>n\<bar>"
| "unsigned (Array xs) = Array (map unsigned xs)"
| "unsigned (Object ms) = Object (map (\<lambda>(name, x). (name, unsigned x)) ms)"
| "unsigned j = j"

fun printable :: "'d json \<Rightarrow> bool" where
  "printable (Integer n) = (\<bar>n\<bar> < 2 ^ 63)"
| "printable (Real d) = False"
| "printable (String s) = (CHR 0x00 \<notin> set s)"
| "printable (Array xs) = list_all printable xs"
| "printable (Object ms) = list_all (\<lambda>(name, x). CHR 0x00 \<notin> set name \<and> printable x) ms"
| "printable j = True"

definition ends_value :: "string \<Rightarrow> bool" where
  "ends_value rest = (rest = [] \<or> hd rest \<in> {CHR '','', CHR '']'', CHR ''}'', CHR 0x0A})"

lemma skip_space_simps [simp]:
  "skip_space [] = []" "skip_space (CHR 0x0A # s) = skip_space s" "skip_space (indent n @ s) = skip_space s"
  "char_code c > 32 \<Longrightarrow> skip_space (c # s) = c # s"
proof -
  show "skip_space (indent n @ s) = skip_space s"
    by (induction n) (simp_all add: indent_def skip_space_def char_code_def)
qed (simp_all add: skip_space_def char_code_def)

lemma ends_value_number: "ends_value rest \<Longrightarrow> ends_number rest"
  by (auto simp: ends_value_def ends_number_def is_digit_def less_eq_char_def)

lemma show_int_first:
  "\<exists>c cs. show_int n = c # cs \<and> (c = CHR ''-'' \<or> is_digit c)"
proof -
  obtain c cs where "show_nat (nat n) = c # cs" by (cases "show_nat (nat n)") simp_all
  moreover have "is_digit c" using is_digit_show_nat [of c "nat n"] calculation by simp
  ultimately show ?thesis by (auto simp: show_int_def)
qed

lemma in_buffer_Returns: "in_buffer len t = Returns out \<longleftrightarrow> length t + 1 \<le> len \<and> out = t"
  by (auto simp: in_buffer_def)

lemma in_asserted_buffer_Returns:
  "in_asserted_buffer cap len t = Returns out \<longleftrightarrow> length t + 1 \<le> cap \<and> length t + 1 \<le> len \<and> out = t"
  by (auto simp: in_asserted_buffer_def in_buffer_def assert_written_def)

lemma print_array_Returns:
  "print_array fmt es = Returns out \<Longrightarrow>
    out = (if es = [] then ''[]'' else CHR ''['' # compose_items fmt es @ '']'')"
  unfolding print_array_def by (cases "es = []") (simp_all only: in_buffer_Returns simp_thms if_True if_False)

lemma print_object_Returns:
  "print_object fmt depth ms = Returns out \<Longrightarrow>
    out = (if ms = [] then CHR ''{'' # (if fmt then CHR 0x0A # indent (depth - 1) else []) @ ''}''
      else CHR ''{'' # (if fmt then [CHR 0x0A] else []) @ compose_members fmt (depth + 1) ms
            @ (if fmt then indent depth else []) @ ''}'')"
  unfolding print_object_def by (cases "ms = []") (simp_all only: in_asserted_buffer_Returns simp_thms if_True if_False)

lemma first_codes: "char_code CHR ''n'' = 110" "char_code CHR ''t'' = 116" "char_code CHR ''f'' = 102"
  "char_code CHR ''-'' = 45" "char_code CHR ''['' = 91" "char_code CHR ''{'' = 123"
  by (simp_all add: char_code_def)

lemma print_value_first:
  assumes "print_value D fmt depth j = Returns out" and "printable j"
  shows "\<exists>c cs. out = c # cs \<and> char_code c > 32 \<and> char_code c \<noteq> 93"
proof (cases j)
  case Null
  then have "out = ''null''" using assms(1) by simp
  then show ?thesis by (simp add: first_codes)
next
  case (Boolean b)
  then have "out = (if b then ''true'' else ''false'')" using assms(1) by simp
  then show ?thesis by (simp add: first_codes)
next
  case (Integer n)
  then show ?thesis
    using assms(1) show_int_first [of n] by (auto simp: is_digit_code first_codes)
next
  case (Real d)
  then show ?thesis using assms by simp
next
  case (String s)
  then show ?thesis using assms(1) by (auto simp: print_string_total special_codes)
next
  case (Array xs)
  then obtain es where "print_array fmt es = Returns out"
    using assms by (auto simp: bind_outcome_Returns_iff)
  from print_array_Returns [OF this] obtain cs where "out = CHR ''['' # cs" by (cases "es = []") auto
  then show ?thesis by (simp add: first_codes)
next
  case (Object ms)
  then obtain es where "print_object fmt depth es = Returns out"
    using assms by (auto simp: bind_outcome_Returns_iff)
  from print_object_Returns [OF this] obtain cs where "out = CHR ''{'' # cs" by (cases "es = []") auto
  then show ?thesis by (simp add: first_codes)
qed

section \<open>Reading with enough fuel\<close>

definition reads :: "'d doubles \<Rightarrow> string \<Rightarrow> 'd json \<Rightarrow> string \<Rightarrow> bool" where
  "reads D s v rest \<longleftrightarrow> (\<exists>n. \<forall>k\<ge>n. parse_value D k s = Parsed v rest)"

definition reads_items :: "'d doubles \<Rightarrow> 'd json list \<Rightarrow> string \<Rightarrow> 'd json \<Rightarrow> string \<Rightarrow> bool" where
  "reads_items D xs s v rest \<longleftrightarrow> (\<exists>n. \<forall>k\<ge>n. parse_items D k xs s = Parsed v rest)"

definition reads_members :: "'d doubles \<Rightarrow> (string \<times> 'd json) list \<Rightarrow> string \<Rightarrow> 'd json \<Rightarrow> string \<Rightarrow> bool" where
  "reads_members D ms s v rest \<longleftrightarrow> (\<exists>n. \<forall>k\<ge>n. parse_members D k ms s = Parsed v rest)"

lemma all_from_Suc: "(\<And>k. k \<ge> n \<Longrightarrow> P (Suc k)) \<Longrightarrow> \<exists>n. \<forall>k\<ge>n. P k"
  by (rule exI [of _ "Suc n"]) (metis Suc_le_D Suc_le_mono)

lemma reads_direct: "(\<And>n. parse_value D (Suc n) s = Parsed v rest) \<Longrightarrow> reads D s v rest"
  unfolding reads_def by (rule all_from_Suc) blast

lemma reads_array:
  assumes "reads_items D [] s v rest" and "\<not> starts (CHR '']'') (skip_space s)"
  shows "reads D (CHR ''['' # s) v rest"
proof -
  obtain n where n: "\<forall>k\<ge>n. parse_items D k [] s = Parsed v rest" using assms(1) by (auto simp: reads_items_def)
  have i: "parse_items D k [] (skip_space s) = parse_items D k [] s" for k
    by (cases k) (simp_all add: skip_space_def)
  show ?thesis unfolding reads_def
    by (rule all_from_Suc [of n]) (simp add: parse_value_array assms(2) i n del: parse_value.simps)
qed

lemma reads_object:
  assumes "reads_members D [] s v rest" and "\<not> starts (CHR ''}'') (skip_space s)"
  shows "reads D (CHR ''{'' # s) v rest"
proof -
  obtain n where n: "\<forall>k\<ge>n. parse_members D k [] s = Parsed v rest" using assms(1) by (auto simp: reads_members_def)
  have i: "parse_members D k [] (skip_space s) = parse_members D k [] s" for k
    by (cases k) (simp_all add: skip_space_def)
  show ?thesis unfolding reads_def
    by (rule all_from_Suc [of n]) (simp add: parse_value_object assms(2) i n del: parse_value.simps)
qed

lemma reads_items_last:
  assumes "reads D (skip_space s) x r" and "skip_space r = CHR '']'' # rest"
  shows "reads_items D xs s (Array (xs @ [x])) rest"
proof -
  obtain n where "\<forall>k\<ge>n. parse_value D k (skip_space s) = Parsed x r" using assms(1) by (auto simp: reads_def)
  then show ?thesis unfolding reads_items_def
    by (intro all_from_Suc [of n]) (simp add: assms(2) del: parse_value.simps)
qed

lemma reads_items_more:
  assumes "reads D (skip_space s) x r" and "skip_space r = CHR '','' # t" and "reads_items D (xs @ [x]) t v rest"
  shows "reads_items D xs s v rest"
proof -
  obtain n where "\<forall>k\<ge>n. parse_value D k (skip_space s) = Parsed x r" using assms(1) by (auto simp: reads_def)
  moreover obtain m where "\<forall>k\<ge>m. parse_items D k (xs @ [x]) t = Parsed v rest"
    using assms(3) by (auto simp: reads_items_def)
  ultimately show ?thesis unfolding reads_items_def
    by (intro all_from_Suc [of "max n m"]) (simp add: assms(2) del: parse_value.simps)
qed

lemma reads_members_last:
  assumes "parse_string (skip_space s) = Parsed name u" and "skip_space u = CHR '':'' # w"
    and "reads D (skip_space w) x r" and "skip_space r = CHR ''}'' # rest"
  shows "reads_members D ms s (Object (ms @ [(name, x)])) rest"
proof -
  obtain n where "\<forall>k\<ge>n. parse_value D k (skip_space w) = Parsed x r" using assms(3) by (auto simp: reads_def)
  then show ?thesis unfolding reads_members_def
    by (intro all_from_Suc [of n]) (simp add: assms(1,2,4) del: parse_value.simps)
qed

lemma reads_members_more:
  assumes "parse_string (skip_space s) = Parsed name u" and "skip_space u = CHR '':'' # w"
    and "reads D (skip_space w) x r" and "skip_space r = CHR '','' # t"
    and "reads_members D (ms @ [(name, x)]) t v rest"
  shows "reads_members D ms s v rest"
proof -
  obtain n where "\<forall>k\<ge>n. parse_value D k (skip_space w) = Parsed x r" using assms(3) by (auto simp: reads_def)
  moreover obtain m where "\<forall>k\<ge>m. parse_members D k (ms @ [(name, x)]) t = Parsed v rest"
    using assms(5) by (auto simp: reads_members_def)
  ultimately show ?thesis unfolding reads_members_def
    by (intro all_from_Suc [of "max n m"]) (simp add: assms(1,2,4) del: parse_value.simps)
qed

lemma reads_items_space: "skip_space s = skip_space t \<Longrightarrow> reads_items D xs s v rest = reads_items D xs t v rest"
proof -
  assume s: "skip_space s = skip_space t"
  have "parse_items D k xs s = parse_items D k xs t" for k by (cases k) (simp_all add: s)
  then show ?thesis by (simp add: reads_items_def)
qed

lemma reads_members_space: "skip_space s = skip_space t \<Longrightarrow> reads_members D xs s v rest = reads_members D xs t v rest"
proof -
  assume s: "skip_space s = skip_space t"
  have "parse_members D k xs s = parse_members D k xs t" for k by (cases k) (simp_all add: s)
  then show ?thesis by (simp add: reads_members_def)
qed

lemma reads_scalar:
  "reads D (''null'' @ rest) Null rest"
  "reads D ((if b then ''true'' else ''false'') @ rest) (Boolean b) rest"
  "\<bar>n\<bar> < 2 ^ 63 \<Longrightarrow> ends_value rest \<Longrightarrow> reads D (show_int n @ rest) (Integer \<bar>n\<bar>) rest"
  "CHR 0x00 \<notin> set s \<Longrightarrow> print_string_ptr s = Returns out \<Longrightarrow> reads D (out @ rest) (String s) rest"
proof -
  show "reads D (''null'' @ rest) Null rest" "reads D ((if b then ''true'' else ''false'') @ rest) (Boolean b) rest"
    by (rule reads_direct, cases b; simp only: parse_value_literal if_True if_False)+
  assume n: "\<bar>n\<bar> < 2 ^ 63" "ends_value rest"
  have "starts_number (show_int n @ rest)" using show_int_first [of n] by (auto simp: starts_number_def)
  then show "reads D (show_int n @ rest) (Integer \<bar>n\<bar>) rest"
    using parse_number_shown [OF n(1) ends_value_number [OF n(2)], of D]
    by (intro reads_direct) (simp add: parse_value_number del: parse_value.simps)
next
  assume s: "CHR 0x00 \<notin> set s" "print_string_ptr s = Returns out"
  have "starts QUOTE (out @ rest)" using s(2) by (auto simp: print_string_total)
  then show "reads D (out @ rest) (String s) rest"
    using parse_string_printed [OF s, of rest] by (intro reads_direct) (simp only: parse_value_string map_parsed.simps)
qed
lemma starts_other: "starts c s \<Longrightarrow> c \<noteq> d \<Longrightarrow> \<not> starts d s"
  by (cases s) auto

lemma skip_printed:
  "print_value D fmt depth j = Returns out \<Longrightarrow> printable j \<Longrightarrow> skip_space (out @ rest) = out @ rest"
  "print_string_ptr s = Returns out \<Longrightarrow> skip_space (out @ rest) = out @ rest"
proof -
  assume "print_value D fmt depth j = Returns out" "printable j"
  then show "skip_space (out @ rest) = out @ rest" using print_value_first by fastforce
next
  assume "print_string_ptr s = Returns out"
  then show "skip_space (out @ rest) = out @ rest" by (auto simp: print_string_total special_codes)
qed

lemma separators [simp]:
  "skip_space (CHR '','' # s) = CHR '','' # s" "skip_space (CHR '']'' # s) = CHR '']'' # s"
  "skip_space (CHR ''}'' # s) = CHR ''}'' # s" "skip_space (CHR '':'' # s) = CHR '':'' # s"
  "ends_value (CHR '','' # s)" "ends_value (CHR '']'' # s)" "ends_value (CHR ''}'' # s)" "ends_value (CHR 0x0A # s)"
  "skip_space (CHR '' '' # s) = skip_space s"
  by (simp_all add: skip_space_def char_code_def ends_value_def)

lemma reads_printed:
  "print_value D fmt depth j = Returns out \<Longrightarrow> printable j \<Longrightarrow> ends_value rest \<Longrightarrow>
    reads D (out @ rest) (unsigned j) rest"
  "print_items D fmt depth xs = Returns es \<Longrightarrow> list_all printable xs \<Longrightarrow> xs \<noteq> [] \<Longrightarrow>
    reads_items D acc (compose_items fmt es @ CHR '']'' # rest) (Array (acc @ map unsigned xs)) rest"
  "print_members D fmt depth ms = Returns ps \<Longrightarrow>
    list_all (\<lambda>(name, x). CHR 0x00 \<notin> set name \<and> printable x) ms \<Longrightarrow> ms \<noteq> [] \<Longrightarrow>
    skip_space tail = CHR ''}'' # rest \<Longrightarrow> (\<not> fmt \<Longrightarrow> tail = CHR ''}'' # rest) \<Longrightarrow>
    reads_members D macc (compose_members fmt d ps @ tail) (Object (macc @ map (\<lambda>(name, x). (name, unsigned x)) ms)) rest"
proof (induction D fmt depth j and D fmt depth xs and D fmt depth ms
    arbitrary: out rest and es acc rest and ps macc d rest tail rule: print_value_print_items_print_members.induct)
  case (1 D fmt depth)
  then show ?case using reads_scalar(1) by fastforce
next
  case (2 D fmt depth b)
  then show ?case using reads_scalar(2) [of D b rest] by simp
next
  case (3 D fmt depth d)
  then show ?case by simp
next
  case (4 D fmt depth n)
  then show ?case using reads_scalar(3) [of n rest D] by auto
next
  case (5 D fmt depth s)
  then show ?case using reads_scalar(4) [of s out D rest] by simp
next
  case (6 D fmt depth xs)
  obtain es where es: "print_items D fmt (depth + 1) xs = Returns es" "print_array fmt es = Returns out"
    using 6(2) by (auto simp: bind_outcome_Returns_iff)
  show ?case
  proof (cases xs)
    case Nil
    then have "out = ''[]''" using es print_array_Returns by fastforce
    then show ?thesis using Nil by (intro reads_direct) (simp add: parse_value_array del: parse_value.simps)
  next
    case (Cons x xs')
    then obtain e es' where e: "es = e # es'" "print_value D fmt (depth + 1) x = Returns e"
      using es(1) by (auto simp: bind_outcome_Returns_iff)
    then have out: "out = CHR ''['' # compose_items fmt es @ '']''" using print_array_Returns [OF es(2)] by simp
    have r: "reads_items D [] (compose_items fmt es @ CHR '']'' # rest) (Array ([] @ map unsigned xs)) rest"
      using 6(3) Cons by (intro 6(1) [OF es(1)]) simp_all
    obtain c cs where c: "e = c # cs" "char_code c > 32" "char_code c \<noteq> 93"
      using print_value_first [OF e(2)] 6(3) Cons by auto
    moreover have "char_code CHR '']'' = 93" by (simp add: char_code_def)
    moreover have "\<exists>cs'. compose_items fmt es = c # cs'" using e(1) c(1) by (cases es') auto
    ultimately have "\<not> starts (CHR '']'') (skip_space (compose_items fmt es @ CHR '']'' # rest))" by auto
    then show ?thesis using reads_array [OF r] out by simp
  qed
next
  case (7 D fmt depth ms)
  obtain ps where ps: "print_members D fmt (depth + 1) ms = Returns ps" "print_object fmt depth ps = Returns out"
    using 7(2) by (auto simp: bind_outcome_Returns_iff)
  show ?case
  proof (cases "ms = []")
    case True
    then have "out = CHR ''{'' # (if fmt then CHR 0x0A # indent (depth - 1) else []) @ ''}''"
      using ps print_object_Returns by fastforce
    then show ?thesis using True by (intro reads_direct) (simp add: parse_value_object del: parse_value.simps)
  next
    case False
    then obtain nm x ms' where ms: "ms = (nm, x) # ms'" by (cases ms) auto
    then obtain n e ps' where n: "ps = (n, e) # ps'" "print_string_ptr nm = Returns n"
      using ps(1) by (auto simp: bind_outcome_Returns_iff)
    define tail where "tail = (if fmt then indent depth else []) @ CHR ''}'' # rest"
    have r: "reads_members D [] (compose_members fmt (depth + 1) ps @ tail)
        (Object ([] @ map (\<lambda>(name, x). (name, unsigned x)) ms)) rest"
      using 7(3) False by (intro 7(1) [OF ps(1)]) (simp_all add: tail_def)
    define u where "u = (if fmt then [CHR 0x0A] else []) @ compose_members fmt (depth + 1) ps @ tail"
    have out: "out @ rest = CHR ''{'' # u"
      using print_object_Returns [OF ps(2)] n(1) by (simp add: tail_def u_def)
    have sk: "skip_space u = skip_space (compose_members fmt (depth + 1) ps @ tail)" by (simp add: u_def)
    have "starts QUOTE (skip_space (compose_members fmt (depth + 1) ps @ tail))"
      using n by (auto simp: print_string_total special_codes)
    then have "\<not> starts (CHR ''}'') (skip_space u)"
      unfolding sk by (rule starts_other) (simp add: QUOTE_def)
    moreover have "reads_members D [] u (Object (map (\<lambda>(name, x). (name, unsigned x)) ms)) rest"
      using r unfolding reads_members_space [OF sk] by simp
    ultimately show ?thesis unfolding out by (simp add: reads_object)
  qed
next
  case (8 D fmt depth)
  then show ?case by simp
next
  case (9 D fmt depth x xs)
  obtain e es' where e: "es = e # es'" "print_value D fmt depth x = Returns e" "print_items D fmt depth xs = Returns es'"
    using 9(3) by (auto simp: bind_outcome_Returns_iff)
  have px: "printable x" "list_all printable xs" using 9(4) by simp_all
  show ?case
  proof (cases "xs = []")
    case True
    have "reads D (e @ CHR '']'' # rest) (unsigned x) (CHR '']'' # rest)"
      using px(1) by (intro 9(1) [OF e(2)]) simp_all
    then have "reads D (skip_space (e @ CHR '']'' # rest)) (unsigned x) (CHR '']'' # rest)"
      by (simp only: skip_printed(1) [OF e(2) px(1)])
    then have "reads_items D acc (e @ CHR '']'' # rest) (Array (acc @ [unsigned x])) rest"
      by (rule reads_items_last) (rule separators)
    then show ?thesis using True e by simp
  next
    case False
    define t where "t = (if fmt then '' '' else []) @ compose_items fmt es' @ CHR '']'' # rest"
    obtain f fs where "es' = f # fs" using e(3) False by (cases xs) (auto simp: bind_outcome_Returns_iff)
    then have s: "compose_items fmt es @ CHR '']'' # rest = e @ CHR '','' # t" by (simp add: e(1) t_def)
    have "reads D (e @ CHR '','' # t) (unsigned x) (CHR '','' # t)"
      using px(1) by (intro 9(1) [OF e(2)]) simp_all
    then have r: "reads D (skip_space (e @ CHR '','' # t)) (unsigned x) (CHR '','' # t)"
      by (simp only: skip_printed(1) [OF e(2) px(1)])
    have "reads_items D (acc @ [unsigned x]) t (Array ((acc @ [unsigned x]) @ map unsigned xs)) rest"
    proof -
      have "skip_space t = skip_space (compose_items fmt es' @ CHR '']'' # rest)" by (simp add: t_def)
      moreover have "reads_items D (acc @ [unsigned x]) (compose_items fmt es' @ CHR '']'' # rest)
          (Array ((acc @ [unsigned x]) @ map unsigned xs)) rest"
        using px(2) False by (intro 9(2) [OF e(3)])
      ultimately show ?thesis using reads_items_space by blast
    qed
    then have "reads_items D acc (e @ CHR '','' # t) (Array ((acc @ [unsigned x]) @ map unsigned xs)) rest"
      by (rule reads_items_more [OF r separators(1)])
    then show ?thesis unfolding s by simp
  qed
next
  case (10 D fmt depth)
  then show ?case by simp
next
  case (11 D fmt depth name x ms)
  obtain n e ps' where e: "ps = (n, e) # ps'" "print_string_ptr name = Returns n"
      "print_value D fmt depth x = Returns e" "print_members D fmt depth ms = Returns ps'"
    using 11(3) by (auto simp: bind_outcome_Returns_iff)
  have px: "CHR 0x00 \<notin> set name" "printable x"
      "list_all (\<lambda>(name, x). CHR 0x00 \<notin> set name \<and> printable x) ms" using 11(4) by simp_all
  define z where "z = (if ps' \<noteq> [] then '','' else []) @ (if fmt then [CHR 0x0A] else []) @ compose_members fmt d ps' @ tail"
  define w where "w = (if fmt then indent 1 else []) @ e @ z"
  have s: "compose_members fmt d ps @ tail = (if fmt then indent d else []) @ n @ CHR '':'' # w"
    by (simp add: e(1) w_def z_def)
  have n: "parse_string (skip_space (compose_members fmt d ps @ tail)) = Parsed name (CHR '':'' # w)"
    using parse_string_printed [OF px(1) e(2), of "CHR '':'' # w"] skip_printed(2) [OF e(2), of "CHR '':'' # w"]
    unfolding s by simp
  have w: "skip_space w = e @ z" using skip_printed(1) [OF e(3) px(2), of z] by (simp add: w_def)
  have z: "ends_value z" using 11(7) by (cases ps') (auto simp: z_def)
  have r: "reads D (skip_space w) (unsigned x) z"
    unfolding w using px(2) z by (intro 11(1) [OF e(3)])
  show ?case
  proof (cases "ms = []")
    case True
    then have "ps' = []" using e(4) by simp
    then have "skip_space z = CHR ''}'' # rest" using 11(6) by (simp add: z_def)
    then show ?thesis using True n r by (simp add: reads_members_last)
  next
    case False
    then have "ps' \<noteq> []" using e(4) by (cases ms) (auto simp: bind_outcome_Returns_iff)
    define t where "t = (if fmt then [CHR 0x0A] else []) @ compose_members fmt d ps' @ tail"
    have zt: "skip_space z = CHR '','' # t" using \<open>ps' \<noteq> []\<close> by (simp add: z_def t_def)
    have "skip_space t = skip_space (compose_members fmt d ps' @ tail)" by (simp add: t_def)
    moreover have "reads_members D (macc @ [(name, unsigned x)]) (compose_members fmt d ps' @ tail)
        (Object ((macc @ [(name, unsigned x)]) @ map (\<lambda>(name, x). (name, unsigned x)) ms)) rest"
      using px(3) False 11(6,7) by (intro 11(2) [OF e(4)])
    ultimately have "reads_members D (macc @ [(name, unsigned x)]) t
        (Object ((macc @ [(name, unsigned x)]) @ map (\<lambda>(name, x). (name, unsigned x)) ms)) rest"
      using reads_members_space by blast
    from reads_members_more [OF n _ r zt this] show ?thesis by simp
  qed
qed

section \<open>No NUL is printed\<close>

definition no_nul :: "string \<Rightarrow> bool" where
  "no_nul s = (CHR 0x00 \<notin> set s)"

lemma no_nul_simps [simp]:
  "no_nul []" "no_nul (c # s) = (c \<noteq> CHR 0x00 \<and> no_nul s)" "no_nul (s @ t) = (no_nul s \<and> no_nul t)"
  "no_nul (indent n)"
  by (auto simp: no_nul_def indent_def)

lemma c_string_no_nul: "no_nul s \<Longrightarrow> c_string s = s"
  by (auto simp: c_string_def no_nul_def takeWhile_eq_all_conv)

lemma no_nul_escape: "c \<noteq> CHR 0x00 \<Longrightarrow> no_nul (escape c)"
proof -
  assume c: "c \<noteq> CHR 0x00"
  have h: "hex_char n \<noteq> CHR 0x00" if "n < 16" for n
    using that char_code_eq [of "hex_char n" "CHR 0x00"] by (auto simp: hex_char_def) (auto simp: char_code_def)
  show ?thesis
  proof (cases c rule: escape_cases)
    case plain
    then show ?thesis using c by simp
  next
    case (simple d)
    then have "d \<noteq> CHR 0x00" using c by (auto simp: simple_escape_def)
    then show ?thesis using simple by (simp add: BACKSLASH_def)
  next
    case unicode
    then show ?thesis using h [of "char_code c div 16"] h [of "char_code c mod 16"] by (simp add: BACKSLASH_def)
  qed
qed

lemma no_nul_string: "CHR 0x00 \<notin> set s \<Longrightarrow> print_string_ptr s = Returns out \<Longrightarrow> no_nul out"
proof -
  assume s: "CHR 0x00 \<notin> set s" "print_string_ptr s = Returns out"
  have "no_nul (concat (map escape s))" using s(1) by (induction s) (auto simp: no_nul_escape)
  then show ?thesis using s(2) by (auto simp: print_string_total QUOTE_def)
qed

lemma no_nul_show_nat: "no_nul (show_nat n)"
  using is_digit_show_nat [of "CHR 0x00" n] by (auto simp: no_nul_def is_digit_def less_eq_char_def)

lemma no_nul_items: "list_all no_nul es \<Longrightarrow> no_nul (compose_items fmt es)"
  by (induction fmt es rule: compose_items.induct) simp_all

lemma no_nul_members: "list_all (\<lambda>(n, e). no_nul n \<and> no_nul e) ps \<Longrightarrow> no_nul (compose_members fmt d ps)"
  by (induction fmt d ps rule: compose_members.induct) simp_all

lemma no_nul_printed:
  "print_value D fmt depth j = Returns out \<Longrightarrow> printable j \<Longrightarrow> no_nul out"
  "print_items D fmt depth xs = Returns es \<Longrightarrow> list_all printable xs \<Longrightarrow> list_all no_nul es"
  "print_members D fmt depth ms = Returns ps \<Longrightarrow>
    list_all (\<lambda>(name, x). CHR 0x00 \<notin> set name \<and> printable x) ms \<Longrightarrow> list_all (\<lambda>(n, e). no_nul n \<and> no_nul e) ps"
proof (induction D fmt depth j and D fmt depth xs and D fmt depth ms
    arbitrary: out and es and ps rule: print_value_print_items_print_members.induct)
  case (4 D fmt depth n)
  then show ?case by (auto simp: show_int_def no_nul_show_nat)
next
  case (5 D fmt depth s)
  then show ?case using no_nul_string by simp
next
  case (6 D fmt depth xs)
  obtain es where es: "print_items D fmt (depth + 1) xs = Returns es" "print_array fmt es = Returns out"
    using 6(2) by (auto simp: bind_outcome_Returns_iff)
  have "no_nul (compose_items fmt es)" using 6(1) [OF es(1)] 6(3) no_nul_items by simp
  then show ?case using print_array_Returns [OF es(2)] by (cases "es = []") simp_all
next
  case (7 D fmt depth ms)
  obtain ps where ps: "print_members D fmt (depth + 1) ms = Returns ps" "print_object fmt depth ps = Returns out"
    using 7(2) by (auto simp: bind_outcome_Returns_iff)
  have "no_nul (compose_members fmt (depth + 1) ps)" using 7(1) [OF ps(1)] 7(3) no_nul_members by simp
  then show ?case using print_object_Returns [OF ps(2)] by (cases "ps = []"; cases fmt) simp_all
next
  case (9 D fmt depth x xs)
  then show ?case by (auto simp: bind_outcome_Returns_iff)
next
  case (11 D fmt depth name x ms)
  then show ?case using no_nul_string by (auto simp: bind_outcome_Returns_iff)
qed auto

section \<open>Which values fit the printer's buffers\<close>

fun fits :: "bool \<Rightarrow> nat \<Rightarrow> 'd json \<Rightarrow> bool" where
  "fits fmt depth (Array xs) = list_all (fits fmt (depth + 1)) xs"
| "fits fmt depth (Object ms) =
     (if ms = [] then \<not> fmt \<or> depth = 1 \<or> depth = 2 else list_all (\<lambda>(name, x). fits fmt (depth + 1) x) ms)"
| "fits fmt depth j = True"

lemma length_compose_items:
  "es \<noteq> [] \<Longrightarrow> length (compose_items fmt es) + 2 + 1 \<le> array_len fmt es"
  by (induction fmt es rule: compose_items.induct) (auto simp: array_len_def)

lemma length_compose_members:
  "length (compose_members fmt d ps) \<le>
     sum_list (map (\<lambda>(n, e). length e + length n + 2 + (if fmt then d * 2 + 2 + 1 else 0)) ps)"
  by (induction fmt d ps rule: compose_members.induct) (auto simp: indent_def)

lemma print_array_total: "\<exists>out. print_array fmt es = Returns out"
  using length_compose_items [of es fmt] by (auto simp: print_array_def in_buffer_Returns)

lemma print_object_total: "ps \<noteq> [] \<Longrightarrow> \<exists>out. print_object fmt depth ps = Returns out"
  using length_compose_members [of fmt "depth + 1" ps]
  by (auto simp: print_object_def in_asserted_buffer_Returns object_len_def indent_def)

lemma print_object_empty: "(\<exists>out. print_object fmt depth [] = Returns out) \<longleftrightarrow> \<not> fmt \<or> depth = 1 \<or> depth = 2"
  by (auto simp: print_object_def in_asserted_buffer_Returns indent_def)

lemma print_empty_root: "cJSON_Print D True (Object []) = Aborts"
  by (simp add: cJSON_Print_def print_object_def in_asserted_buffer_def in_buffer_def assert_written_def indent_def)

lemma print_iff_fits:
  "(\<exists>out. print_value D fmt depth j = Returns out) \<longleftrightarrow> fits fmt depth j"
  "(\<exists>es. print_items D fmt depth xs = Returns es) \<longleftrightarrow> list_all (fits fmt depth) xs"
  "(\<exists>ps. print_members D fmt depth ms = Returns ps) \<longleftrightarrow> list_all (\<lambda>(name, x). fits fmt depth x) ms"
proof (induction D fmt depth j and D fmt depth xs and D fmt depth ms
    rule: print_value_print_items_print_members.induct)
  case (5 D fmt depth s)
  then show ?case by (simp add: print_string_total)
next
  case (6 D fmt depth xs)
  then show ?case using print_array_total by (auto simp: bind_outcome_Returns_iff)
next
  case (7 D fmt depth ms)
  have ne: "print_members D fmt (depth + 1) ms = Returns ps \<Longrightarrow> ps = [] \<longleftrightarrow> ms = []" for ps
    by (cases ms) (auto simp: bind_outcome_Returns_iff)
  show ?case
  proof (cases "ms = []")
    case True
    then show ?thesis using print_object_empty [of fmt depth] by simp
  next
    case False
    then show ?thesis
      using 7 ne print_object_total by (simp add: bind_outcome_Returns_iff) metis
  qed
next
  case (9 D fmt depth x xs)
  then show ?case by (auto simp: bind_outcome_Returns_iff)
next
  case (11 D fmt depth name x ms)
  then show ?case by (auto simp: bind_outcome_Returns_iff print_string_total)
qed auto

text \<open>The printer aborts on the empty object at the root only, and throws nothing.\<close>

definition fails :: "'a outcome \<Rightarrow> bool" where
  "fails r = (r = Throws \<or> r = Aborts)"

lemma fails_simps [simp]: "\<not> fails (Returns x)" "\<not> fails OutOfBounds" "fails Aborts" "fails Throws"
  by (simp_all add: fails_def)

lemma fails_bind: "fails (bind_outcome m f) \<longleftrightarrow> fails m \<or> (\<exists>x. m = Returns x \<and> fails (f x))"
  by (cases m) simp_all

lemma fails_in_buffer [simp]: "\<not> fails (in_buffer len t)"
  by (simp add: in_buffer_def)

lemma fails_print_array [simp]: "\<not> fails (print_array fmt es)"
  by (simp add: print_array_def)

lemma fails_print_object: "fails (print_object fmt depth ps) \<Longrightarrow> fmt \<and> depth = 0 \<and> ps = []"
  using print_object_total [of ps fmt depth] print_object_empty [of fmt depth]
  by (cases "ps = []") (auto simp: print_object_def in_asserted_buffer_def fails_bind assert_written_def in_buffer_Returns indent_def split: if_splits)

lemma print_fails:
  "fails (print_value D fmt depth j) \<Longrightarrow> fmt \<and> depth = 0 \<and> j = Object []"
  "fails (print_items D fmt depth xs) \<Longrightarrow> depth = 0"
  "fails (print_members D fmt depth ms) \<Longrightarrow> depth = 0"
proof (induction D fmt depth j and D fmt depth xs and D fmt depth ms
    rule: print_value_print_items_print_members.induct)
  case (6 D fmt depth xs)
  then show ?case by (auto simp: fails_bind)
next
  case (7 D fmt depth ms)
  obtain ps where ps: "print_members D fmt (depth + 1) ms = Returns ps" "fails (print_object fmt depth ps)"
    using 7 by (auto simp: fails_bind)
  moreover have "ps = [] \<longleftrightarrow> ms = []" using ps(1) by (cases ms) (auto simp: bind_outcome_Returns_iff)
  ultimately show ?case using fails_print_object by auto
next
  case (9 D fmt depth x xs)
  then show ?case by (auto simp: fails_bind)
next
  case (11 D fmt depth name x ms)
  then show ?case by (auto simp: fails_bind print_string_ptr_def)
qed (simp_all add: print_string_ptr_def)

lemma fits_unformatted: "fits False depth j"
proof (induction "False" depth j rule: fits.induct)
qed (auto simp: list_all_iff)

lemma parse_printed:
  assumes "cJSON_Print D formatted j = Returns out" and "printable j"
  shows "cJSON_Parse D out = Parsed (unsigned j) []"
proof -
  have p: "print_value D formatted 0 j = Returns out" using assms(1) by (simp add: cJSON_Print_def)
  have "reads D (out @ []) (unsigned j) []"
    by (rule reads_printed(1) [OF p assms(2)]) (simp add: ends_value_def)
  then obtain n where "parse_value D n out = Parsed (unsigned j) []" by (auto simp: reads_def)
  then have "parse_value D (fuel_for out) out = Parsed (unsigned j) []" by (rule parse_value_own_fuel)
  moreover have "skip_space (c_string out) = out"
    using c_string_no_nul [OF no_nul_printed(1) [OF p assms(2)]] skip_printed(1) [OF p assms(2), of "[]"] by simp
  ultimately show ?thesis by (simp add: cJSON_Parse_def cJSON_ParseWithOpts_def)
qed

section \<open>Properties\<close>

text \<open>
  C7. What the printer writes, formatted or not, is read back by \<^verbatim>\<open>cJSON_Parse\<close> to its end: the same
  literals, strings with every escape, arrays and objects in their order, for values without reals
  and NUL characters whose integers fit in 63 bits. Only the sign of the integers is lost: the reader
  accepts a minus sign and stores the digits behind it.
\<close>

theorem json_roundtrip:
  assumes "cJSON_Print D formatted j = Returns out" and "printable j"
  shows "cJSON_Parse D out = Parsed (unsigned j) []"
  using assms by (rule parse_printed)

definition example_json :: "nat json" where
  "example_json = Object [(''id'', Integer 42), (''pos'', Array [Integer (-5), Null]), (''s'', String [QUOTE, CHR 0x07])]"

definition example_doubles :: "nat doubles" where
  "example_doubles = \<lparr>dbl_value = (\<lambda>s i f e. nat i), dbl_same = (=), dbl_in_int = (\<lambda>d. d < 2 ^ 31),
     dbl_to_int = int, dbl_integral = (\<lambda>d. True), dbl_extreme = (\<lambda>d. False), dbl_f0 = show_nat,
     dbl_e = show_nat, dbl_f = show_nat\<rparr>"

theorem json_roundtrip_witness:
  "\<exists>out. cJSON_Print example_doubles True example_json = Returns out \<and> cJSON_Parse example_doubles out =
     Parsed (Object [(''id'', Integer 42), (''pos'', Array [Integer 5, Null]), (''s'', String [QUOTE, CHR 0x07])]) []"
proof -
  have "fits True 0 example_json" by (simp add: example_json_def)
  then obtain out where out: "cJSON_Print example_doubles True example_json = Returns out"
    using print_iff_fits(1) [of example_doubles True 0 example_json] by (auto simp: cJSON_Print_def)
  have "printable example_json" by (simp add: example_json_def QUOTE_def)
  then show ?thesis using json_roundtrip [OF out] out by (simp add: example_json_def)
qed

text \<open>
  C20. Every call of the reader ends: with the fuel the model gives it, twice the length of the text and one, it
  never runs out, and any larger fuel gives the same. It ends by giving a value or refusing the text wherever each
  backslash of the text is followed by a character other than \<^verbatim>\<open>u\<close> (\<open>calm\<close>); on other texts it may also end by
  leaving its buffers.
\<close>

theorem parse_terminates:
  fixes D :: "'d doubles"
  shows "((\<exists>j rest. cJSON_ParseWithOpts D terminated s = Parsed j rest) \<or> (\<exists>ep. cJSON_ParseWithOpts D terminated s = Failed ep)
      \<or> cJSON_ParseWithOpts D terminated s = Overrun)
    \<and> (calm (c_string s) \<longrightarrow> cJSON_ParseWithOpts D terminated s \<noteq> Overrun)
    \<and> parse_value D (fuel_for s + k) s = parse_value D (fuel_for s) s"
proof -
  have "parse_value D (fuel_for (skip_space (c_string s))) (skip_space (c_string s)) \<noteq> Stuck"
    by (rule fuel_for_enough)
  then have "cJSON_ParseWithOpts D terminated s \<noteq> Stuck"
    by (auto simp: cJSON_ParseWithOpts_def and_then_Stuck Let_def split: if_splits)
  then have "(\<exists>j rest. cJSON_ParseWithOpts D terminated s = Parsed j rest) \<or> (\<exists>ep. cJSON_ParseWithOpts D terminated s = Failed ep)
      \<or> cJSON_ParseWithOpts D terminated s = Overrun"
    by (cases "cJSON_ParseWithOpts D terminated s") simp_all
  then show ?thesis using stays_ParseWithOpts parse_value_stable [OF fuel_for_enough] by blast
qed

theorem parse_terminates_witness:
  "cJSON_ParseWithOpts example_doubles True [QUOTE, BACKSLASH, CHR ''n''] \<noteq> Overrun"
proof -
  have "calm (c_string [QUOTE, BACKSLASH, CHR ''n''])" by (simp add: c_string_def QUOTE_def BACKSLASH_def)
  then show ?thesis using parse_terminates [of example_doubles True "[QUOTE, BACKSLASH, CHR ''n'']"] by blast
qed

text \<open>
  C23. The unformatted printer returns for every value. The formatted one returns for exactly the values that
  have no empty object at their root and none more than two levels down (\<open>fits True 0\<close>). On the empty object at
  the root it aborts: it writes 4 bytes and then asserts that they are at most 3. On every other value that does
  not fit it writes behind its buffer: an empty object gets its depth and four bytes, and is indented by two
  characters a level.
\<close>

theorem print_memory_safety:
  "(\<exists>out. cJSON_PrintUnformatted D j = Returns out)
    \<and> ((\<exists>out. cJSON_Print D True j = Returns out) \<longleftrightarrow> fits True 0 j)
    \<and> (cJSON_Print D True j = Aborts \<longleftrightarrow> j = Object [])
    \<and> (cJSON_Print D True j = OutOfBounds \<longleftrightarrow> \<not> fits True 0 j \<and> j \<noteq> Object [])
    \<and> \<not> fits True 0 (Object [(''a'', Array [Object [(''b'', Object [] :: 'd json)]])])"
proof -
  have root: "cJSON_Print D True j = Aborts" if "j = Object []" using that print_empty_root by simp
  have other: "\<not> fails (cJSON_Print D True j)" if "j \<noteq> Object []" using that print_fails(1) by (auto simp: cJSON_Print_def)
  have "cJSON_Print D True j = Aborts \<longleftrightarrow> j = Object []" using root other by (auto simp: fails_def)
  moreover have "cJSON_Print D True j = OutOfBounds \<longleftrightarrow> \<not> fits True 0 j \<and> j \<noteq> Object []"
    using root other print_iff_fits(1) [of D True 0 j] unfolding cJSON_Print_def [symmetric]
    by (cases "cJSON_Print D True j") (auto simp: fails_def)
  ultimately show ?thesis
    using print_iff_fits(1) [of D False 0 j] print_iff_fits(1) [of D True 0 j] fits_unformatted [of 0 j]
    by (simp add: cJSON_PrintUnformatted_def cJSON_Print_def)
qed

text \<open>
  A quoted text that starts with the escape \<^verbatim>\<open>u\<close> and a quote makes the reader write behind its
  buffer: the first pass ends at that quote and allocates two bytes, the second skips it with the four
  characters of the escape and copies what follows, as much as there is.
\<close>

theorem escaped_quote_overflow:
  assumes "5 \<le> length content" and "list_all (\<lambda>c. c \<noteq> QUOTE \<and> c \<noteq> BACKSLASH) content"
  shows "parse_string (QUOTE # BACKSLASH # CHR ''u'' # QUOTE # content) = Overrun"
proof -
  have q: "BACKSLASH \<noteq> QUOTE" "CHR ''u'' \<noteq> QUOTE" by (simp_all add: QUOTE_def BACKSLASH_def)
  have plain: "list_all (\<lambda>c. c \<noteq> QUOTE \<and> c \<noteq> BACKSLASH) s \<Longrightarrow> unescape s = Some (s, [])" for s
    by (induction s) (simp_all add: unescape.simps)
  have four: "(4::nat) = Suc (Suc (Suc (Suc 0)))" by simp
  have "hex_value QUOTE = None" by (simp add: hex_value_def QUOTE_def less_eq_char_def)
  then have "parse_hex4 (QUOTE # content) = 0" unfolding parse_hex4_def four by simp
  then have "unicode_escape (QUOTE # content) = Some ([], drop 3 content)"
  proof -
    have "drop 4 (QUOTE # content) = drop 3 content" using drop_Suc_Cons [of 3 QUOTE content] by simp
    then show ?thesis using \<open>parse_hex4 (QUOTE # content) = 0\<close> assms(1) by (simp add: unicode_escape_def)
  qed
  moreover have "list_all (\<lambda>c. c \<noteq> QUOTE \<and> c \<noteq> BACKSLASH) (drop 3 content)"
    using assms(2) by (auto simp: list_all_iff dest: in_set_dropD)
  ultimately have "unescape (BACKSLASH # CHR ''u'' # QUOTE # content) = Some (drop 3 content, [])"
    using q plain by (subst unescape.simps) simp
  moreover have "string_len (BACKSLASH # CHR ''u'' # QUOTE # content) = Some 1" using q by simp
  ultimately show ?thesis using assms(1) by (simp add: parse_string_def)
qed

theorem escaped_quote_overflow_witness:
  "parse_string (QUOTE # BACKSLASH # CHR ''u'' # QUOTE # ''abcdefgh'') = Overrun"
proof -
  have "list_all (\<lambda>c. c \<noteq> QUOTE \<and> c \<noteq> BACKSLASH) ''abcdefgh''" by (simp add: QUOTE_def BACKSLASH_def)
  then show ?thesis using escaped_quote_overflow [of "''abcdefgh''"] by simp
qed

end
