(* ===== verification/RequestHandler.thy ===== *)
theory RequestHandler
  imports GameService CryptoWrapper HttpReply JsonRoundtrip
begin

text \<open>
  The entry of the service, \<^verbatim>\<open>request_handler::handle_request\<close> of \<^verbatim>\<open>refs/httpserver/request_handler.cpp\<close>:
  the path is decoded, the content decrypted and parsed, the handler called, its response printed,
  padded and encrypted; and the payment notification with its argument parser.
\<close>

section \<open>Payment notifications\<close>

datatype args_state = Param_start | Param_name | Param_value

text \<open>
  \<open>parse_args\<close>, one character at a time; \<open>None\<close> is the result false. The first state falls through to
  the second. The value of the last parameter is stored as it stands.
\<close>

fun parse_args_loop :: "args_state \<Rightarrow> string \<Rightarrow> string \<Rightarrow> (string \<rightharpoonup> string) \<Rightarrow> string \<Rightarrow> (string \<rightharpoonup> string) option outcome" where
  "parse_args_loop state name val args [] =
     Returns (Some (if name \<noteq> [] \<and> val \<noteq> [] then args(name \<mapsto> val) else args))"
| "parse_args_loop state name val args (c # cs) =
     (if state = Param_value then
        if c = CHR ''='' then Returns None
        else if c = CHR ''&'' then
          bind_outcome (urldecode val) (\<lambda>v. parse_args_loop Param_name [] [] (args(name \<mapsto> v)) cs)
        else parse_args_loop Param_value name (val @ [c]) args cs
      else if state = Param_start \<and> (c = CHR ''='' \<or> c = CHR ''&'') then Returns None
      else if c = CHR ''='' then parse_args_loop Param_value name val args cs
      else if c = CHR ''&'' then Returns None
      else parse_args_loop Param_name (name @ [c]) val args cs)"

definition parse_args :: "string \<Rightarrow> (string \<rightharpoonup> string) option outcome" where
  "parse_args inp = parse_args_loop Param_start [] [] Map.empty inp"

definition content_headers :: "string \<Rightarrow> string \<Rightarrow> header list" where
  "content_headers content ty =
     [\<lparr>hd_name = ''Content-Length'', hd_value = show_nat (length content)\<rparr>,
      \<lparr>hd_name = ''Content-Type'', hd_value = ty\<rparr>]"

definition handle_url_notify :: "string \<Rightarrow> reply \<Rightarrow> reply outcome" where
  "handle_url_notify raw_args rep =
     bind_outcome (parse_args raw_args) (\<lambda>r.
       let content = (if r = None then ''fail'' else ''success'')
       in Returns (rep\<lparr>rep_content := content, rep_headers := content_headers content ''application/html''\<rparr>))"

section \<open>Requests\<close>

definition json_quoted :: "string \<Rightarrow> string" where
  "json_quoted s = QUOTE # s @ [QUOTE]"

definition illegal_request :: string where
  "illegal_request = ''{ '' @ json_quoted ''ret'' @ '':-2,'' @ json_quoted ''params'' @ '':{'' @ json_quoted ''message''
     @ '':'' @ json_quoted ''request illegal!'' @ ''}''"

text \<open>
  The plain content: decrypted when its length is a positive multiple of the block size, empty
  otherwise.
\<close>

definition plain_content :: "(string \<Rightarrow> string) \<Rightarrow> string \<Rightarrow> string outcome" where
  "plain_content aes_dec content =
     (if length content > 0 \<and> length content mod 16 = 0
      then bind_outcome (aes_cbc_decrypt aes_dec content 0) (\<lambda>(out, len). Returns (take len out))
      else Returns [])"

definition sealed_reply :: "(string \<Rightarrow> string) \<Rightarrow> string \<Rightarrow> reply \<Rightarrow> reply outcome" where
  "sealed_reply aes_enc text rep =
     bind_outcome (aes_cbc_encrypt aes_enc (pkcs text)) (\<lambda>content.
     Returns (rep\<lparr>rep_content := content, rep_headers := content_headers content ''application/json''\<rparr>))"

definition handle_request :: "(string \<Rightarrow> string) \<Rightarrow> (string \<Rightarrow> string) \<Rightarrow> ('w, 'd) services \<Rightarrow> request \<Rightarrow> reply
    \<Rightarrow> 'w client \<Rightarrow> reply outcome \<times> 'w client" where
  "handle_request aes_enc aes_dec S req rep c =
     (case url_decode (req_uri req) of
        None \<Rightarrow> (Returns (stock_reply Bad_request), c)
      | Some request_path \<Rightarrow>
          if request_path = ''/notify_url.api'' then (handle_url_notify (req_content req) rep, c)
          else
            case bind_outcome (plain_content aes_dec (req_content req)) (parseString (doubles_of S)) of
              Returns request \<Rightarrow>
                (case find_handler (getInt (doubles_of S) request ''request_type'' 0) of
                   Some ty \<Rightarrow>
                     (case handler ty S request None c of
                        (Returns response, c') \<Rightarrow>
                          (bind_outcome (toString (doubles_of S) response) (\<lambda>text.
                             sealed_reply aes_enc text (rep\<lparr>rep_status := Ok\<rparr>)), c')
                      | (_, c') \<Rightarrow> (OutOfBounds, c'))
                 | None \<Rightarrow> (Returns (rep\<lparr>rep_status := Ok, rep_content := illegal_request\<rparr>), c))
            | _ \<Rightarrow> (OutOfBounds, c))"

section \<open>Arguments read back\<close>

definition plain_text :: "string \<Rightarrow> bool" where
  "plain_text s = (CHR ''='' \<notin> set s \<and> CHR ''&'' \<notin> set s)"

lemma hex2uchr_plain: "n < 16 \<Longrightarrow> hex2uchr n \<noteq> CHR ''='' \<and> hex2uchr n \<noteq> CHR ''&''"
  by (auto simp: hex2uchr_def char_code_eq [of _ "CHR ''=''"] char_code_eq [of _ "CHR ''&''"] char_code_def split: if_splits)

lemma plain_urlencode: "plain_text (urlencode s)"
proof -
  have "plain_text (encode_uchr c)" for c
    using hex2uchr_plain [of "char_code c div 16"] hex2uchr_plain [of "char_code c mod 16"] char_code_less [of c]
    by (auto simp: plain_text_def encode_uchr_def is_alnum_def is_digit_def less_eq_char_def less_mult_imp_div_less)
  then show ?thesis by (auto simp: plain_text_def urlencode_def)
qed

lemma parse_args_name:
  "plain_text n \<Longrightarrow> parse_args_loop Param_name name val args (n @ rest) = parse_args_loop Param_name (name @ n) val args rest"
  by (induction n arbitrary: name) (auto simp: plain_text_def)

lemma parse_args_start:
  "plain_text n \<Longrightarrow> n \<noteq> [] \<Longrightarrow> parse_args_loop Param_start [] [] args (n @ rest) = parse_args_loop Param_name n [] args rest"
  using parse_args_name [of "tl n" "[hd n]" "[]" args rest] by (cases n) (auto simp: plain_text_def)

lemma parse_args_value:
  "plain_text v \<Longrightarrow> parse_args_loop Param_value name val args (v @ rest) = parse_args_loop Param_value name (val @ v) args rest"
  by (induction v arbitrary: val) (auto simp: plain_text_def)

definition print_arg :: "string \<times> string \<Rightarrow> string" where
  "print_arg p = fst p @ ''='' @ urlencode (snd p)"

lemma parse_args_printed:
  "\<forall>p \<in> set ps. plain_text (fst p) \<Longrightarrow> plain_text n \<Longrightarrow> n \<noteq> [] \<Longrightarrow> v \<noteq> [] \<Longrightarrow>
    parse_args_loop Param_name [] [] args (concat (map (\<lambda>p. print_arg p @ ''&'') ps) @ print_arg (n, v))
      = Returns (Some ((args ++ map_of (rev ps))(n \<mapsto> urlencode v)))"
proof (induction ps arbitrary: args)
  case Nil
  have "urlencode v \<noteq> []" using Nil.prems(4) by (cases v) (auto simp: urlencode_def encode_uchr_def)
  then show ?case using Nil.prems
    by (simp add: print_arg_def parse_args_name parse_args_value [OF plain_urlencode, where rest = "[]", simplified])
      (simp add: fun_upd_def)
next
  case (Cons p ps)
  then show ?case
    by (simp add: print_arg_def parse_args_name parse_args_value [OF plain_urlencode] urlencode_decoded)
qed


lemma parse_args_start_name:
  "plain_text n \<Longrightarrow> n \<noteq> [] \<Longrightarrow> parse_args (n @ rest) = parse_args_loop Param_name [] [] Map.empty (n @ rest)"
  by (simp add: parse_args_def parse_args_start parse_args_name)

section \<open>A sealed request\<close>

lemma sealed_reply_opens:
  assumes "\<forall>b. length b = 16 \<longrightarrow> length (enc b) = 16 \<and> dec (enc b) = b"
  shows "\<exists>body. sealed_reply enc msg rep =
      Returns (rep\<lparr>rep_content := body, rep_headers := content_headers body ''application/json''\<rparr>)
    \<and> plain_content dec body = Returns msg \<and> length body = length (pkcs msg)"
proof -
  obtain out where "aes_cbc_encrypt enc (pkcs msg) = Returns out" "out \<noteq> []" "length out mod 16 = 0"
    "length out = length (pkcs msg)" "aes_cbc_decrypt dec out 0 = Returns (pkcs msg, length msg)"
    using aes_roundtrip [OF assms, of msg] by (elim exE conjE)
  then show ?thesis by (auto simp: sealed_reply_def plain_content_def)
qed

text \<open>
  A request that a client prints, pads and encrypts is dispatched to its handler, and the reply is the
  encryption of the printed response.
\<close>

lemma request_is_served:
  assumes cipher: "\<forall>b. length b = 16 \<longrightarrow> length (enc b) = 16 \<and> dec (enc b) = b"
    and path: "url_decode (req_uri req) = Some path" "path \<noteq> ''/notify_url.api''"
    and sent_text: "cJSON_Print (doubles_of S) False j = Returns msg" "printable j"
    and content: "aes_cbc_encrypt enc (pkcs msg) = Returns (req_content req)"
    and target: "find_handler (getInt (doubles_of S) (Some (unsigned j)) ''request_type'' 0) = Some ty"
    and handled: "handler ty S (Some (unsigned j)) None c = (Returns resp, c')" "toString (doubles_of S) resp = Returns answer"
  shows "\<exists>body. handle_request enc dec S req rep c =
      (Returns (rep\<lparr>rep_status := Ok, rep_content := body, rep_headers := content_headers body ''application/json''\<rparr>), c')
    \<and> plain_content dec body = Returns answer \<and> length body = length (pkcs answer)"
proof -
  obtain out where out: "aes_cbc_encrypt enc (pkcs msg) = Returns out" "out \<noteq> []" "length out mod 16 = 0"
    "aes_cbc_decrypt dec out 0 = Returns (pkcs msg, length msg)"
    using aes_roundtrip [OF cipher, of msg] by (elim exE conjE)
  then have "plain_content dec (req_content req) = Returns msg" using content by (simp add: plain_content_def)
  moreover have "parseString (doubles_of S) msg = Returns (Some (unsigned j))"
    using parse_printed [OF sent_text] by (simp add: parseString_def)
  ultimately have p: "bind_outcome (plain_content dec (req_content req)) (parseString (doubles_of S)) = Returns (Some (unsigned j))"
    by simp
  obtain body where body: "sealed_reply enc answer (rep\<lparr>rep_status := Ok\<rparr>) =
      Returns (rep\<lparr>rep_status := Ok, rep_content := body, rep_headers := content_headers body ''application/json''\<rparr>)"
    "plain_content dec body = Returns answer" "length body = length (pkcs answer)"
    using sealed_reply_opens [OF cipher, of answer "rep\<lparr>rep_status := Ok\<rparr>"] by (elim exE conjE)
  have "handle_request enc dec S req rep c = (sealed_reply enc answer (rep\<lparr>rep_status := Ok\<rparr>), c')"
    unfolding handle_request_def path(1) option.case if_not_P [OF path(2)] p outcome.case target handled prod.case
    by (simp add: handled(2))
  then show ?thesis using body by auto
qed

section \<open>Properties\<close>

text \<open>
  The arguments of a payment notification: names free of the separators with values percent-encoded by
  \<^verbatim>\<open>urlencode\<close> are all found again, the last binding of a name winning. Every value is decoded except
  that of the last parameter, which is handed over still encoded.
\<close>

theorem notify_args:
  assumes "\<forall>p \<in> set ps. plain_text (fst p) \<and> fst p \<noteq> []" "plain_text n" "n \<noteq> []" "v \<noteq> []"
  shows "parse_args (concat (map (\<lambda>p. print_arg p @ ''&'') ps) @ print_arg (n, v))
    = Returns (Some ((map_of (rev ps))(n \<mapsto> urlencode v)))"
proof -
  let ?s = "concat (map (\<lambda>p. print_arg p @ ''&'') ps) @ print_arg (n, v)"
  have "parse_args ?s = parse_args_loop Param_name [] [] Map.empty ?s"
    using assms parse_args_start_name by (cases ps) (simp_all add: print_arg_def)
  then show ?thesis using parse_args_printed [of ps n v Map.empty] assms by simp
qed

lemma notify_args_witness:
  "parse_args (concat (map (\<lambda>p. print_arg p @ ''&'') [(''out_trade_no'', ''a=b'')]) @ print_arg (''sign'', ''+''))
    = Returns (Some ([''out_trade_no'' \<mapsto> ''a=b'', ''sign'' \<mapsto> ''%2B'']))"
proof -
  have "urlencode ''+'' = ''%2B''" by code_simp
  then show ?thesis
    using notify_args [of "[(''out_trade_no'', ''a=b'')]" "''sign''" "''+''"] by (simp add: plain_text_def)
qed

end
