(* ===== verification/HttpConnection.thy ===== *)
theory HttpConnection
  imports HttpReply
begin

text \<open>
  Connections of the HTTP server, \<^verbatim>\<open>refs/httpserver/connection.cpp\<close>, and their manager,
  \<^verbatim>\<open>connection_manager.cpp\<close>. The asynchronous operation a connection waits for is its state; the
  completion handlers are its steps. The request handler (\<^verbatim>\<open>request_handler.cpp\<close>) is an argument
  \<open>h\<close>; \<open>handled\<close> records the requests it was given. A character array of 2048 bytes receives the
  data, so a completion carries at most that many.
\<close>

section \<open>Connections\<close>

datatype conn_state = Reading_head | Reading_content | Writing | Closed

record connection =
  conn_state :: conn_state
  conn_parser :: parse_state
  conn_request :: request
  conn_reply :: "reply option"
  total_bytes_received :: nat
  timestamp :: int
  handled :: "request list"
  written :: "string list"

definition max_http_package_size :: nat where
  "max_http_package_size = 16384"

definition read_buffer_size :: nat where
  "read_buffer_size = 2048"

text \<open>The constructor followed by \<^verbatim>\<open>start\<close> on a live socket at time \<open>now\<close>.\<close>

definition connection_start :: "int \<Rightarrow> connection" where
  "connection_start now = \<lparr>conn_state = Reading_head, conn_parser = Method_start,
     conn_request = request_init, conn_reply = None, total_bytes_received = 0, timestamp = now,
     handled = [], written = []\<rparr>"

definition do_write :: "reply \<Rightarrow> connection \<Rightarrow> connection" where
  "do_write rep c = c\<lparr>conn_reply := Some rep, conn_state := Writing, written := written c @ [to_buffers rep]\<rparr>"

definition handle_request :: "(request \<Rightarrow> reply) \<Rightarrow> connection \<Rightarrow> connection" where
  "handle_request h c =
     do_write (h (conn_request c)) (c\<lparr>handled := handled c @ [conn_request c]\<rparr>)"

definition do_check :: "(request \<Rightarrow> reply) \<Rightarrow> connection \<Rightarrow> connection" where
  "do_check h c =
     (let sz = length (req_content (conn_request c))
      in if sz = req_content_length (conn_request c) then handle_request h c
         else if sz < req_content_length (conn_request c) then c\<lparr>conn_state := Reading_content\<rparr>
         else do_write (stock_reply Bad_request) c)"

definition append_content :: "string \<Rightarrow> request \<Rightarrow> request" where
  "append_content d r = r\<lparr>req_content := req_content r @ d\<rparr>"

definition on_head_data :: "(request \<Rightarrow> reply) \<Rightarrow> int \<Rightarrow> string \<Rightarrow> connection \<Rightarrow> connection" where
  "on_head_data h now d c =
     (let c1 = c\<lparr>timestamp := now, total_bytes_received := total_bytes_received c + length d\<rparr>
      in if total_bytes_received c1 > max_http_package_size
         then do_write (stock_reply Bad_request) c1
         else
           let (result, p, r, _) = parse (conn_parser c1) (conn_request c1) d;
               c2 = c1\<lparr>conn_parser := p, conn_request := r\<rparr>
           in case result of
                Good \<Rightarrow>
                  if stricmp_eq (req_method r) ''POST'' then
                    let content_bytes = total_bytes_received c2 - req_header_length r;
                        c3 = (if content_bytes > 0
                              then c2\<lparr>conn_request := append_content
                                (take content_bytes (drop (length d - content_bytes) d)) r\<rparr>
                              else c2)
                    in do_check h c3
                  else if stricmp_eq (req_method r) ''GET'' then handle_request h c2
                  else do_write (stock_reply Bad_request) c2
              | Bad \<Rightarrow> do_write (stock_reply Bad_request) c2
              | Indeterminate \<Rightarrow> c2)"

definition on_content_data :: "(request \<Rightarrow> reply) \<Rightarrow> int \<Rightarrow> string \<Rightarrow> connection \<Rightarrow> connection" where
  "on_content_data h now d c =
     (let c1 = c\<lparr>timestamp := now, total_bytes_received := total_bytes_received c + length d\<rparr>
      in if total_bytes_received c1 > max_http_package_size
         then do_write (stock_reply Bad_request) c1
         else do_check h (c1\<lparr>conn_request := append_content d (conn_request c1)\<rparr>))"

text \<open>Data, a read error or a cancelled read, the completion of the write.\<close>

datatype conn_event = Data int string | Read_error | Written

fun conn_step :: "(request \<Rightarrow> reply) \<Rightarrow> conn_event \<Rightarrow> connection \<Rightarrow> connection" where
  "conn_step h (Data now d) c =
     (case conn_state c of
        Reading_head \<Rightarrow> on_head_data h now d c
      | Reading_content \<Rightarrow> on_content_data h now d c
      | Writing \<Rightarrow> c
      | Closed \<Rightarrow> c)"
| "conn_step h Read_error c =
     (case conn_state c of
        Reading_head \<Rightarrow> c\<lparr>conn_state := Closed\<rparr>
      | Reading_content \<Rightarrow> c\<lparr>conn_state := Closed\<rparr>
      | Writing \<Rightarrow> c
      | Closed \<Rightarrow> c)"
| "conn_step h Written c = (if conn_state c = Writing then c\<lparr>conn_state := Closed\<rparr> else c)"

fun conn_run :: "(request \<Rightarrow> reply) \<Rightarrow> conn_event list \<Rightarrow> connection \<Rightarrow> connection" where
  "conn_run h [] c = c"
| "conn_run h (e # es) c = conn_run h es (conn_step h e c)"

definition is_timeout :: "int \<Rightarrow> connection \<Rightarrow> bool" where
  "is_timeout now c = (now - timestamp c \<ge> 10)"

section \<open>The manager\<close>

text \<open>Connections are pointers; the manager's set and, of every connection, whether its socket is open.\<close>

record manager =
  connections :: "nat set"
  socket_open :: "nat \<Rightarrow> bool"

definition connection_stop :: "nat \<Rightarrow> manager \<Rightarrow> manager" where
  "connection_stop c m = (if socket_open m c then m\<lparr>socket_open := (socket_open m)(c := False)\<rparr> else m)"

definition stop_locked :: "nat \<Rightarrow> manager \<Rightarrow> manager" where
  "stop_locked c m =
     (if c \<in> connections m then connection_stop c (m\<lparr>connections := connections m - {c}\<rparr>) else m)"

text \<open>\<open>alive\<close>: \<^verbatim>\<open>remote_endpoint\<close> of the accepted socket succeeds.\<close>

definition manager_start :: "bool \<Rightarrow> nat \<Rightarrow> manager \<Rightarrow> manager" where
  "manager_start alive c m =
     (let m1 = m\<lparr>connections := insert c (connections m)\<rparr>
      in if alive then m1 else stop_locked c m1)"

definition manager_stop :: "nat \<Rightarrow> manager \<Rightarrow> manager" where
  "manager_stop c m = stop_locked c m"

definition stop_all :: "manager \<Rightarrow> manager" where
  "stop_all m = m\<lparr>socket_open := (\<lambda>c. socket_open m c \<and> c \<notin> connections m), connections := {}\<rparr>"

section \<open>Reassembly\<close>

lemma consume_header_length: "consume p r c = (res, p', r') \<Longrightarrow> req_header_length r' = req_header_length r \<and> req_content r' = req_content r"
  by (cases p) (auto simp: push_name_def push_value_def note_content_length_def split: if_splits)

lemma parse_header_length:
  "parse p r xs = (res, p', r', rest) \<Longrightarrow> length rest \<le> length xs
    \<and> req_header_length r' + length rest = req_header_length r + length xs
    \<and> req_content r' = req_content r \<and> (\<exists>ys. xs = ys @ rest)"
proof (induction p r xs rule: parse.induct)
  case (1 p r)
  then show ?case by simp
next
  case (2 p r c cs)
  obtain res1 p1 r1 where c: "consume p (r\<lparr>req_header_length := req_header_length r + 1\<rparr>) c = (res1, p1, r1)"
    by (cases "consume p (r\<lparr>req_header_length := req_header_length r + 1\<rparr>) c") auto
  note len = consume_header_length [OF c]
  show ?case
  proof (cases "res1 = Good \<or> res1 = Bad")
    case True
    then show ?thesis using 2 c len by (auto intro: exI [of _ "[c]"])
  next
    case False
    then have "parse p1 r1 cs = (res, p', r', rest)" using 2 c by (simp add: Let_def)
    with 2(1) [OF refl refl c [symmetric] refl False] len
    show ?thesis by simp (metis append_Cons)
  qed
qed

abbreviation pieces :: "(int \<times> string) list \<Rightarrow> conn_event list" where
  "pieces ds \<equiv> map (\<lambda>(t, d). Data t d) ds"

definition answered :: "(request \<Rightarrow> reply) \<Rightarrow> request \<Rightarrow> connection \<Rightarrow> connection \<Rightarrow> bool" where
  "answered h q c c' \<longleftrightarrow> conn_state c' = Writing \<and> handled c' = handled c @ [q]
     \<and> conn_reply c' = Some (h q) \<and> written c' = written c @ [to_buffers (h q)]"

lemma handle_request_answered:
  "conn_request c1 = q \<Longrightarrow> handled c1 = handled c \<Longrightarrow> written c1 = written c \<Longrightarrow>
    answered h q c (handle_request h c1)"
  by (simp add: answered_def handle_request_def do_write_def)

lemma do_check_more:
  "length (req_content (conn_request c)) < req_content_length (conn_request c) \<Longrightarrow>
    do_check h c = c\<lparr>conn_state := Reading_content\<rparr>"
  by (simp add: do_check_def)

lemma pieces_nonempty: "\<forall>(t, d) \<in> set ds. d \<noteq> [] \<Longrightarrow> ds \<noteq> [] \<Longrightarrow> concat (map snd ds) \<noteq> []"
  by (cases ds) auto

lemma content_run:
  "conn_state c = Reading_content \<Longrightarrow> \<forall>(t, d) \<in> set ds. d \<noteq> [] \<Longrightarrow> ds \<noteq> [] \<Longrightarrow>
    total_bytes_received c + length (concat (map snd ds)) \<le> max_http_package_size \<Longrightarrow>
    length (req_content (conn_request c)) + length (concat (map snd ds)) = req_content_length (conn_request c) \<Longrightarrow>
    answered h (append_content (concat (map snd ds)) (conn_request c)) c (conn_run h (pieces ds) c)"
proof (induction ds arbitrary: c)
  case Nil
  then show ?case by simp
next
  case (Cons td ds)
  obtain t d where td: "td = (t, d)" by (cases td)
  let ?c1 = "c\<lparr>timestamp := t, total_bytes_received := total_bytes_received c + length d,
    conn_request := append_content d (conn_request c)\<rparr>"
  have fits: "total_bytes_received c + length d \<le> max_http_package_size"
    using Cons.prems(4) by (simp add: td)
  have step: "conn_step h (Data t d) c = do_check h ?c1"
    using Cons.prems(1) fits by (simp add: on_content_data_def Let_def)
  show ?case
  proof (cases "ds = []")
    case True
    then have "length (req_content (conn_request c)) + length d = req_content_length (conn_request c)"
      using Cons.prems(5) by (simp add: td)
    then have "do_check h ?c1 = handle_request h ?c1"
      by (simp add: do_check_def append_content_def)
    then have "conn_run h (pieces (td # ds)) c = handle_request h ?c1"
      using True step by (simp add: td del: conn_step.simps)
    then show ?thesis using True by (simp add: td handle_request_answered)
  next
    case False
    then have "concat (map snd ds) \<noteq> []" using Cons.prems(2) pieces_nonempty [of ds] by simp
    then obtain n where n: "length (concat (map snd ds)) = Suc n" by (cases "concat (map snd ds)") auto
    then have "do_check h ?c1 = ?c1\<lparr>conn_state := Reading_content\<rparr>"
      using Cons.prems(5) n by (intro do_check_more) (simp add: append_content_def td del: length_concat)
    moreover have "answered h (append_content (concat (map snd ds)) (conn_request (?c1\<lparr>conn_state := Reading_content\<rparr>)))
        (?c1\<lparr>conn_state := Reading_content\<rparr>) (conn_run h (pieces ds) (?c1\<lparr>conn_state := Reading_content\<rparr>))"
      using Cons.prems False by (intro Cons.IH) (auto simp: td append_content_def)
    ultimately show ?thesis
      using step by (simp add: td answered_def append_content_def del: conn_step.simps)
  qed
qed

text \<open>The header may end inside any piece.\<close>

lemma head_run:
  "conn_state c = Reading_head \<Longrightarrow> \<forall>(t, d) \<in> set ds. d \<noteq> [] \<Longrightarrow>
    total_bytes_received c + length (concat (map snd ds)) \<le> max_http_package_size \<Longrightarrow>
    req_header_length (conn_request c) = total_bytes_received c \<Longrightarrow> req_content (conn_request c) = [] \<Longrightarrow>
    parse (conn_parser c) (conn_request c) (concat (map snd ds)) = (Good, p, q, body) \<Longrightarrow>
    stricmp_eq (req_method q) ''POST'' \<Longrightarrow> req_content_length q = length body \<Longrightarrow>
    answered h (q\<lparr>req_content := body\<rparr>) c (conn_run h (pieces ds) c)"
proof (induction ds arbitrary: c)
  case Nil
  then show ?case by simp
next
  case (Cons td ds)
  obtain t d where td: "td = (t, d)" by (cases td)
  let ?rest = "concat (map snd ds)"
  let ?c1 = "c\<lparr>timestamp := t, total_bytes_received := total_bytes_received c + length d\<rparr>"
  obtain res p1 q1 r1 where ps: "parse (conn_parser c) (conn_request c) d = (res, p1, q1, r1)"
    by (cases "parse (conn_parser c) (conn_request c) d") auto
  note ph = parse_header_length [OF ps]
  have fits: "total_bytes_received c + length d \<le> max_http_package_size"
    using Cons.prems(3) by (simp add: td)
  have whole: "parse (conn_parser c) (conn_request c) (d @ ?rest) = (Good, p, q, body)"
    using Cons.prems(6) by (simp add: td)
  show ?case
  proof (cases res)
    case Good
    then have q: "q1 = q" "p1 = p" "body = r1 @ ?rest"
      using parse_done [OF ps] whole by auto
    obtain ys where ys: "d = ys @ r1" using ph by auto
    let ?k = "total_bytes_received c + length d - req_header_length q"
    have k: "?k = length r1" using ph Cons.prems(4) q by auto
    let ?c2 = "?c1\<lparr>conn_parser := p, conn_request := q\<lparr>req_content := r1\<rparr>\<rparr>"
    have "req_content q = []" using ph Cons.prems(5) q by simp
    then have c3: "(if ?k > 0 then ?c1\<lparr>conn_parser := p, conn_request := q, conn_request :=
        append_content (take ?k (drop (length d - ?k) d)) q\<rparr> else ?c1\<lparr>conn_parser := p, conn_request := q\<rparr>) = ?c2"
      unfolding k by (cases q) (simp add: ys append_content_def)
    have step: "conn_step h (Data t d) c = do_check h ?c2"
      using Cons.prems(1,7) fits ps c3 Good q
      by (simp add: on_head_data_def Let_def split del: if_split)
    show ?thesis
    proof (cases "ds = []")
      case True
      then have "do_check h ?c2 = handle_request h ?c2"
        using Cons.prems(8) q by (simp add: do_check_def)
      then have "conn_run h (pieces (td # ds)) c = handle_request h ?c2"
        using True step by (simp add: td del: conn_step.simps)
      then show ?thesis using True q by (simp add: td handle_request_answered)
    next
      case False
      then have "?rest \<noteq> []" using Cons.prems(2) pieces_nonempty [of ds] by simp
      then obtain n where n: "length ?rest = Suc n" by (cases ?rest) auto
      then have chk: "do_check h ?c2 = ?c2\<lparr>conn_state := Reading_content\<rparr>"
        using Cons.prems(8) q n by (intro do_check_more) (simp del: length_concat)
      have "answered h (append_content ?rest (conn_request (?c2\<lparr>conn_state := Reading_content\<rparr>)))
          (?c2\<lparr>conn_state := Reading_content\<rparr>) (conn_run h (pieces ds) (?c2\<lparr>conn_state := Reading_content\<rparr>))"
        using Cons.prems(2,3,8) False q
        by (intro content_run) (auto simp: td)
      then show ?thesis
        using q step by (simp add: td chk answered_def append_content_def del: conn_step.simps)
    qed
  next
    case Bad
    then show ?thesis using parse_done [OF ps] whole by simp
  next
    case Indeterminate
    then have r1: "r1 = []" using parse_waiting ps by simp
    let ?c2 = "?c1\<lparr>conn_parser := p1, conn_request := q1\<rparr>"
    have step: "conn_step h (Data t d) c = ?c2"
      using Cons.prems(1) fits ps Indeterminate by (simp add: on_head_data_def Let_def)
    have "parse p1 q1 ?rest = (Good, p, q, body)"
      using whole parse_append [of "conn_parser c" "conn_request c" d p1 q1 ?rest] ps r1 Indeterminate by simp
    then have "answered h (q\<lparr>req_content := body\<rparr>) ?c2 (conn_run h (pieces ds) ?c2)"
      using Cons.prems ph r1 by (intro Cons.IH) (auto simp: td)
    then show ?thesis
      using step by (simp add: td answered_def del: conn_step.simps)
  qed
qed

text \<open>What follows the reply is not read.\<close>

lemma writing_run: "conn_state c = Writing \<Longrightarrow> conn_run h (pieces ds) c = c"
  by (induction ds) auto

lemma get_run:
  "conn_state c = Reading_head \<Longrightarrow>
    total_bytes_received c + length (concat (map snd ds)) \<le> max_http_package_size \<Longrightarrow>
    parse (conn_parser c) (conn_request c) (concat (map snd ds)) = (Good, p, q, rest) \<Longrightarrow>
    stricmp_eq (req_method q) ''GET'' \<Longrightarrow> \<not> stricmp_eq (req_method q) ''POST'' \<Longrightarrow>
    answered h q c (conn_run h (pieces ds) c)"
proof (induction ds arbitrary: c)
  case Nil
  then show ?case by simp
next
  case (Cons td ds)
  obtain t d where td: "td = (t, d)" by (cases td)
  let ?rest = "concat (map snd ds)"
  let ?c1 = "c\<lparr>timestamp := t, total_bytes_received := total_bytes_received c + length d\<rparr>"
  obtain res p1 q1 r1 where ps: "parse (conn_parser c) (conn_request c) d = (res, p1, q1, r1)"
    by (cases "parse (conn_parser c) (conn_request c) d") auto
  have fits: "total_bytes_received c + length d \<le> max_http_package_size"
    using Cons.prems(2) by (simp add: td)
  have whole: "parse (conn_parser c) (conn_request c) (d @ ?rest) = (Good, p, q, rest)"
    using Cons.prems(3) by (simp add: td)
  let ?c2 = "?c1\<lparr>conn_parser := p1, conn_request := q1\<rparr>"
  show ?case
  proof (cases res)
    case Good
    then have q: "q1 = q" using parse_done [OF ps] whole by auto
    have "conn_step h (Data t d) c = handle_request h ?c2"
      using Cons.prems fits ps Good q by (simp add: on_head_data_def Let_def)
    moreover have "conn_state (handle_request h ?c2) = Writing"
      by (simp add: handle_request_def do_write_def)
    ultimately have "conn_run h (pieces (td # ds)) c = handle_request h ?c2"
      by (simp add: td writing_run del: conn_step.simps)
    then show ?thesis using q by (simp add: handle_request_answered)
  next
    case Bad
    then show ?thesis using parse_done [OF ps] whole by simp
  next
    case Indeterminate
    then have r1: "r1 = []" using parse_waiting ps by simp
    have step: "conn_step h (Data t d) c = ?c2"
      using Cons.prems(1) fits ps Indeterminate by (simp add: on_head_data_def Let_def)
    have "parse p1 q1 ?rest = (Good, p, q, rest)"
      using whole parse_append [of "conn_parser c" "conn_request c" d p1 q1 ?rest] ps r1 Indeterminate by simp
    then have "answered h q ?c2 (conn_run h (pieces ds) ?c2)"
      using Cons.prems by (intro Cons.IH) (auto simp: td)
    then show ?thesis
      using step by (simp add: td answered_def del: conn_step.simps)
  qed
qed

section \<open>One reply per connection\<close>

definition conn_ok :: "connection \<Rightarrow> bool" where
  "conn_ok c \<longleftrightarrow> length (req_content (conn_request c)) \<le> total_bytes_received c
     \<and> length (handled c) \<le> length (written c) \<and> length (written c) \<le> 1
     \<and> (conn_state c = Writing \<longrightarrow> length (written c) = 1)
     \<and> (conn_state c = Reading_head \<or> conn_state c = Reading_content \<longrightarrow>
          written c = [] \<and> total_bytes_received c \<le> max_http_package_size)
     \<and> (conn_state c = Reading_head \<longrightarrow> req_content (conn_request c) = [])
     \<and> (conn_state c = Reading_content \<longrightarrow>
          length (req_content (conn_request c)) < req_content_length (conn_request c))"

lemma conn_ok_start: "conn_ok (connection_start now)"
  by (simp add: conn_ok_def connection_start_def request_init_def)

lemma conn_ok_do_check:
  "written c = [] \<Longrightarrow> handled c = [] \<Longrightarrow> total_bytes_received c \<le> max_http_package_size \<Longrightarrow>
    length (req_content (conn_request c)) \<le> total_bytes_received c \<Longrightarrow> conn_ok (do_check h c)"
  by (simp add: do_check_def Let_def conn_ok_def handle_request_def do_write_def)

lemma conn_ok_reply:
  "written c = [] \<Longrightarrow> length (handled c) \<le> 1 \<Longrightarrow>
    length (req_content (conn_request c)) \<le> total_bytes_received c \<Longrightarrow> conn_ok (do_write rep c)"
  by (simp add: conn_ok_def do_write_def)

lemma conn_ok_head:
  assumes "conn_ok c" and "conn_state c = Reading_head"
  shows "conn_ok (on_head_data h now d c)"
proof -
  obtain res p q rest where ps: "parse (conn_parser c) (conn_request c) d = (res, p, q, rest)"
    by (cases "parse (conn_parser c) (conn_request c) d") auto
  have e: "req_content q = []" "written c = []" "handled c = []"
    using parse_header_length [OF ps] assms by (auto simp: conn_ok_def)
  show ?thesis
  proof (cases "total_bytes_received c + length d > max_http_package_size")
    case True
    then show ?thesis
      using assms e by (simp add: on_head_data_def Let_def conn_ok_def do_write_def)
  next
    case False
    then show ?thesis
      using assms e
      by (cases res) (auto simp: on_head_data_def Let_def ps append_content_def handle_request_def
          intro!: conn_ok_reply conn_ok_do_check, simp add: conn_ok_def)
  qed
qed

lemma conn_ok_content:
  assumes "conn_ok c" and "conn_state c = Reading_content"
  shows "conn_ok (on_content_data h now d c)"
  using assms by (auto simp: on_content_data_def Let_def append_content_def conn_ok_def [of c]
      intro!: conn_ok_reply conn_ok_do_check)

lemma conn_ok_step: "conn_ok c \<Longrightarrow> conn_ok (conn_step h e c)"
proof (cases e)
  case (Data now d)
  assume "conn_ok c"
  then show ?thesis
    using conn_ok_head [of c h now d] conn_ok_content [of c h now d] Data by (cases "conn_state c") simp_all
next
  case Read_error
  assume "conn_ok c"
  then show ?thesis using Read_error by (cases "conn_state c") (auto simp: conn_ok_def)
next
  case Written
  assume "conn_ok c"
  then show ?thesis using Written by (auto simp: conn_ok_def)
qed

lemma conn_ok_run: "conn_ok c \<Longrightarrow> conn_ok (conn_run h es c)"
  by (induction es arbitrary: c) (simp_all add: conn_ok_step del: conn_step.simps)

section \<open>The manager's set\<close>

text \<open>A managed connection has an open socket and every open socket among those started is managed.\<close>

datatype manager_op = Start bool nat | Stop nat | Stop_all

fun manager_step :: "manager_op \<Rightarrow> manager \<Rightarrow> manager" where
  "manager_step (Start alive c) m = manager_start alive c m"
| "manager_step (Stop c) m = manager_stop c m"
| "manager_step Stop_all m = stop_all m"

definition manager_ok :: "nat set \<Rightarrow> manager \<Rightarrow> bool" where
  "manager_ok started m \<longleftrightarrow> connections m = {c \<in> started. socket_open m c}"

lemma manager_ok_step:
  "manager_ok started m \<Longrightarrow> (\<forall>alive c. x = Start alive c \<longrightarrow> socket_open m c) \<Longrightarrow>
    manager_ok (case x of Start alive c \<Rightarrow> insert c started | _ \<Rightarrow> started) (manager_step x m)"
  by (cases x) (auto simp: manager_ok_def manager_start_def manager_stop_def stop_locked_def
      connection_stop_def stop_all_def Let_def)

text \<open>A POST in any pieces, and the request it is handled as.\<close>

definition received :: "request \<Rightarrow> string \<Rightarrow> request" where
  "received r body = r\<lparr>req_header_length := length (print_request r), req_content_length := length body, req_content := body\<rparr>"

lemma post_answered:
  assumes "wf_request r" and "stricmp_eq (req_method r) ''POST''" and "announced 0 (req_headers r) = length body"
    and "concat (map snd ds) = print_request r @ body" and "\<forall>(t, d) \<in> set ds. d \<noteq> []"
    and "length (print_request r @ body) \<le> max_http_package_size"
  shows "answered h (received r body) (connection_start now) (conn_run h (pieces ds) (connection_start now))"
proof -
  let ?q = "r\<lparr>req_header_length := length (print_request r), req_content_length := length body, req_content := []\<rparr>"
  have "answered h (?q\<lparr>req_content := body\<rparr>) (connection_start now) (conn_run h (pieces ds) (connection_start now))"
    using assms parse_print_request [OF assms(1), of body]
    by (intro head_run [where p = Expecting_newline_3])
      (auto simp: connection_start_def request_init_def simp del: length_concat)
  then show ?thesis by (simp add: received_def)
qed

section \<open>Properties\<close>

text \<open>
  C11. A POST is reassembled however the network cuts it: when the pieces received are the text of
  a well-formed request followed by as many bytes as its headers announce, at most 16384 in all,
  the handler is called exactly once, with the request that was sent and the whole content, and its
  answer is written.
\<close>

theorem post_reassembled:
  assumes "wf_request r" and "stricmp_eq (req_method r) ''POST''"
    and "announced 0 (req_headers r) = length body"
    and "concat (map snd ds) = print_request r @ body" and "\<forall>(t, d) \<in> set ds. d \<noteq> []"
    and "length (print_request r @ body) \<le> max_http_package_size"
  defines "q \<equiv> r\<lparr>req_header_length := length (print_request r), req_content_length := length body, req_content := body\<rparr>"
  shows "handled (conn_run h (map (\<lambda>(t, d). Data t d) ds) (connection_start now)) = [q]
    \<and> written (conn_run h (map (\<lambda>(t, d). Data t d) ds) (connection_start now)) = [to_buffers (h q)]"
  using post_answered [OF assms(1-6), of h now] unfolding q_def received_def [symmetric]
  by (simp add: answered_def connection_start_def)

definition example_pieces :: "(int \<times> string) list" where
  "example_pieces = [(1, take 9 (print_request example_request)),
     (2, drop 9 (print_request example_request) @ ''a=''), (3, ''b&c'')]"

theorem post_reassembled_witness:
  "map req_content (handled (conn_run (\<lambda>q. stock_reply Ok)
      (map (\<lambda>(t, d). Data t d) example_pieces) (connection_start 0))) = [''a=b&c'']"
proof -
  have "wf_request example_request" by code_simp
  moreover have "stricmp_eq (req_method example_request) ''POST''" by code_simp
  moreover have "announced 0 (req_headers example_request) = length ''a=b&c''" by code_simp
  moreover have "concat (map snd example_pieces) = print_request example_request @ ''a=b&c''" by code_simp
  moreover have "\<forall>(t, d) \<in> set example_pieces. d \<noteq> []" by code_simp
  moreover have "length (print_request example_request @ ''a=b&c'') \<le> max_http_package_size" by code_simp
  ultimately show ?thesis
    using post_reassembled [of example_request "''a=b&c''" example_pieces "\<lambda>q. stock_reply Ok" 0] by simp
qed

text \<open>
  A GET is answered at the end of its header, wherever that falls: the handler sees the request
  that was sent exactly once and its answer is written; what the client sends behind it is not read.
\<close>

theorem get_answered:
  assumes "wf_request r" and "stricmp_eq (req_method r) ''GET''"
    and "concat (map snd ds) = print_request r @ rest"
    and "length (print_request r @ rest) \<le> max_http_package_size"
  defines "q \<equiv> r\<lparr>req_header_length := length (print_request r),
    req_content_length := announced 0 (req_headers r), req_content := []\<rparr>"
  shows "handled (conn_run h (map (\<lambda>(t, d). Data t d) ds) (connection_start now)) = [q]
    \<and> written (conn_run h (map (\<lambda>(t, d). Data t d) ds) (connection_start now)) = [to_buffers (h q)]"
proof -
  let ?c = "connection_start now"
  have "\<not> stricmp_eq (req_method r) ''POST''" using assms(2) stricmp_eq_def by fastforce
  then have "answered h q ?c (conn_run h (pieces ds) ?c)"
    using assms parse_print_request [OF assms(1), of rest]
    by (intro get_run [where p = Expecting_newline_3 and rest = rest])
      (auto simp: connection_start_def simp del: length_concat)
  then show ?thesis by (simp add: answered_def connection_start_def)
qed

definition example_get :: request where
  "example_get = request_init\<lparr>req_method := ''GET'', req_uri := ''/users?id=1'', req_major := 1\<rparr>"

theorem get_answered_witness:
  "map req_uri (handled (conn_run (\<lambda>q. stock_reply Ok)
      [Data 0 (print_request example_get), Data 1 ''x''] (connection_start 0))) = [''/users?id=1'']"
proof -
  have "wf_request example_get" by code_simp
  moreover have "stricmp_eq (req_method example_get) ''GET''" by code_simp
  moreover have "length (print_request example_get @ ''x'') \<le> max_http_package_size" by code_simp
  ultimately show ?thesis
    using get_answered [of example_get "[(0, print_request example_get), (1, ''x'')]" "''x''" "\<lambda>q. stock_reply Ok" 0]
    by (simp add: example_get_def)
qed

text \<open>
  C28. Whatever arrives on a connection, in whatever order: at most one reply is ever written and at
  most one request is handled; while it waits for data it has replied nothing and holds at most
  16384 bytes, so a peer can neither make a connection answer twice nor make it grow without bound.
\<close>

theorem one_reply:
  "length (handled (conn_run h es (connection_start now))) \<le> 1
    \<and> length (written (conn_run h es (connection_start now))) \<le> 1
    \<and> length (req_content (conn_request (conn_run h es (connection_start now))))
        \<le> total_bytes_received (conn_run h es (connection_start now))
    \<and> (conn_state (conn_run h es (connection_start now)) \<in> {Reading_head, Reading_content} \<longrightarrow>
        total_bytes_received (conn_run h es (connection_start now)) \<le> max_http_package_size)"
  using conn_ok_run [OF conn_ok_start, of h es now] by (auto simp: conn_ok_def)

theorem one_reply_witness:
  "total_bytes_received (conn_run (\<lambda>q. stock_reply Ok) [Data 0 ''GET''] (connection_start 0)) = 3
    \<and> total_bytes_received (conn_run (\<lambda>q. stock_reply Ok) [Data 0 ''GET''] (connection_start 0)) \<le> max_http_package_size"
proof
  show n: "total_bytes_received (conn_run (\<lambda>q. stock_reply Ok) [Data 0 ''GET''] (connection_start 0)) = 3"
    by code_simp
  have "conn_state (conn_run (\<lambda>q. stock_reply Ok) [Data 0 ''GET''] (connection_start 0)) = Reading_head"
    by code_simp
  then show "total_bytes_received (conn_run (\<lambda>q. stock_reply Ok) [Data 0 ''GET''] (connection_start 0)) \<le> max_http_package_size"
    using one_reply [of "\<lambda>q. stock_reply Ok" "[Data 0 ''GET'']" 0] by (simp del: conn_run.simps)
qed

end
