(* ===== verification/GameResponses.thy ===== *)
theory GameResponses
  imports GameService JsonRoundtrip
begin

text \<open>
  The shape of what the handlers answer: a response is an object whose \<^verbatim>\<open>ret\<close> is a known code and whose
  \<^verbatim>\<open>params\<close>, when it has them, are an object.
\<close>

section \<open>Responses by type\<close>

definition params_typed :: "'d obj \<Rightarrow> bool" where
  "params_typed resp = (case get_object resp ''params'' of None \<Rightarrow> True | Some (Object ps) \<Rightarrow> True | _ \<Rightarrow> False)"

definition has_code :: "'d obj \<Rightarrow> bool" where
  "has_code resp = (\<exists>n. get_object resp ''ret'' = Some (Integer (response_code n mod 2 ^ 32)))"

text \<open>A response under construction, which may be nil or lack its code, and a finished one.\<close>

definition partial_response :: "'d obj \<Rightarrow> bool" where
  "partial_response resp = (is_node resp \<and> resp \<noteq> Some Null \<and> params_typed resp
     \<and> (get_object resp ''ret'' = None \<or> has_code resp))"

definition typed_response :: "'d obj \<Rightarrow> bool" where
  "typed_response resp = (\<exists>ms. resp = Some (Object ms) \<and> params_typed resp \<and> has_code resp)"

named_theorems response_types \<open>what keeps responses typed\<close>

lemma put_object: "is_node resp \<Longrightarrow> \<exists>ms. put key f resp = Some (Object ms)"
  by (auto simp: is_node_def put_def split: option.splits json.splits)

lemma partial_response_nil [response_types]: "partial_response None"
  by (simp add: partial_response_def params_typed_def)

lemma typed_partial: "typed_response resp \<Longrightarrow> partial_response resp"
  by (auto simp: typed_response_def partial_response_def)

lemma typed_ret [response_types]: "partial_response resp \<Longrightarrow> typed_response (ret n resp)"
proof -
  assume r: "partial_response resp"
  then obtain ms where "ret n resp = Some (Object ms)"
    using put_object [of resp "''ret''"] by (auto simp: partial_response_def ret_def)
  moreover have "get_object (ret n resp) ''ret'' = Some (Integer (response_code n mod 2 ^ 32))"
    using r by (auto simp: ret_def get_object_put partial_response_def has_code_def)
  moreover have "params_typed (ret n resp)" using r by (simp add: partial_response_def params_typed_def)
  ultimately show ?thesis by (auto simp: typed_response_def has_code_def)
qed

lemma partial_ret [response_types]: "partial_response resp \<Longrightarrow> partial_response (ret n resp)"
  by (rule typed_partial [OF typed_ret])

lemma params_put_param: "is_node resp \<Longrightarrow> params_typed resp \<Longrightarrow> params_typed (put_param key f resp)"
  by (auto simp: params_typed_def put_param_def get_object_put split: option.splits json.splits)

lemma partial_put_param [response_types]: "partial_response resp \<Longrightarrow> partial_response (put_param key f resp)"
  using put_object [of resp "''params''" "at_member key f"]
  by (auto simp: partial_response_def params_put_param has_code_def put_param_def [symmetric])

lemma typed_put_param [response_types]: "typed_response resp \<Longrightarrow> typed_response (put_param key f resp)"
proof -
  assume r: "typed_response resp"
  then have node: "is_node resp" by (auto simp: typed_response_def)
  then obtain ms where "put_param key f resp = Some (Object ms)"
    using put_object [of resp "''params''"] by (auto simp: put_param_def)
  moreover have "params_typed (put_param key f resp)" "has_code (put_param key f resp)"
    using r node params_put_param by (auto simp: typed_response_def has_code_def)
  ultimately show ?thesis by (simp add: typed_response_def)
qed

lemma partial_if [response_types]: "partial_response a \<Longrightarrow> partial_response b \<Longrightarrow> partial_response (if P then a else b)"
  by simp

section \<open>Handlers keep the type\<close>

definition answers_typed :: "('w client \<Rightarrow> ('w, 'd) answer) \<Rightarrow> bool" where
  "answers_typed m = (\<forall>c resp c'. m c = (Returns resp, c') \<longrightarrow> typed_response resp)"

interpretation typed: answer_rules answers_typed "\<lambda>_. True" typed_response
proof
  fix run :: "'w client \<Rightarrow> ('w, 'd) answer"
  assume "\<And>c. \<exists>k' c'. answers_typed k' \<and> run c = k' c'"
  then show "answers_typed run" unfolding answers_typed_def by metis
qed (auto simp: answers_typed_def respond_def read_clock_def execute_def query_def split: prod.splits outcome.splits)

named_theorems typed_intros \<open>an operator of the handlers answers by type when its parts do\<close>

lemmas typed_operators [typed_intros] =
  typed.answered typed.clock typed.choice typed.statement [OF TrueI] typed.rows [OF TrueI] typed.CHECK_WR [OF TrueI]
  typed.CHECK_RD [OF TrueI] typed.CHECK_SESSION typed.update_session_id

lemma typed_out_of_bounds [typed_intros]: "answers_typed (\<lambda>c. (OutOfBounds, g c))"
  by (simp add: answers_typed_def)

lemmas simple_handlers = handle_submit_achievement_def handle_submit_challenge_result_def request_challenge_def
  respond_challenge_def handle_get_invite_list_def handle_get_mail_counts_def handle_get_mail_list_def
  handle_collect_mail_def handle_give_power_def handle_answer_invite_def handle_get_game_info_def
  handle_check_server_ready_def handle_account_logout_def

lemma typed_simple:
  assumes "partial_response resp"
  shows "answers_typed (handle_submit_achievement S req resp)" "answers_typed (handle_submit_challenge_result S req resp)"
    "answers_typed (handle_get_invite_list S req resp)" "answers_typed (handle_get_mail_counts S req resp)"
    "answers_typed (handle_get_mail_list S req resp)" "answers_typed (handle_collect_mail S req resp)"
    "answers_typed (handle_give_power S req resp)" "answers_typed (handle_answer_invite S req resp)"
    "answers_typed (handle_get_game_info S req resp)" "answers_typed (handle_check_server_ready S req resp)"
    "answers_typed (handle_account_logout S req resp)"
  unfolding simple_handlers Let_def using assms
  by (intro typed_intros response_types; assumption)+

text \<open>The handlers that read the state of the database between their statements.\<close>

lemma typed_reg: "partial_response resp \<Longrightarrow> answers_typed (handle_reg_new_use_id S req resp)"
  unfolding handle_reg_new_use_id_def Let_def
proof (intro typed.clock typed.CHECK_WR TrueI response_types; (assumption)?)
  assume r: "partial_response resp"
  show "answers_typed (\<lambda>c. respond (put_param ''user_id'' (set_int (f c)) (ret Success resp)) c)" for f
    using typed_put_param [OF typed_ret [OF r]] by (auto simp: answers_typed_def respond_def)
qed

lemma typed_bind_account: "partial_response resp \<Longrightarrow> answers_typed (bind_account S params user_id resp)"
  unfolding bind_account_def by (intro typed_intros response_types; assumption)

lemma typed_bind: "partial_response resp \<Longrightarrow> answers_typed (handle_account_bind S req resp)"
proof -
  assume r: "partial_response resp"
  have "answers_typed (\<lambda>c. bind_account S params (f c) resp c)" for params f
    using typed_bind_account [OF r, of S params] by (simp add: answers_typed_def)
  then show ?thesis
    unfolding handle_account_bind_def Let_def using r typed_bind_account
    by (intro typed.CHECK_RD typed.choice typed.clock typed.CHECK_WR typed.answered response_types TrueI; assumption?)
qed

lemma typed_login: "partial_response resp \<Longrightarrow> answers_typed (handle_account_login S req resp)"
  unfolding handle_account_login_def Let_def by (intro typed_intros response_types; assumption)

lemma typed_send_invite: "partial_response resp \<Longrightarrow> answers_typed (handle_send_invite S req resp)"
  unfolding handle_send_invite_def Let_def
proof (intro typed_intros response_types; (assumption)?)
  fix ok assume r: "partial_response resp"
  show "answers_typed (\<lambda>c. if mysql_errno (database S) (world c) = ER_DUP_ENTRY then respond (ret Donot_reinvite_friend resp) c
      else if ok then respond (ret Success resp) c else respond (ret Exec_sql_failed resp) c)"
    using typed_ret [OF r] by (auto simp: answers_typed_def respond_def split: if_splits)
qed

lemma typed_friend_list: "partial_response resp \<Longrightarrow> answers_typed (handle_get_friend_list S req resp)"
  unfolding handle_get_friend_list_def
proof (intro typed.CHECK_SESSION typed.CHECK_RD response_types TrueI; (assumption)?)
  fix rows assume r: "partial_response resp"
  have "answers_typed (CHECK_RD S (select_friends ids (param S req ''user_id'')) resp (\<lambda>rows.
      respond (put_param ''friends'' (append_all (map (friend_info table) rows)) (ret Success resp))))" for ids table
    using r by (intro typed_intros response_types; assumption)
  then show "answers_typed (\<lambda>c. case friend_flags S rows (world c) of (ids, table, w) \<Rightarrow>
      CHECK_RD S (select_friends ids (param S req ''user_id'')) resp (\<lambda>rows.
      respond (put_param ''friends'' (append_all (map (friend_info table) rows)) (ret Success resp))) (c\<lparr>world := w\<rparr>))"
    by (auto simp: answers_typed_def split: prod.splits)
qed

lemma typed_product_list: "partial_response resp \<Longrightarrow> answers_typed (handle_get_product_list S req resp)"
  unfolding handle_get_product_list_def
proof (intro typed.CHECK_SESSION response_types; (assumption)?)
  assume r: "partial_response resp"
  show "answers_typed (\<lambda>c. case exec_query_i (database S) SELECT_PRODUCTS_SQL c of
      (Query_failed, c1) \<Rightarrow> respond (ret Exec_sql_failed resp) c1
    | (No_rows_stored, c1) \<Rightarrow> (OutOfBounds, c1)
    | (Rows rows, c1) \<Rightarrow>
        (case set_object (narrow_float S) (fold append_obj (map (product_info S) rows) None) of
           Returns product_list \<Rightarrow> respond (put_param ''product_list'' (\<lambda>_. product_list) (ret Success resp)) c1
         | _ \<Rightarrow> (OutOfBounds, c1)))"
    using typed_ret [OF r] typed_put_param [OF typed_ret [OF r]]
    by (auto simp: answers_typed_def respond_def split: prod.splits query_result.splits outcome.splits)
qed

lemma typed_verify_receipt: "(\<And>v. answers_typed (k v)) \<Longrightarrow> answers_typed (verify_receipt S url body k)"
  by (auto simp: answers_typed_def verify_receipt_def split: prod.splits outcome.splits)

lemma typed_finish_receipt: "partial_response resp \<Longrightarrow> answers_typed (finish_receipt S req resp receipt result)"
  unfolding finish_receipt_def Let_def by (intro typed_intros response_types; assumption)

lemma typed_receipt: "partial_response resp \<Longrightarrow> answers_typed (handle_ios_receipt_verify S req resp)"
proof -
  assume r: "partial_response resp"
  have "answers_typed (case b of Returns body \<Rightarrow>
        verify_receipt S url body (\<lambda>v. if P v then verify_receipt S url' body (finish_receipt S req resp receipt)
          else finish_receipt S req resp receipt v)
      | _ \<Rightarrow> (\<lambda>c. (OutOfBounds, c)))" for b url url' P receipt
    using typed_finish_receipt [OF r]
    by (cases b) (auto intro!: typed_verify_receipt typed.choice simp: answers_typed_def [of "\<lambda>c. (OutOfBounds, c)"])
  then show ?thesis
    unfolding handle_ios_receipt_verify_def Let_def using r
    by (intro typed.CHECK_SESSION typed.CHECK_RD typed.choice typed.answered response_types TrueI; assumption?)
qed

lemma handler_typed:
  "ty \<noteq> Get_announcement \<Longrightarrow> partial_response resp \<Longrightarrow> answers_typed (handler ty S req resp)"
  by (cases ty) (simp_all add: typed_simple typed_reg typed_bind typed_login typed_send_invite typed_friend_list
      typed_product_list typed_receipt)

section \<open>The negative code\<close>

text \<open>
  The code of an illegal transaction, -2001, is written to half of an integer that is printed whole: another
  program reads 4294965295, while the accessors of this one give the code back.
\<close>

lemma illegal_code_on_wire:
  "get_object (ret Illegal_transaction None) ''ret'' = Some (Integer 4294965295)"
  "getInt D (ret Illegal_transaction None) ''ret'' 0 = -2001"
  by (simp_all add: getInt_def as_int_def c_int_def)

section \<open>Properties\<close>

text \<open>
  C10. Every response is well typed: what a handler answers to any request, whatever the database and the
  other servers say, is an object whose \<^verbatim>\<open>ret\<close> is one of the codes and whose \<^verbatim>\<open>params\<close>, if there, are an
  object, and it can be printed. Only the announcements, which have no handler yet, answer nothing.
\<close>

theorem responses_typed:
  assumes "handler ty S req None c = (Returns resp, c')"
  shows "if ty = Get_announcement then resp = None
    else typed_response resp \<and> (\<exists>answer. toString D resp = Returns answer)"
proof (cases "ty = Get_announcement")
  case True
  then show ?thesis using assms by (simp add: handle_get_announcement_def respond_def)
next
  case False
  then have "typed_response resp"
    using handler_typed [OF False partial_response_nil, of S req] assms by (auto simp: answers_typed_def)
  moreover have "\<exists>answer. toString D resp = Returns answer" if "resp = Some j" for j
    using print_iff_fits(1) [of D False 0 j] fits_unformatted [of 0 j] that by (simp add: toString_def cJSON_Print_def)
  ultimately show ?thesis using False by (auto simp: typed_response_def)
qed

lemma responses_typed_witness:
  "typed_response (ret Feature_not_develop (None :: int obj))"
  using responses_typed [of Account_logout scripted None "scripted_client []" "ret Feature_not_develop None" "scripted_client []"]
  by (simp add: handle_account_logout_def respond_def)

end
