(* ===== verification/SortedMultilist.thy ===== *)
theory SortedMultilist
  imports GPS_Prelude "HOL-Library.Multiset"
begin

text \<open>
  The sorted list with duplicates of the event loops, \<^verbatim>\<open>xxsocket/refs/async/sorted_multilist.hpp\<close>: the nodes
  behind \<^verbatim>\<open>_Myhead\<close> as the list of their values, and the counter \<^verbatim>\<open>_Mysize\<close>. The nodes come from an object
  pool (\<^theory_text>\<open>ObjectPool\<close>); nothing outside the list refers to them.
\<close>

section \<open>The interface\<close>

text \<open>A bag whose first element is a least one.\<close>

locale ordered_bag =
  fixes bag_of :: "'s \<Rightarrow> 'a multiset"
    and front_of :: "'s \<Rightarrow> 'a outcome"
    and pop_of :: "'s \<Rightarrow> 's outcome"
    and insert_of :: "'a \<Rightarrow> 's \<Rightarrow> 's"
    and size_of :: "'s \<Rightarrow> nat"
    and inv :: "'s \<Rightarrow> bool"
    and before :: "'a \<Rightarrow> 'a \<Rightarrow> bool"
  assumes bag_insert: "inv s \<Longrightarrow> bag_of (insert_of x s) = add_mset x (bag_of s)"
    and inv_insert: "inv s \<Longrightarrow> inv (insert_of x s)"
    and front_least: "inv s \<Longrightarrow> bag_of s \<noteq> {#} \<Longrightarrow> \<exists>x. front_of s = Returns x \<and> x \<in># bag_of s \<and> (\<forall>y \<in># bag_of s. \<not> before y x)"
    and pop_front: "inv s \<Longrightarrow> front_of s = Returns x \<Longrightarrow> \<exists>s'. pop_of s = Returns s' \<and> inv s' \<and> bag_of s' = bag_of s - {#x#}"
    and size_bag: "inv s \<Longrightarrow> size_of s = size (bag_of s)"
begin

text \<open>Everything inserted and then everything taken off the front, in an order no element is before a lesser one.\<close>

fun drain :: "nat \<Rightarrow> 's \<Rightarrow> 'a list outcome" where
  "drain 0 s = Returns []"
| "drain (Suc n) s =
     bind_outcome (front_of s) (\<lambda>x. bind_outcome (pop_of s) (\<lambda>s'. bind_outcome (drain n s') (\<lambda>xs. Returns (x # xs))))"

lemma insert_all: "inv s \<Longrightarrow> inv (fold insert_of xs s) \<and> bag_of (fold insert_of xs s) = mset xs + bag_of s"
  by (induction xs arbitrary: s) (auto simp: bag_insert inv_insert)

lemma drain_sorted:
  "inv s \<Longrightarrow> \<exists>xs. drain (size_of s) s = Returns xs \<and> mset xs = bag_of s \<and> sorted_wrt (\<lambda>x y. \<not> before y x) xs"
proof (induction "size_of s" arbitrary: s)
  case 0
  then show ?case using size_bag [of s] by (intro exI [of _ "[]"]) simp
next
  case (Suc n)
  have "bag_of s \<noteq> {#}" using Suc.hyps(2) size_bag [OF Suc.prems] by auto
  then obtain x where x: "front_of s = Returns x" "x \<in># bag_of s" "\<forall>y \<in># bag_of s. \<not> before y x"
    using front_least [OF Suc.prems] by auto
  obtain s' where s': "pop_of s = Returns s'" "inv s'" "bag_of s' = bag_of s - {#x#}"
    using pop_front [OF Suc.prems x(1)] by auto
  have "n = size_of s'" using Suc.hyps(2) x(2) s' size_bag [OF Suc.prems] size_bag [OF s'(2)] by (simp add: size_Diff_singleton)
  then obtain xs where xs: "drain n s' = Returns xs" "mset xs = bag_of s'" "sorted_wrt (\<lambda>x y. \<not> before y x) xs"
    using Suc.hyps(1) s'(2) by auto
  have "\<forall>y \<in> set xs. \<not> before y x"
    using x(3) xs(2) s'(3) by (metis in_diffD set_mset_mset)
  then have "drain (size_of s) s = Returns (x # xs)" "mset (x # xs) = bag_of s" "sorted_wrt (\<lambda>x y. \<not> before y x) (x # xs)"
    using x s' xs by (simp_all flip: Suc.hyps(2))
  then show ?case by blast
qed

end

section \<open>The list\<close>

record 'a sorted_multilist =
  entries :: "'a list"
  mysize :: nat

definition empty_list :: "'a sorted_multilist" where
  "empty_list = \<lparr>entries = [], mysize = 0\<rparr>"

definition is_empty :: "'a sorted_multilist \<Rightarrow> bool" where
  "is_empty l = (mysize l = 0)"

definition clear :: "'a sorted_multilist \<Rightarrow> 'a sorted_multilist" where
  "clear l = l\<lparr>entries := [], mysize := 0\<rparr>"

text \<open>The walk of \<^verbatim>\<open>insert\<close> from a node on: the new node goes behind it, and the values are swapped if out of order.\<close>

fun insert_walk :: "('a \<Rightarrow> 'a \<Rightarrow> bool) \<Rightarrow> 'a \<Rightarrow> 'a list \<Rightarrow> 'a list" where
  "insert_walk comparator v [] = [v]"
| "insert_walk comparator v (x # xs) =
     (if comparator x v \<and> xs \<noteq> [] then x # insert_walk comparator v xs
      else if comparator v x then v # x # xs
      else x # v # xs)"

definition insert_value :: "('a \<Rightarrow> 'a \<Rightarrow> bool) \<Rightarrow> 'a \<Rightarrow> 'a sorted_multilist \<Rightarrow> 'a sorted_multilist" where
  "insert_value comparator v l = l\<lparr>entries := insert_walk comparator v (entries l), mysize := mysize l + 1\<rparr>"

fun remove_if_walk :: "('a \<Rightarrow> bool) \<Rightarrow> 'a list \<Rightarrow> 'a list \<times> nat" where
  "remove_if_walk cond [] = ([], 0)"
| "remove_if_walk cond (x # xs) =
     (case remove_if_walk cond xs of (ys, n) \<Rightarrow> if cond x then (ys, n + 1) else (x # ys, n))"

definition remove_if :: "('a \<Rightarrow> bool) \<Rightarrow> 'a sorted_multilist \<Rightarrow> nat \<times> 'a sorted_multilist" where
  "remove_if cond l = (case remove_if_walk cond (entries l) of (ys, n) \<Rightarrow> (n, l\<lparr>entries := ys, mysize := mysize l - n\<rparr>))"

fun remove_walk :: "'a \<Rightarrow> 'a list \<Rightarrow> 'a list option" where
  "remove_walk v [] = None"
| "remove_walk v (x # xs) = (if v = x then Some xs else map_option (Cons x) (remove_walk v xs))"

definition remove_value :: "'a \<Rightarrow> 'a sorted_multilist \<Rightarrow> bool \<times> 'a sorted_multilist" where
  "remove_value v l = (case remove_walk v (entries l) of
     None \<Rightarrow> (False, l) | Some ys \<Rightarrow> (True, l\<lparr>entries := ys, mysize := mysize l - 1\<rparr>))"

text \<open>\<open>foreach\<close> with a callback on a state \<open>'b\<close>.\<close>

definition foreach :: "('a \<Rightarrow> 'b \<Rightarrow> 'b) \<Rightarrow> 'a sorted_multilist \<Rightarrow> 'b \<Rightarrow> 'b" where
  "foreach callback l s = fold callback (entries l) s"

text \<open>On an empty list the assertions are compiled out and the null head is followed.\<close>

definition front :: "'a sorted_multilist \<Rightarrow> 'a outcome" where
  "front l = (case entries l of [] \<Rightarrow> OutOfBounds | x # xs \<Rightarrow> Returns x)"

definition pop_front :: "'a sorted_multilist \<Rightarrow> 'a sorted_multilist outcome" where
  "pop_front l = (case entries l of [] \<Rightarrow> OutOfBounds | x # xs \<Rightarrow> Returns (l\<lparr>entries := xs, mysize := mysize l - 1\<rparr>))"

section \<open>Sortedness\<close>

text \<open>What the code expects of the comparator: a strict weak order.\<close>

definition weak_order :: "('a \<Rightarrow> 'a \<Rightarrow> bool) \<Rightarrow> bool" where
  "weak_order before = ((\<forall>x y. before x y \<longrightarrow> \<not> before y x) \<and> (\<forall>x y z. \<not> before y x \<longrightarrow> \<not> before z y \<longrightarrow> \<not> before z x))"

definition ascending :: "('a \<Rightarrow> 'a \<Rightarrow> bool) \<Rightarrow> 'a list \<Rightarrow> bool" where
  "ascending before xs = sorted_wrt (\<lambda>x y. \<not> before y x) xs"

lemma mset_insert_walk [simp]: "mset (insert_walk before v xs) = add_mset v (mset xs)"
  by (induction before v xs rule: insert_walk.induct) auto

lemma set_insert_walk [simp]: "set (insert_walk before v xs) = insert v (set xs)"
  by (induction before v xs rule: insert_walk.induct) auto

lemma ascending_insert_walk: "weak_order before \<Longrightarrow> ascending before xs \<Longrightarrow> ascending before (insert_walk before v xs)"
proof (induction before v xs rule: insert_walk.induct)
  case (2 before v x xs)
  have asym: "before a b \<Longrightarrow> \<not> before b a" and trans: "\<not> before b a \<Longrightarrow> \<not> before c b \<Longrightarrow> \<not> before c a" for a b c
    using 2(2) unfolding weak_order_def by blast+
  have x: "\<forall>y \<in> set xs. \<not> before y x" "ascending before xs" using 2(3) by (simp_all add: ascending_def)
  consider "before x v" "xs \<noteq> []" | "before v x" | "\<not> before v x" "\<not> before x v \<or> xs = []" by blast
  then show ?case
  proof cases
    case 1
    then show ?thesis using 2(1) 2(2) x asym [OF 1(1)] by (auto simp: ascending_def)
  next
    case 2
    then have "\<forall>y \<in> set xs. \<not> before y v" "\<not> before x v" using x(1) trans asym by blast+
    then show ?thesis using 2 x by (auto simp: ascending_def)
  next
    case 3
    then have "\<forall>y \<in> set xs. \<not> before y v" using x(1) trans by auto
    then show ?thesis using 3 x by (auto simp: ascending_def)
  qed
qed (simp add: ascending_def)

definition sorted_inv :: "('a \<Rightarrow> 'a \<Rightarrow> bool) \<Rightarrow> 'a sorted_multilist \<Rightarrow> bool" where
  "sorted_inv before l = (ascending before (entries l) \<and> mysize l = length (entries l))"

lemma remove_if_walk_eq: "remove_if_walk cond xs = (filter (\<lambda>x. \<not> cond x) xs, length (filter cond xs))"
  by (induction xs) auto

lemma remove_walk_eq: "remove_walk v xs = (if v \<in> set xs then Some (remove1 v xs) else None)"
  by (induction xs) auto

lemma ascending_remove1: "ascending before xs \<Longrightarrow> ascending before (remove1 v xs)"
  by (induction xs) (auto simp: ascending_def dest: notin_set_remove1 [THEN contrapos_pn, rotated] set_remove1_subset [THEN subsetD])

lemma sorted_inv_ops:
  "sorted_inv before empty_list" "sorted_inv before (clear l)"
  "weak_order before \<Longrightarrow> sorted_inv before l \<Longrightarrow> sorted_inv before (insert_value before v l)"
  "sorted_inv before l \<Longrightarrow> sorted_inv before (snd (remove_if cond l))"
  "sorted_inv before l \<Longrightarrow> sorted_inv before (snd (remove_value v l))"
  "sorted_inv before l \<Longrightarrow> pop_front l = Returns l' \<Longrightarrow> sorted_inv before l'"
  subgoal by (simp add: sorted_inv_def empty_list_def ascending_def)
  subgoal by (simp add: sorted_inv_def clear_def ascending_def)
  subgoal by (simp add: sorted_inv_def insert_value_def ascending_insert_walk)
    (metis mset_insert_walk size_add_mset size_mset)
  subgoal by (simp add: sorted_inv_def remove_if_def remove_if_walk_eq ascending_def sorted_wrt_filter)
    (metis add_diff_cancel_left' sum_length_filter_compl)
  subgoal by (auto simp: sorted_inv_def remove_value_def remove_walk_eq ascending_remove1 length_remove1)
  subgoal by (auto simp: sorted_inv_def pop_front_def ascending_def split: list.splits)
  done

text \<open>The list is an ordered bag for every strict weak order.\<close>

interpretation bag: ordered_bag "\<lambda>l. mset (entries l)" front pop_front "insert_value before" mysize
    "\<lambda>l. weak_order before \<and> sorted_inv before l" before for before
proof
  fix l :: "'a sorted_multilist" and x
  assume l: "weak_order before \<and> sorted_inv before l"
  show "mset (entries (insert_value before x l)) = add_mset x (mset (entries l))" by (simp add: insert_value_def)
  show "weak_order before \<and> sorted_inv before (insert_value before x l)" using l by (simp add: sorted_inv_ops(3))
  show "mysize l = size (mset (entries l))" using l by (simp add: sorted_inv_def)
  show "\<exists>l'. pop_front l = Returns l' \<and> (weak_order before \<and> sorted_inv before l') \<and> mset (entries l') = mset (entries l) - {#x#}"
    if f: "front l = Returns x"
  proof -
    obtain xs where xs: "entries l = x # xs" using f by (cases "entries l") (simp_all add: front_def)
    then have p: "pop_front l = Returns (l\<lparr>entries := xs, mysize := mysize l - 1\<rparr>)" by (simp add: pop_front_def)
    show ?thesis using p sorted_inv_ops(6) [OF conjunct2 [OF l] p] l xs by simp
  qed
  show "\<exists>x. front l = Returns x \<and> x \<in># mset (entries l) \<and> (\<forall>y \<in># mset (entries l). \<not> before y x)"
    if ne: "mset (entries l) \<noteq> {#}"
  proof -
    obtain x xs where xs: "entries l = x # xs" using ne by (cases "entries l") simp_all
    have "\<not> before x x" using conjunct1 [OF l] unfolding weak_order_def by blast
    moreover have "ascending before (x # xs)" using conjunct2 [OF l] unfolding sorted_inv_def xs by (rule conjunct1)
    then have "\<forall>y \<in> set xs. \<not> before y x" unfolding ascending_def sorted_wrt.simps by (rule conjunct1)
    ultimately have "\<forall>y \<in># mset (entries l). \<not> before y x" unfolding xs by auto
    then show ?thesis by (intro exI [of _ x] conjI) (simp_all add: xs front_def)
  qed
qed

section \<open>Properties\<close>

text \<open>
  C35. The list is a priority queue: after inserting any values in any order into an empty list under a
  strict weak order, its counter is their number, and taking that many elements off the front gives
  exactly those values, duplicates included, in ascending order.
\<close>

theorem multilist_sorts:
  assumes "weak_order before"
  shows "mysize (fold (insert_value before) xs empty_list) = length xs
    \<and> (\<exists>ys. ordered_bag.drain front pop_front (length xs) (fold (insert_value before) xs empty_list) = Returns ys
        \<and> mset ys = mset xs \<and> ascending before ys)"
proof -
  have e: "weak_order before \<and> sorted_inv before empty_list" using assms by (simp add: sorted_inv_ops(1))
  let ?l = "fold (insert_value before) xs empty_list"
  have l: "weak_order before \<and> sorted_inv before ?l" "mset (entries ?l) = mset xs"
    using bag.insert_all [OF e, of xs] by (simp_all add: empty_list_def)
  then have "mysize ?l = length xs" using bag.size_bag [OF l(1)] by simp
  then show ?thesis using bag.drain_sorted [OF l(1)] l(2) by (simp add: ascending_def)
qed

lemma multilist_sorts_witness:
  "\<exists>ys. ordered_bag.drain front pop_front 4 (fold (insert_value (<)) [3, 1, 3, 2 :: int] empty_list) = Returns ys
    \<and> mset ys = {#1, 2, 3, 3#} \<and> ascending (<) ys"
proof -
  have w: "weak_order ((<) :: int \<Rightarrow> int \<Rightarrow> bool)" by (auto simp: weak_order_def)
  have e: "length [3, 1, 3, 2 :: int] = 4" "mset [3, 1, 3, 2 :: int] = {#1, 2, 3, 3#}" by simp_all
  show ?thesis using conjunct2 [OF multilist_sorts [OF w, of "[3, 1, 3, 2]"]] unfolding e .
qed

end
