(* ===== verification/SocketIo.thy ===== *)
theory SocketIo
  imports GPS_Prelude
begin

text \<open>
  The loops of the server's socket class around the calls of the operating system,
  \<^verbatim>\<open>refs/httpserver/thelib/utils/xxsocket.cpp\<close>. The system is a script of rounds: what \<^verbatim>\<open>send\<close> or \<^verbatim>\<open>recv\<close>
  answers and, where it is asked, what \<^verbatim>\<open>select\<close> does. A call takes or gives no more bytes than it is
  asked for. \<open>None\<close> says that the function has not returned when the script ends.
\<close>

section \<open>The system\<close>

datatype errno = EAGAIN | EINTR | ENOBUFS | Other_error

datatype send_result = Took nat | Send_error errno

datatype recv_result = Arrived nat | Recv_error errno

text \<open>A round: the answer, and the result of a \<^verbatim>\<open>select\<close> after it.\<close>

type_synonym send_round = "send_result \<times> int"
type_synonym recv_round = "recv_result \<times> int"

text \<open>
  The number returned for a request of \<open>asked\<close> bytes, and \<^verbatim>\<open>errno\<close> after the call: only errors set it. A
  \<^verbatim>\<open>recv\<close> takes from the bytes the peer has still to send; none left is the end of the connection, 0.
\<close>

fun send_ret :: "nat \<Rightarrow> send_result \<Rightarrow> int" where
  "send_ret asked (Took n) = int (min n asked)"
| "send_ret asked (Send_error e) = -1"

fun recv_ret :: "nat \<Rightarrow> string \<Rightarrow> recv_result \<Rightarrow> int" where
  "recv_ret asked stream (Arrived n) = int (min n (min asked (length stream)))"
| "recv_ret asked stream (Recv_error e) = -1"

fun errno_after_send :: "errno \<Rightarrow> send_result \<Rightarrow> errno" where
  "errno_after_send old (Took n) = old"
| "errno_after_send old (Send_error e) = e"

fun errno_after_recv :: "errno \<Rightarrow> recv_result \<Rightarrow> errno" where
  "errno_after_recv old (Arrived n) = old"
| "errno_after_recv old (Recv_error e) = e"

section \<open>Sending and receiving exactly\<close>

text \<open>\<^verbatim>\<open>send_n\<close> from \<open>k\<close> bytes on: its result and the bytes the system took.\<close>

fun send_n :: "errno \<Rightarrow> string \<Rightarrow> nat \<Rightarrow> string \<Rightarrow> send_round list \<Rightarrow> (int \<times> string) option" where
  "send_n err buf k wire [] = (if k < length buf then None else Some (int k, wire))"
| "send_n err buf k wire ((res, ready) # rs) =
     (if k < length buf then
        let n = send_ret (length buf - k) res;
            err' = errno_after_send err res
        in if n \<le> 0 then
             if n = -1 \<and> (err' = EAGAIN \<or> err' = ENOBUFS \<or> err' = EINTR) \<and> ready \<noteq> -1
             then send_n err' buf k wire rs
             else Some (n, wire)
           else send_n err' buf (k + nat n) (wire @ take (nat n) (drop k buf)) rs
      else Some (int k, wire))"

text \<open>\<^verbatim>\<open>recv_n\<close>, whose test of \<^verbatim>\<open>EINTR\<close> does not ask for the result to be an error: its result, the buffer and what is left to come.\<close>

fun recv_n :: "errno \<Rightarrow> nat \<Rightarrow> string \<Rightarrow> string \<Rightarrow> recv_round list \<Rightarrow> (int \<times> string \<times> string) option" where
  "recv_n err len data stream [] = (if length data < len then None else Some (int (length data), data, stream))"
| "recv_n err len data stream ((res, ready) # rs) =
     (if length data < len then
        let n = recv_ret (len - length data) stream res;
            err' = errno_after_recv err res
        in if n \<le> 0 then
             if (n = -1 \<and> err' = EAGAIN \<or> err' = EINTR) \<and> ready \<noteq> -1
             then recv_n err' len data stream rs
             else Some (n, data, stream)
           else recv_n err' len (data @ take (nat n) stream) (drop (nat n) stream) rs
      else Some (int (length data), data, stream))"

text \<open>
  The blocking \<^verbatim>\<open>send\<close> and \<^verbatim>\<open>recv\<close>: the result of a failed call is added to the count too. The count is
  an \<^verbatim>\<open>int\<close>.
\<close>

fun send_loop :: "string \<Rightarrow> int \<Rightarrow> string \<Rightarrow> send_result list \<Rightarrow> (int \<times> string \<times> send_result list) option" where
  "send_loop buf k wire [] = None"
| "send_loop buf k wire (res # rs) =
     (let n = send_ret (length buf - nat k) res;
          wire' = wire @ take (nat n) (drop (nat k) buf)
      in if k + n < int (length buf) \<and> n > 0 then send_loop buf (k + n) wire' rs
         else Some (k + n, wire', rs))"

definition send_all :: "string \<Rightarrow> send_result list \<Rightarrow> (int \<times> string \<times> send_result list) option" where
  "send_all buf rs = send_loop buf 0 [] rs"

fun recv_loop :: "nat \<Rightarrow> int \<Rightarrow> string \<Rightarrow> string \<Rightarrow> recv_result list \<Rightarrow> (int \<times> string \<times> string) option" where
  "recv_loop len k data stream [] = None"
| "recv_loop len k data stream (res # rs) =
     (let n = recv_ret (len - nat k) stream res;
          data' = data @ take (nat n) stream;
          stream' = drop (nat n) stream
      in if k + n < int len \<and> n > 0 then recv_loop len (k + n) data' stream' rs
         else Some (k + n, data', stream'))"

definition recv_all :: "nat \<Rightarrow> string \<Rightarrow> recv_result list \<Rightarrow> (int \<times> string \<times> string) option" where
  "recv_all len stream rs = recv_loop len 0 [] stream rs"

section \<open>Connecting and accepting with a timeout\<close>

text \<open>
  \<^verbatim>\<open>select\<close> as POSIX has it: of the watched descriptors that are ready, those below its first argument. A
  socket is its descriptor, \<open>None\<close> the bad one; the functions pass 1.
\<close>

definition select_ready :: "nat \<Rightarrow> nat set \<Rightarrow> nat set \<Rightarrow> nat set" where
  "select_ready nfds watched ready_fds = {fd \<in> watched \<inter> ready_fds. fd < nfds}"

text \<open>\<^verbatim>\<open>connect_n\<close> with the descriptors that become writable in time: its result and the socket afterwards.\<close>

definition connect_n :: "nat \<Rightarrow> nat set \<Rightarrow> int \<times> nat option" where
  "connect_n s writable =
     (let fds = select_ready 1 {s} writable
      in if card fds > 0 \<and> s \<in> fds then (0, Some s) else (-1, None))"

text \<open>\<^verbatim>\<open>accept_n\<close> with the readable descriptors and the connection an accept would give.\<close>

definition accept_n :: "nat \<Rightarrow> nat set \<Rightarrow> nat option \<Rightarrow> nat option" where
  "accept_n fd readable accepted = (if card (select_ready 1 {fd} readable) > 0 then accepted else None)"

section \<open>What was sent is a prefix\<close>

lemma send_n_step_wire:
  "wire = take k buf \<Longrightarrow> k \<le> length buf \<Longrightarrow> m \<le> length buf - k \<Longrightarrow> wire @ take m (drop k buf) = take (k + m) buf"
  by (simp add: take_add)

lemma send_n_sound:
  "send_n err buf k (take k buf) rs = Some (r, w) \<Longrightarrow> k \<le> length buf \<Longrightarrow>
    w = take (length w) buf \<and> k \<le> length w \<and> length w \<le> length buf
    \<and> (r = int (length buf) \<and> w = buf \<or> r \<in> {-1, 0} \<and> length w < length buf)"
proof (induction rs arbitrary: err k)
  case Nil
  then show ?case by (auto split: if_splits)
next
  case (Cons p rs)
  obtain res ready where p: "p = (res, ready)" by (cases p)
  let ?n = "send_ret (length buf - k) res"
  have n: "?n \<ge> -1" "?n \<le> int (length buf - k)" by (cases res; simp)+
  show ?case
  proof (cases "k < length buf \<and> ?n > 0")
    case True
    have t: "take k buf @ take (nat ?n) (drop k buf) = take (k + nat ?n) buf" by (simp add: take_add)
    have "k + nat ?n \<le> length buf" using n True by linarith
    then show ?thesis using Cons True t by (fastforce simp: p Let_def)
  next
    case False
    then show ?thesis using Cons.prems n Cons.IH [of "errno_after_send err res" k] by (auto simp: p Let_def split: if_splits)
  qed
qed

definition waits :: "send_round \<Rightarrow> bool" where
  "waits r = (fst r \<in> {Send_error EAGAIN, Send_error ENOBUFS, Send_error EINTR} \<and> snd r \<noteq> -1)"

definition takes :: "send_round \<Rightarrow> bool" where
  "takes r = (\<exists>n > 0. fst r = Took n)"

lemma send_n_complete:
  "\<forall>r \<in> set rs. takes r \<or> waits r \<Longrightarrow> length buf \<le> k + length (filter takes rs) \<Longrightarrow> k \<le> length buf \<Longrightarrow>
    send_n err buf k (take k buf) rs = Some (int (length buf), buf)"
proof (induction rs arbitrary: err k)
  case Nil
  then show ?case by simp
next
  case (Cons r rs)
  obtain res ready where r: "r = (res, ready)" by (cases r)
  consider n where "res = Took n" "n > 0" | "waits r" "\<not> takes r" using Cons.prems(1) by (auto simp: takes_def r)
  then show ?case
  proof cases
    case (1 n)
    show ?thesis
    proof (cases "k < length buf")
      case True
      let ?m = "min n (length buf - k)"
      have "takes r" "?m > 0" using 1 True by (simp_all add: takes_def r)
      then have "send_n err buf (k + ?m) (take (k + ?m) buf) rs = Some (int (length buf), buf)"
        using Cons.prems by (intro Cons.IH) auto
      moreover have "take k buf @ take ?m (drop k buf) = take (k + ?m) buf" by (simp add: take_add)
      ultimately show ?thesis using True \<open>?m > 0\<close> by (simp add: r 1 Let_def)
    next
      case False
      then show ?thesis using Cons.prems by (simp add: r)
    qed
  next
    case 2
    then have "send_n err' buf k (take k buf) rs = Some (int (length buf), buf)" for err'
      using Cons.prems by (intro Cons.IH) auto
    then show ?thesis using 2 Cons.prems(3) by (auto simp: r waits_def)
  qed
qed

lemma recv_n_sound:
  "recv_n err len data stream rs = Some (r, data', stream') \<Longrightarrow> length data \<le> len \<Longrightarrow>
    data' @ stream' = data @ stream \<and> length data' \<le> len
    \<and> (r = int len \<and> length data' = len \<or> r \<in> {-1, 0} \<and> length data' < len)"
proof (induction rs arbitrary: err data stream)
  case Nil
  then show ?case by (auto split: if_splits)
next
  case (Cons p rs)
  obtain res ready where p: "p = (res, ready)" by (cases p)
  let ?n = "recv_ret (len - length data) stream res"
  have n: "?n \<ge> -1" "?n \<le> int (len - length data)" by (cases res; simp)+
  show ?case
  proof (cases "length data < len \<and> ?n > 0")
    case True
    have "length (data @ take (nat ?n) stream) \<le> len" using n True by simp linarith
    then show ?thesis using Cons.IH [of _ "data @ take (nat ?n) stream" "drop (nat ?n) stream"] Cons.prems True by (simp add: p Let_def)
  next
    case False
    then show ?thesis using Cons.prems n Cons.IH [of "errno_after_recv err res" data stream] by (auto simp: p Let_def split: if_splits)
  qed
qed

text \<open>The end of the connection is not seen while an old \<^verbatim>\<open>EINTR\<close> stands in \<^verbatim>\<open>errno\<close>.\<close>

definition arrives :: "recv_round \<Rightarrow> bool" where
  "arrives x = (case x of (Arrived n, ready) \<Rightarrow> ready \<noteq> -1 | _ \<Rightarrow> False)"

lemma recv_n_spins:
  "length data + length stream < len \<Longrightarrow> \<forall>x \<in> set rs. arrives x \<Longrightarrow> recv_n EINTR len data stream rs = None"
proof (induction rs arbitrary: data stream)
  case Nil
  then show ?case by simp
next
  case (Cons p rs)
  obtain n ready where p: "p = (Arrived n, ready)" "ready \<noteq> -1"
    using Cons.prems(2) by (auto simp: arrives_def split: prod.splits recv_result.splits)
  let ?m = "min n (min (len - length data) (length stream))"
  have "length (data @ take ?m stream) + length (drop ?m stream) < len" using Cons.prems(1) by simp
  then have "recv_n EINTR len (data @ take ?m stream) (drop ?m stream) rs = None" using Cons by simp
  moreover have "recv_n EINTR len data stream rs = None" using Cons by simp
  moreover have "length data < len" using Cons.prems(1) by simp
  ultimately show ?case using p by (simp add: Let_def)
qed

lemma recv_n_end: "length data < len \<Longrightarrow> err \<noteq> EINTR \<Longrightarrow> recv_n err len data [] ((Arrived n, ready) # rs) = Some (0, data, [])"
  by (simp add: Let_def)

lemma send_all_failing:
  assumes "n < length buf"
  shows "send_all buf [Took n, Send_error e] = Some (if n = 0 then 0 else int n - 1, take n buf, if n = 0 then [Send_error e] else [])"
  using assms by (simp add: send_all_def Let_def min_absorb1)

section \<open>Properties\<close>

text \<open>
  What \<^verbatim>\<open>send_n\<close> gives the system is a prefix of the buffer: all of it when it returns the length, and
  a proper one when it returns 0 or -1, which then says nothing of how much was sent. It returns the length
  on every script that goes on taking bytes, or asks it to wait, until the buffer is through.
\<close>

theorem send_n_exact:
  "(send_n err buf 0 [] rs = Some (r, w) \<longrightarrow>
      w = take (length w) buf \<and> (r = int (length buf) \<and> w = buf \<or> r \<in> {-1, 0} \<and> length w < length buf))
    \<and> ((\<forall>x \<in> set rs. takes x \<or> waits x) \<and> length buf \<le> length (filter takes rs) \<longrightarrow>
      send_n err buf 0 [] rs = Some (int (length buf), buf))"
  using send_n_sound [of err buf 0 rs r w] send_n_complete [of rs buf 0 err] by auto

theorem send_n_exact_witness:
  "send_n Other_error ''abc'' 0 [] [(Took 2, 0), (Send_error EAGAIN, 1), (Took 2, 0), (Took 2, 0)] = Some (3, ''abc'')"
proof -
  let ?rs = "[(Took 2, 0), (Send_error EAGAIN, 1), (Took 2, 0), (Took 2, 0)] :: send_round list"
  have "\<forall>x \<in> set ?rs. takes x \<or> waits x" by (simp add: takes_def waits_def)
  moreover have "length ''abc'' \<le> length (filter takes ?rs)" by (simp add: takes_def)
  ultimately show ?thesis using send_n_exact [of Other_error "''abc''" ?rs] by simp
qed

text \<open>
  C30. \<^verbatim>\<open>recv_n\<close> keeps what it reads in order and asks for no more than the length; but when the peer closes
  early and an old \<^verbatim>\<open>EINTR\<close> stands in \<^verbatim>\<open>errno\<close>, it takes the end of the connection for an interruption and
  never returns, however often \<^verbatim>\<open>select\<close> reports the socket readable.
\<close>

theorem recv_n_end_unseen:
  "(recv_n err len [] stream rs = Some (r, data, rest) \<longrightarrow> data @ rest = stream \<and> length data \<le> len
      \<and> (r = int len \<and> length data = len \<or> r \<in> {-1, 0} \<and> length data < len))
    \<and> (length stream < len \<and> (\<forall>x \<in> set rs. arrives x) \<longrightarrow> recv_n EINTR len [] stream rs = None)"
  using recv_n_sound [of err len "[]" stream rs r data rest] recv_n_spins [of "[]" stream len rs] by auto

theorem recv_n_end_unseen_witness:
  "recv_n EINTR 4 [] ''abc'' (replicate 100 (Arrived 3, 1)) = None \<and> recv_n Other_error 4 [] ''abc'' [(Arrived 3, 1), (Arrived 1, 1)] = Some (0, ''abc'', [])"
proof -
  have "\<forall>x \<in> set (replicate 100 (Arrived 3, 1 :: int)). arrives x" by (simp add: arrives_def)
  then have "recv_n EINTR 4 [] ''abc'' (replicate 100 (Arrived 3, 1)) = None"
    using recv_n_end_unseen [of EINTR 4 "''abc''" "replicate 100 (Arrived 3, 1)"] by (simp del: replicate.simps recv_n.simps)
  then show ?thesis by (simp add: Let_def del: replicate.simps)
qed

text \<open>
  With a timeout, connecting fails on every descriptor but 0, even when the connection was made, and the
  socket is closed; accepting answers no connection: \<^verbatim>\<open>select\<close> is told to look at descriptor 0 only.
\<close>

theorem timed_connect_fails:
  "s \<noteq> 0 \<Longrightarrow> connect_n s writable = (-1, None) \<and> accept_n s readable accepted = None"
proof -
  assume "s \<noteq> 0"
  then have "select_ready 1 {s} fds = {}" for fds by (auto simp: select_ready_def)
  then show ?thesis by (simp add: connect_n_def accept_n_def Let_def)
qed

theorem timed_connect_fails_witness: "connect_n 5 {5} = (-1, None) \<and> accept_n 5 {5} (Some 6) = None"
  using timed_connect_fails [of 5] by simp

end
