(* ===== verification/HttpClient.thy ===== *)
theory HttpClient
  imports HttpConnection SocketIo
begin

text \<open>
  The server's client for requests to other servers, \<^verbatim>\<open>refs/httpserver/http_client.cpp\<close>: the splitting of
  a URI, the text of a request and the reading of a response. What a socket delivers is the list of its
  reads up to the end of the stream; a read until a delimiter that never comes throws, which the
  functions catch and answer with the empty string. The plain connection is made by \<^verbatim>\<open>xxsocket::connect_n\<close>, the
  \<open>connect_n\<close> of \<open>SocketIo\<close>.
\<close>

section \<open>Searching\<close>

definition npos :: nat where
  "npos = 2 ^ 64 - 1"

definition find_first_of :: "char \<Rightarrow> string \<Rightarrow> nat \<Rightarrow> nat" where
  "find_first_of c s from =
     (let n = from + length (takeWhile (\<lambda>x. x \<noteq> c) (drop from s)) in if n < length s then n else npos)"

text \<open>\<open>substr\<close> from a place on, with a length; a place behind the end throws.\<close>

definition substr :: "string \<Rightarrow> nat \<Rightarrow> nat \<Rightarrow> string outcome" where
  "substr s pos n = (if pos > length s then Throws else Returns (take n (drop pos s)))"

section \<open>URIs\<close>

record uri_parts =
  uri_service :: string
  uri_host :: string
  uri_port :: nat
  uri_path :: string

text \<open>The arithmetic of \<^verbatim>\<open>size_t\<close>: without a colon the search goes on at place 2.\<close>

definition parse_uri :: "string \<Rightarrow> uri_parts outcome" where
  "parse_uri uri =
     (let colon = find_first_of CHR '':'' uri 0;
          slash = (colon + 3) mod 2 ^ 64;
          port_colon = find_first_of CHR '':'' uri slash;
          path_slash = find_first_of CHR ''/'' uri slash
      in bind_outcome (substr uri 0 colon) (\<lambda>service.
         bind_outcome
           (if port_colon = npos then
              bind_outcome (substr uri slash ((path_slash + 2 ^ 64 - slash) mod 2 ^ 64)) (\<lambda>host. Returns (host, 0))
            else
              bind_outcome (substr uri (port_colon + 1) npos) (\<lambda>portS.
              bind_outcome (substr uri slash (port_colon - slash)) (\<lambda>host.
                Returns (host, nat (atoi portS mod 2 ^ 16))))) (\<lambda>(host, port).
         bind_outcome (if path_slash \<noteq> npos then substr uri path_slash npos else Returns ''/'') (\<lambda>path.
         Returns \<lparr>uri_service = service, uri_host = host, uri_port = port, uri_path = path\<rparr>))))"

section \<open>Requests\<close>

text \<open>The texts \<^verbatim>\<open>send_http_req_i\<close> and \<^verbatim>\<open>send_https_req_i\<close> write: the second names no content type.\<close>

definition request_text :: "bool \<Rightarrow> string \<Rightarrow> string \<Rightarrow> string \<Rightarrow> string \<Rightarrow> string" where
  "request_text secure host path meth content =
     meth @ '' '' @ path @ '' HTTP/1.0'' @ crlf
     @ ''Host: '' @ host @ crlf
     @ ''Accept: */*'' @ crlf
     @ (if meth = ''POST'' then
          (if secure then [] else ''Content-Type: application/json'' @ crlf)
          @ ''Content-Length: '' @ show_nat (length content) @ crlf
          @ ''Connection: Close'' @ crlf @ crlf
          @ content
        else ''Connection: Close'' @ crlf @ crlf)"

section \<open>Responses\<close>

text \<open>Reading until a delimiter: the buffer and the reads still to come, or \<open>None\<close> at the end of the stream.\<close>

definition has_infix :: "string \<Rightarrow> string \<Rightarrow> bool" where
  "has_infix d s = list_ex (\<lambda>n. take (length d) (drop n s) = d) [0 ..< length s + 1]"

fun read_until :: "string \<Rightarrow> string \<Rightarrow> string list \<Rightarrow> (string \<times> string list) option" where
  "read_until d buf [] = (if has_infix d buf then Some (buf, []) else None)"
| "read_until d buf (c # cs) = (if has_infix d buf then Some (buf, c # cs) else read_until d (buf @ c) cs)"

text \<open>\<^verbatim>\<open>getline\<close>: the line without its newline and the rest; \<open>None\<close> when nothing is left.\<close>

definition get_line :: "string \<Rightarrow> (string \<times> string) option" where
  "get_line s = (if s = [] then None
     else Some (takeWhile (\<lambda>c. c \<noteq> CHR 0x0A) s, drop 1 (dropWhile (\<lambda>c. c \<noteq> CHR 0x0A) s)))"

text \<open>Extraction of an unsigned number; a minus sign negates, too great a number fails.\<close>

definition get_unsigned :: "string \<Rightarrow> (nat \<times> string) option" where
  "get_unsigned s =
     (let t = dropWhile is_space s;
          neg = (t \<noteq> [] \<and> hd t = CHR ''-'');
          u = (if t \<noteq> [] \<and> (hd t = CHR ''-'' \<or> hd t = CHR ''+'') then tl t else t);
          ds = takeWhile is_digit u;
          n = digits_value 0 ds
      in if ds = [] \<or> n \<ge> 2 ^ 32 then None
         else Some (if neg then (2 ^ 32 - n) mod 2 ^ 32 else n, dropWhile is_digit u))"

text \<open>
  The status line: the version, the code, whether the stream has seen the end of its buffer, which
  later reads of lines fail on, and what follows the line.
\<close>

definition status_line :: "string \<Rightarrow> (string \<times> nat \<times> bool \<times> string) option" where
  "status_line buf =
     (let t = dropWhile is_space buf;
          version = takeWhile (\<lambda>c. \<not> is_space c) t
      in if version = [] then None
         else case get_unsigned (dropWhile (\<lambda>c. \<not> is_space c) t) of
             None \<Rightarrow> None
           | Some (code, rest) \<Rightarrow>
               (case get_line rest of None \<Rightarrow> None
                | Some (message, rest') \<Rightarrow> Some (version, code, CHR 0x0A \<notin> set rest, rest')))"

text \<open>Up to the check of the code: the buffer behind the status line and the reads to come.\<close>

definition response_head :: "string list \<Rightarrow> (bool \<times> string \<times> string list) option" where
  "response_head chunks =
     (case read_until crlf [] chunks of
        None \<Rightarrow> None
      | Some (buf, cs) \<Rightarrow>
          (case status_line buf of
             None \<Rightarrow> None
           | Some (version, code, ended, rest) \<Rightarrow>
               if take 5 version \<noteq> ''HTTP/'' \<or> code \<noteq> 200 then None
               else map_option (Pair ended) (read_until (crlf @ crlf) rest cs)))"

text \<open>The header lines up to the blank one; what is left of the buffer.\<close>

function skip_headers :: "string \<Rightarrow> string" where
  "skip_headers buf =
     (case get_line buf of
        None \<Rightarrow> []
      | Some (line, rest) \<Rightarrow> if line = [CHR 0x0D] then rest else skip_headers rest)"
  by pat_completeness auto

termination
proof (relation "measure length")
  fix buf line rest :: string and r
  assume "get_line buf = Some r" "(line, rest) = r"
  then have "buf \<noteq> []" "rest = drop 1 (dropWhile (\<lambda>c. c \<noteq> CHR 0x0A) buf)"
    by (auto simp: get_line_def split: if_splits)
  moreover have "length (dropWhile (\<lambda>c. c \<noteq> CHR 0x0A) buf) \<le> length buf" by (rule length_dropWhile_le)
  ultimately show "(rest, buf) \<in> measure length" by (cases buf) auto
qed simp

declare skip_headers.simps [simp del]

definition http_response :: "string list \<Rightarrow> string" where
  "http_response chunks =
     (case response_head chunks of None \<Rightarrow> []
      | Some (ended, buf, cs) \<Rightarrow> (if ended then buf else skip_headers buf) @ concat cs)"

text \<open>\<^verbatim>\<open>send_https_req_i\<close> drops the whole buffer with the headers.\<close>

definition https_response :: "string list \<Rightarrow> string" where
  "https_response chunks = (case response_head chunks of None \<Rightarrow> [] | Some (ended, buf, cs) \<Rightarrow> concat cs)"

text \<open>
  What boost::asio and the system answer: the descriptor of the socket opened once a host's name is resolved, the
  descriptors writable in time after a connect to a host and port (0 for the service's own), the reads a plain
  connection delivers for the text sent, and those of a secure connection to a host. \<open>None\<close> is an exception.
\<close>

record network =
  net_open :: "string \<Rightarrow> nat option"
  net_writable :: "string \<Rightarrow> nat \<Rightarrow> nat set"
  net_exchange :: "string \<Rightarrow> nat \<Rightarrow> string \<Rightarrow> string list option"
  net_secure :: "string \<Rightarrow> string \<Rightarrow> string list option"

definition send_http_req_i :: "network \<Rightarrow> string \<Rightarrow> nat \<Rightarrow> string \<Rightarrow> string \<Rightarrow> string \<Rightarrow> string" where
  "send_http_req_i net host port path meth content =
     (case net_open net host of
        None \<Rightarrow> []
      | Some fd \<Rightarrow>
          if fst (connect_n fd (net_writable net host port)) \<noteq> 0 then []
          else case net_exchange net host port (request_text False host path meth content) of
              None \<Rightarrow> []
            | Some chunks \<Rightarrow> http_response chunks)"

text \<open>For a secure connection the port is set on a copy of the endpoint that is not used.\<close>

definition send_https_req_i :: "network \<Rightarrow> string \<Rightarrow> nat \<Rightarrow> string \<Rightarrow> string \<Rightarrow> string \<Rightarrow> string" where
  "send_https_req_i net host port path meth content =
     (case net_secure net host (request_text True host path meth content) of
        None \<Rightarrow> []
      | Some chunks \<Rightarrow> https_response chunks)"

text \<open>The function the handlers call.\<close>

definition send_http_req :: "network \<Rightarrow> string \<Rightarrow> string \<Rightarrow> string \<Rightarrow> string outcome" where
  "send_http_req net uri meth content =
     bind_outcome (parse_uri uri) (\<lambda>u.
       if uri_service u = ''http'' then Returns (send_http_req_i net (uri_host u) (uri_port u) (uri_path u) meth content)
       else if uri_service u = ''https'' then Returns (send_https_req_i net (uri_host u) (uri_port u) (uri_path u) meth content)
       else Returns [])"

section \<open>URIs that are read\<close>

lemma takeWhile_other: "c \<notin> set b \<Longrightarrow> takeWhile (\<lambda>x. x \<noteq> c) b = b"
  by (auto simp: takeWhile_eq_all_conv)

lemma find_first_of_at:
  "c \<notin> set b \<Longrightarrow> find_first_of c (a @ b @ c # rest) (length a) = length a + length b"
proof -
  assume "c \<notin> set b"
  then have "takeWhile (\<lambda>x. x \<noteq> c) (b @ c # rest) = b" by (subst takeWhile_append2) auto
  then show ?thesis by (simp add: find_first_of_def Let_def)
qed

lemma find_first_of_none: "c \<notin> set b \<Longrightarrow> find_first_of c (a @ b) (length a) = npos"
  by (simp add: find_first_of_def takeWhile_other Let_def)

text \<open>A URI with its parts; port 0 is none.\<close>

definition uri_start :: "string \<Rightarrow> string" where
  "uri_start service = service @ ''://''"

definition authority :: "string \<Rightarrow> nat \<Rightarrow> string" where
  "authority host port = host @ (if port = 0 then [] else CHR '':'' # show_nat port)"

definition uri_string :: "uri_parts \<Rightarrow> string" where
  "uri_string u = uri_start (uri_service u) @ authority (uri_host u) (uri_port u) @ uri_path u"

definition wf_uri :: "uri_parts \<Rightarrow> bool" where
  "wf_uri u \<longleftrightarrow> CHR '':'' \<notin> set (uri_service u) \<and> CHR '':'' \<notin> set (uri_host u) \<and> CHR ''/'' \<notin> set (uri_host u)
     \<and> uri_port u < 2 ^ 16 \<and> (uri_port u = 0 \<longrightarrow> CHR '':'' \<notin> set (uri_path u))
     \<and> (uri_path u = [] \<or> hd (uri_path u) = CHR ''/'') \<and> length (uri_string u) < 2 ^ 63"

definition slash_path :: "string \<Rightarrow> string" where
  "slash_path path = (if path = [] then ''/'' else path)"

lemma substr_behind [simp]: "length b \<le> npos \<Longrightarrow> substr (a @ b) (length a) npos = Returns b"
  by (simp add: substr_def)

lemma substr_part [simp]: "substr (a @ b @ rest) (length a) (length b) = Returns b"
  by (simp add: substr_def)

lemma uri_start_length: "length (uri_start service) < 2 ^ 63 \<Longrightarrow> (length service + 3) mod 2 ^ 64 = length (uri_start service)"
  by (simp add: uri_start_def)

lemma parse_uri_start:
  assumes "CHR '':'' \<notin> set service"
  shows "find_first_of CHR '':'' (uri_start service @ rest) 0 = length service"
    and "substr (uri_start service @ rest) 0 (length service) = Returns service"
  using find_first_of_at [of "CHR '':''" service "[]" "''//'' @ rest"] assms
  by (simp_all add: substr_def uri_start_def)

lemma path_found:
  assumes "CHR ''/'' \<notin> set b" "path = [] \<or> hd path = CHR ''/''"
  shows "find_first_of CHR ''/'' (a @ b @ path) (length a) = (if path = [] then npos else length a + length b)"
proof (cases path)
  case Nil
  then show ?thesis using find_first_of_none [OF assms(1), of a] by simp
next
  case (Cons x xs)
  then show ?thesis using find_first_of_at [OF assms(1), of a xs] assms(2) by simp
qed

lemma host_cut: "k \<le> m \<Longrightarrow> m < 2 ^ 64 \<Longrightarrow> (m + 2 ^ 64 - k) mod 2 ^ 64 = m - (k :: nat)"
proof -
  assume k: "k \<le> m" and m: "m < 2 ^ 64"
  have "(m + 2 ^ 64 - k) mod 2 ^ 64 = (m - k + 2 ^ 64) mod 2 ^ 64" using k by (intro arg_cong [where f = "\<lambda>n. n mod 2 ^ 64"]) linarith
  also have "\<dots> = (m - k) mod 2 ^ 64" by (rule mod_add_self2)
  also have "\<dots> = m - k" by (rule mod_less) (rule le_less_trans [OF diff_le_self m])
  finally show ?thesis .
qed

text \<open>The pieces \<^verbatim>\<open>parse_uri\<close> takes, from the places it finds.\<close>

lemma parse_uri_without_colon:
  assumes "find_first_of CHR '':'' uri 0 = k" "(k + 3) mod 2 ^ 64 = l" "find_first_of CHR '':'' uri l = npos"
    "find_first_of CHR ''/'' uri l = p" "substr uri 0 k = Returns service"
    "substr uri l ((p + 2 ^ 64 - l) mod 2 ^ 64) = Returns host"
    "(if p \<noteq> npos then substr uri p npos else Returns ''/'') = Returns path"
  shows "parse_uri uri = Returns \<lparr>uri_service = service, uri_host = host, uri_port = 0, uri_path = path\<rparr>"
  unfolding parse_uri_def Let_def assms(1-5) by (simp only: assms(6,7) bind_outcome.simps prod.case if_True simp_thms)

lemma parse_uri_with_colon:
  assumes "find_first_of CHR '':'' uri 0 = k" "(k + 3) mod 2 ^ 64 = l" "find_first_of CHR '':'' uri l = q"
    "find_first_of CHR ''/'' uri l = p" "substr uri 0 k = Returns service" "q \<noteq> npos"
    "substr uri (q + 1) npos = Returns port" "substr uri l (q - l) = Returns host"
    "(if p \<noteq> npos then substr uri p npos else Returns ''/'') = Returns path"
  shows "parse_uri uri = Returns \<lparr>uri_service = service, uri_host = host, uri_port = nat (atoi port mod 2 ^ 16), uri_path = path\<rparr>"
  unfolding parse_uri_def Let_def assms(1-5) by (simp only: assms(6-9) bind_outcome.simps prod.case if_False)

lemma parse_uri_no_port:
  assumes "CHR '':'' \<notin> set service" "CHR '':'' \<notin> set host" "CHR ''/'' \<notin> set host" "CHR '':'' \<notin> set path"
    "path = [] \<or> hd path = CHR ''/''" "length (uri_start service @ host @ path) < 2 ^ 63"
  shows "parse_uri (uri_start service @ host @ path)
    = Returns \<lparr>uri_service = service, uri_host = host, uri_port = 0, uri_path = slash_path path\<rparr>"
proof (rule parse_uri_without_colon)
  let ?s = "uri_start service"
  let ?p = "if path = [] then npos else length ?s + length host"
  have l: "length ?s < 2 ^ 63" "length ?s + length host < 2 ^ 63" "length host \<le> npos" using assms(6) by (simp_all add: npos_def)
  show "(length service + 3) mod 2 ^ 64 = length ?s" by (rule uri_start_length [OF l(1)])
  show "find_first_of CHR '':'' (?s @ host @ path) (length ?s) = npos"
    using assms by (intro find_first_of_none) auto
  show "find_first_of CHR ''/'' (?s @ host @ path) (length ?s) = ?p" by (rule path_found [OF assms(3,5)])
  have "(?p + 2 ^ 64 - length ?s) mod 2 ^ 64 = ?p - length ?s" using l by (intro host_cut) (simp_all add: npos_def)
  then show "substr (?s @ host @ path) (length ?s) ((?p + 2 ^ 64 - length ?s) mod 2 ^ 64) = Returns host"
    using l by (simp add: substr_def npos_def)
  have "substr (?s @ host @ path) (length ?s + length host) npos = Returns path"
    using substr_behind [of path "?s @ host"] assms(6) by (simp add: npos_def)
  then show "(if ?p \<noteq> npos then substr (?s @ host @ path) ?p npos else Returns ''/'') = Returns (slash_path path)"
    using l(2) by (auto simp: slash_path_def npos_def)
qed (rule parse_uri_start [OF assms(1)])+

lemma parse_uri_port:
  assumes "CHR '':'' \<notin> set service" "CHR '':'' \<notin> set host" "CHR ''/'' \<notin> set host" "port < 2 ^ 16"
    "path = [] \<or> hd path = CHR ''/''" "length (uri_start service @ host @ CHR '':'' # show_nat port @ path) < 2 ^ 63"
  shows "parse_uri (uri_start service @ host @ CHR '':'' # show_nat port @ path)
    = Returns \<lparr>uri_service = service, uri_host = host, uri_port = port, uri_path = slash_path path\<rparr>"
proof -
  let ?s = "uri_start service" and ?b = "host @ CHR '':'' # show_nat port"
  let ?u = "?s @ host @ CHR '':'' # show_nat port @ path"
  let ?p = "if path = [] then npos else length ?s + length ?b"
  have l: "length ?s < 2 ^ 63" "length ?s + length host < 2 ^ 63" "length ?s + length ?b < 2 ^ 63" using assms(6) by simp_all
  have "parse_uri ?u = Returns \<lparr>uri_service = service, uri_host = host,
      uri_port = nat (atoi (show_nat port @ path) mod 2 ^ 16), uri_path = slash_path path\<rparr>"
  proof (rule parse_uri_with_colon)
    show "(length service + 3) mod 2 ^ 64 = length ?s" by (rule uri_start_length [OF l(1)])
    show "find_first_of CHR '':'' ?u (length ?s) = length ?s + length host" by (rule find_first_of_at [OF assms(2)])
    have "\<not> is_digit CHR ''/''" by code_simp
    then have "CHR ''/'' \<notin> set (show_nat port)" using is_digit_show_nat by blast
    then show "find_first_of CHR ''/'' ?u (length ?s) = ?p" using path_found [of ?b path ?s] assms(3,5) by simp
    show "length ?s + length host \<noteq> npos" using l(2) by (simp add: npos_def)
    show "substr ?u (length ?s + length host + 1) npos = Returns (show_nat port @ path)"
      using substr_behind [of "show_nat port @ path" "?s @ host @ '':''"] assms(6) by (simp add: npos_def)
    show "substr ?u (length ?s) (length ?s + length host - length ?s) = Returns host" by simp
    have "substr ?u (length ?s + length ?b) npos = Returns path"
      using substr_behind [of path "?s @ ?b"] assms(6) by (simp add: npos_def)
    then show "(if ?p \<noteq> npos then substr ?u ?p npos else Returns ''/'') = Returns (slash_path path)"
      using l(3) by (auto simp: slash_path_def npos_def)
  qed (rule parse_uri_start [OF assms(1)])+
  moreover have "\<not> is_digit CHR ''/''" by code_simp
  then have "atoi (show_nat port @ path) = int port" using assms(4,5) by (intro atoi_show_nat_append) auto
  ultimately show ?thesis using assms(4) by simp
qed

lemma parse_uri_string:
  "wf_uri u \<Longrightarrow> parse_uri (uri_string u) = Returns (u\<lparr>uri_path := slash_path (uri_path u)\<rparr>)"
  using parse_uri_no_port [of "uri_service u" "uri_host u" "uri_path u"]
    parse_uri_port [of "uri_service u" "uri_host u" "uri_port u" "uri_path u"]
  by (cases u) (auto simp: wf_uri_def uri_string_def authority_def)

text \<open>Without a port, a colon anywhere behind the host is taken for the port's.\<close>

lemma parse_uri_colon_in_path:
  assumes "CHR '':'' \<notin> set service" "CHR '':'' \<notin> set (host @ path)" "CHR ''/'' \<notin> set host" "hd path = CHR ''/''" "path \<noteq> []"
    "length (uri_start service @ (host @ path) @ CHR '':'' # rest) < 2 ^ 63"
  shows "parse_uri (uri_start service @ (host @ path) @ CHR '':'' # rest)
    = Returns \<lparr>uri_service = service, uri_host = host @ path, uri_port = nat (atoi rest mod 2 ^ 16), uri_path = path @ CHR '':'' # rest\<rparr>"
proof (rule parse_uri_with_colon)
  let ?s = "uri_start service" and ?u = "uri_start service @ (host @ path) @ CHR '':'' # rest"
  have l: "length ?s < 2 ^ 63" "length ?s + length (host @ path) < 2 ^ 63" "length ?s + length host < 2 ^ 63" using assms(6) by simp_all
  show "(length service + 3) mod 2 ^ 64 = length ?s" by (rule uri_start_length [OF l(1)])
  show "find_first_of CHR '':'' ?u (length ?s) = length ?s + length (host @ path)" by (rule find_first_of_at [OF assms(2)])
  show "find_first_of CHR ''/'' ?u (length ?s) = length ?s + length host"
    using path_found [of host "path @ CHR '':'' # rest" ?s] assms by simp
  show "length ?s + length (host @ path) \<noteq> npos" using l(2) by (simp add: npos_def)
  show "substr ?u (length ?s + length (host @ path) + 1) npos = Returns rest"
    using substr_behind [of rest "?s @ host @ path @ '':''"] assms(6) by (simp add: npos_def)
  show "substr ?u (length ?s) (length ?s + length (host @ path) - length ?s) = Returns (host @ path)"
    using substr_part [of ?s "host @ path" "CHR '':'' # rest"] by simp
  have "substr ?u (length ?s + length host) npos = Returns (path @ CHR '':'' # rest)"
    using substr_behind [of "path @ CHR '':'' # rest" "?s @ host"] assms(6) by (simp add: npos_def)
  then show "(if length ?s + length host \<noteq> npos then substr ?u (length ?s + length host) npos else Returns ''/'')
      = Returns (path @ CHR '':'' # rest)" using l(3) by (simp add: npos_def)
qed (rule parse_uri_start [OF assms(1)])+

section \<open>Responses that are read\<close>

lemma crlf_code: "crlf = [CHR 0x0D, CHR 0x0A]"
  by (simp add: crlf_def CR_def LF_def)

lemma has_infix_at: "has_infix d s \<Longrightarrow> \<exists>n. n + length d \<le> length s \<and> take (length d) (drop n s) = d"
proof -
  assume "has_infix d s"
  then obtain n where n: "take (length d) (drop n s) = d" "n \<le> length s" unfolding has_infix_def list_ex_iff by fastforce
  have "n + length d \<le> length s" using arg_cong [OF n(1), of length] n(2) by simp
  then show ?thesis using n(1) by blast
qed

lemma has_infix_middle: "has_infix d (a @ d @ b)"
  by (auto simp: has_infix_def list_ex_iff intro!: bexI [of _ "length a"])

lemma read_until_Some:
  "read_until d buf cs = Some (b, rest) \<Longrightarrow> b @ concat rest = buf @ concat cs \<and> has_infix d b"
  by (induction d buf cs arbitrary: b rest rule: read_until.induct) (auto split: if_splits)

lemma read_until_finds: "has_infix d (buf @ concat cs) \<Longrightarrow> \<exists>b rest. read_until d buf cs = Some (b, rest)"
  by (induction d buf cs rule: read_until.induct) auto

text \<open>Two lists with the same concatenation, one of whose first parts holds a delimiter of the other's first part.\<close>

lemma read_until_covers:
  assumes "concat cs = text" "has_infix d text"
    and first: "\<And>n. take (length d) (drop n text) = d \<Longrightarrow> length head \<le> n + length d"
    and "text = head @ tail"
  shows "\<exists>z rest. read_until d [] cs = Some (head @ z, rest) \<and> z @ concat rest = tail"
proof -
  obtain b rest where b: "read_until d [] cs = Some (b, rest)" using read_until_finds [of d "[]" cs] assms(1,2) by auto
  then have c: "b @ concat rest = text" "has_infix d b" using read_until_Some [OF b] assms(1) by simp_all
  obtain n where n: "n + length d \<le> length b" "take (length d) (drop n b) = d" using has_infix_at [OF c(2)] by blast
  then have "take (length d) (drop n text) = d" by (simp add: c(1) [symmetric])
  then have "length head \<le> length b" using first n(1) by fastforce
  then have "b = head @ drop (length head) b \<and> drop (length head) b @ concat rest = tail"
    using c(1) assms(4) by (metis append_eq_append_conv_if append_take_drop_id same_append_eq append.assoc)
  then show ?thesis using b by metis
qed

text \<open>A delimiter that starts with a return is not found inside a line.\<close>

lemma delimiter_behind:
  assumes "take k (drop n (l @ rest)) = CHR 0x0D # d" "CHR 0x0D \<notin> set l"
  shows "length l \<le> n"
proof (rule ccontr)
  assume "\<not> length l \<le> n"
  then have "drop n (l @ rest) = l ! n # drop (Suc n) l @ rest" by (simp add: Cons_nth_drop_Suc [symmetric])
  then have "l ! n = CHR 0x0D" using assms(1) by (cases k) simp_all
  then show False using assms(2) \<open>\<not> length l \<le> n\<close> by (metis nth_mem not_le)
qed

lemma status_line_ok: "status_line (status_string Ok @ rest) = Some (''HTTP/1.0'', 200, False, rest)"
proof -
  have v: "dropWhile is_space (''HTTP/1.0 200 OK'' @ crlf @ rest) = ''HTTP/1.0 200 OK'' @ crlf @ rest"
    "takeWhile (\<lambda>c. \<not> is_space c) (''HTTP/1.0 200 OK'' @ crlf @ rest) = ''HTTP/1.0''"
    "dropWhile (\<lambda>c. \<not> is_space c) (''HTTP/1.0 200 OK'' @ crlf @ rest) = '' 200 OK'' @ crlf @ rest"
    by (simp_all add: is_space_def crlf_code)
  have g: "get_unsigned ('' 200 OK'' @ crlf @ rest) = Some (200, '' OK'' @ crlf @ rest)"
    by (simp add: get_unsigned_def is_space_def is_digit_def less_eq_char_def digit_value_def char_code_def Let_def crlf_code)
  have l: "get_line ('' OK'' @ crlf @ rest) = Some ('' OK'' @ [CHR 0x0D], rest)" "CHR 0x0A \<in> set ('' OK'' @ crlf @ rest)"
    by (simp_all add: get_line_def crlf_code)
  show ?thesis unfolding status_line_def status_string.simps append_assoc v g Let_def option.case prod.case l(1)
    using l(2) by simp
qed

lemma status_line_end: "take 2 (drop n (status_string Ok @ rest)) = crlf \<Longrightarrow> length (status_string Ok) \<le> n + 2"
  using delimiter_behind [of 2 n "''HTTP/1.0 200 OK''" "crlf @ rest"] by (simp add: crlf_code)

text \<open>Header lines: without return or newline inside, and not blank.\<close>

lemma header_line:
  assumes "wf_header h"
  shows "\<exists>l. print_header h = l @ crlf \<and> CHR 0x0D \<notin> set l \<and> CHR 0x0A \<notin> set l \<and> l \<noteq> []"
proof -
  let ?l = "hd_name h @ '': '' @ hd_value h"
  have c: "\<not> token_char CHR 0x0D" "\<not> token_char CHR 0x0A" "is_ctl (schar CHR 0x0D)" "is_ctl (schar CHR 0x0A)" by code_simp+
  have "\<forall>x \<in> set (hd_name h). token_char x" "\<forall>x \<in> set (hd_value h). \<not> is_ctl (schar x)"
    using assms by (simp_all add: wf_header_def list_all_iff)
  then have "CHR 0x0D \<notin> set ?l" "CHR 0x0A \<notin> set ?l" using c by auto
  then show ?thesis by (intro exI [of _ ?l]) (simp add: print_header_def)
qed

lemma header_start: "wf_header h \<Longrightarrow> take 2 (print_header h @ rest) \<noteq> crlf"
proof -
  assume "wf_header h"
  then obtain l where l: "print_header h = l @ crlf" "CHR 0x0D \<notin> set l" "l \<noteq> []" using header_line by blast
  then show ?thesis by (cases l) (auto simp: crlf_code)
qed

lemma blank_line_end:
  assumes "list_all wf_header hs" "hs \<noteq> []" "take 4 (drop n (print_headers hs @ crlf @ content)) = crlf @ crlf"
  shows "length (print_headers hs @ crlf) \<le> n + 4"
  using assms
proof (induction hs arbitrary: n)
  case (Cons h hs)
  obtain l where l: "print_header h = l @ crlf" "CHR 0x0D \<notin> set l" using header_line Cons.prems(1) by auto
  let ?rest = "print_headers hs @ crlf @ content"
  have t: "take 4 (drop n (l @ crlf @ ?rest)) = [CHR 0x0D, CHR 0x0A, CHR 0x0D, CHR 0x0A]"
    using Cons.prems(3) l(1) by (simp add: print_headers_def crlf_code)
  then have "length l \<le> n" using delimiter_behind l(2) by blast
  then obtain k where k: "n = length l + k" using le_Suc_ex by blast
  consider "k = 0" | "k = 1" | m where "k = 2 + m" by (cases k; cases "k - 1") auto
  then show ?case
  proof cases
    case 1
    then have "take 2 ?rest = crlf" using t unfolding k by (simp add: crlf_code eval_nat_numeral)
    then have "hs = []" using header_start Cons.prems(1) by (cases hs) (auto simp: print_headers_def simp del: take_append)
    then show ?thesis using 1 k l(1) by (simp add: print_headers_def crlf_code)
  next
    case 2
    then show ?thesis using t k by (simp add: crlf_code)
  next
    case 3
    then have "take 4 (drop m ?rest) = crlf @ crlf" using t k by (simp add: crlf_code)
    then have "hs \<noteq> [] \<Longrightarrow> length (print_headers hs @ crlf) \<le> m + 4" using Cons.IH Cons.prems(1) by simp
    then show ?thesis using 3 k l(1) by (cases "hs = []") (simp_all add: print_headers_def crlf_code)
  qed
qed simp

lemma get_line_printed: "CHR 0x0A \<notin> set l \<Longrightarrow> get_line (l @ crlf @ z) = Some (l @ [CHR 0x0D], z)"
proof -
  assume "CHR 0x0A \<notin> set l"
  then have "takeWhile (\<lambda>c. c \<noteq> CHR 0x0A) (l @ crlf @ z) = l @ [CHR 0x0D]"
    "dropWhile (\<lambda>c. c \<noteq> CHR 0x0A) (l @ crlf @ z) = CHR 0x0A # z"
    by (auto simp: takeWhile_append dropWhile_append crlf_code)
  then show ?thesis by (simp add: get_line_def) (simp add: crlf_code)
qed

lemma skip_headers_printed: "list_all wf_header hs \<Longrightarrow> skip_headers (print_headers hs @ crlf @ z) = z"
proof (induction hs)
  case Nil
  then show ?case using get_line_printed [of "[]" z] by (simp add: print_headers_def skip_headers.simps [of "crlf @ z"])
next
  case (Cons h hs)
  obtain l where l: "print_header h = l @ crlf" "CHR 0x0A \<notin> set l" "l \<noteq> []" using header_line Cons.prems by auto
  then have "get_line (print_headers (h # hs) @ crlf @ z) = Some (l @ [CHR 0x0D], print_headers hs @ crlf @ z)"
    using get_line_printed [OF l(2), of "print_headers hs @ crlf @ z"] by (simp add: print_headers_def)
  then show ?case using Cons l(3) by (simp add: skip_headers.simps [of "print_headers (h # hs) @ crlf @ z"])
qed

section \<open>Client and server\<close>

text \<open>What \<^verbatim>\<open>http_response\<close> has read of a reply when its headers are done: \<open>z\<close> of the content.\<close>

lemma response_head_reply:
  assumes "concat cs = to_buffers rep" "rep_status rep = Ok" "list_all wf_header (rep_headers rep)" "rep_headers rep \<noteq> []"
  shows "\<exists>z rest. response_head cs = Some (False, print_headers (rep_headers rep) @ crlf @ z, rest) \<and> z @ concat rest = rep_content rep"
proof -
  let ?h = "print_headers (rep_headers rep) @ crlf"
  have b: "to_buffers rep = status_string Ok @ ?h @ rep_content rep" using assms(2) by (simp add: to_buffers_parts)
  have two: "length crlf = 2" and four: "length (crlf @ crlf) = 4" by (simp_all add: crlf_code)
  have "has_infix crlf (to_buffers rep)" unfolding b
    using has_infix_middle [of crlf "''HTTP/1.0 200 OK''" "?h @ rep_content rep"] by simp
  moreover have "length (status_string Ok) \<le> n + length crlf" if "take (length crlf) (drop n (to_buffers rep)) = crlf" for n
    using that unfolding b two by (rule status_line_end)
  ultimately obtain y cs' where y: "read_until crlf [] cs = Some (status_string Ok @ y, cs')" "y @ concat cs' = ?h @ rep_content rep"
    using read_until_covers [OF assms(1) _ _ b] by metis
  obtain hs h where last: "rep_headers rep = hs @ [h]" using assms(4) by (cases "rep_headers rep" rule: rev_cases) auto
  then obtain l where hs: "rep_headers rep = hs @ [h]" "print_header h = l @ crlf" using header_line assms(3) by fastforce
  have "?h @ rep_content rep = (print_headers hs @ l) @ (crlf @ crlf) @ rep_content rep" using hs by (simp add: print_headers_def)
  then have "has_infix (crlf @ crlf) (y @ concat cs')" unfolding y(2) by (metis has_infix_middle)
  moreover have "length ?h \<le> n + length (crlf @ crlf)" if "take (length (crlf @ crlf)) (drop n (y @ concat cs')) = crlf @ crlf" for n
    using that unfolding y(2) four append_assoc by (rule blank_line_end [OF assms(3,4)])
  moreover have "concat (y # cs') = y @ concat cs'" by simp
  ultimately obtain z cs'' where z: "read_until (crlf @ crlf) [] (y # cs') = Some (?h @ z, cs'')" "z @ concat cs'' = rep_content rep"
    using read_until_covers [of "y # cs'" "y @ concat cs'" "crlf @ crlf" ?h "rep_content rep"] y(2) by metis
  have "\<not> has_infix (crlf @ crlf) []" by code_simp
  then have "read_until (crlf @ crlf) y cs' = Some (?h @ z, cs'')" using z(1) by simp
  then have "response_head cs = Some (False, ?h @ z, cs'')"
    unfolding response_head_def y(1) option.case prod.case status_line_ok by (simp del: append_assoc)
  then show ?thesis using z(2) by auto
qed

text \<open>The request the server gets for a request of the client.\<close>

definition client_request :: "string \<Rightarrow> string \<Rightarrow> nat \<Rightarrow> request" where
  "client_request host path n = request_init\<lparr>req_method := ''POST'', req_uri := path, req_major := 1, req_minor := 0,
     req_headers := [\<lparr>hd_name = ''Host'', hd_value = host\<rparr>, \<lparr>hd_name = ''Accept'', hd_value = ''*/*''\<rparr>,
       \<lparr>hd_name = ''Content-Type'', hd_value = ''application/json''\<rparr>, \<lparr>hd_name = ''Content-Length'', hd_value = show_nat n\<rparr>,
       \<lparr>hd_name = ''Connection'', hd_value = ''Close''\<rparr>]\<rparr>"

definition host_text :: "string \<Rightarrow> bool" where
  "host_text s = list_all (\<lambda>c. c \<noteq> CHR '' '' \<and> \<not> is_ctl (schar c)) s"

lemma request_text_printed:
  "request_text False host path ''POST'' content = print_request (client_request host path (length content)) @ content"
proof -
  have "show_nat 1 = ''1''" "show_nat 0 = ''0''" by code_simp+
  then show ?thesis by (simp add: request_text_def client_request_def print_request_def print_header_def)
qed

lemma wf_client_request: "host_text host \<Longrightarrow> host_text path \<Longrightarrow> wf_request (client_request host path n)"
proof -
  assume h: "host_text host" "host_text path"
  have t: "list_all token_char ''Host''" "list_all token_char ''Accept''" "list_all token_char ''Connection''" "list_all token_char ''POST''"
    "list_all (\<lambda>c. \<not> is_ctl (schar c)) ''*/*''" "list_all (\<lambda>c. \<not> is_ctl (schar c)) ''application/json''" "list_all (\<lambda>c. \<not> is_ctl (schar c)) ''Close''"
    by code_simp+
  have l: "list_all wf_header (length_and_type n ''application/json'')" by (rule length_and_type_wf [OF t(6)])
  have v: "list_all (\<lambda>c. \<not> is_ctl (schar c)) host" using h(1) by (auto simp: host_text_def list_all_iff)
  have "wf_header \<lparr>hd_name = ''Host'', hd_value = host\<rparr>" "wf_header \<lparr>hd_name = ''Accept'', hd_value = ''*/*''\<rparr>"
    "wf_header \<lparr>hd_name = ''Connection'', hd_value = ''Close''\<rparr>"
    unfolding wf_header_def header.select_convs using t v by blast+
  then have "list_all wf_header (req_headers (client_request host path n))" using l by (simp add: client_request_def length_and_type_def)
  then show ?thesis using t(4) h(2) by (simp add: wf_request_def client_request_def host_text_def)
qed

lemma announced_client_request: "n < 2 ^ 31 \<Longrightarrow> announced 0 (req_headers (client_request host path n)) = n"
  by (simp add: client_request_def stricmp_eq_def c_tolower_def less_eq_char_def char_code_def atoi_show_nat size_of_int_def)

section \<open>Properties\<close>

text \<open>
  A URI is parsed into its parts: the printed form of a service, a host, a port below 65536 (0 when none
  is given) and a path, empty or starting with a slash and without colon when there is no port, is read back
  with the empty path turned into a slash.
\<close>

theorem uri_parsed:
  "wf_uri u \<Longrightarrow> parse_uri (uri_string u) = Returns (u\<lparr>uri_path := slash_path (uri_path u)\<rparr>)"
  by (rule parse_uri_string)

theorem uri_parsed_witness:
  "parse_uri (uri_string \<lparr>uri_service = ''http'', uri_host = ''h'', uri_port = 80, uri_path = []\<rparr>)
    = Returns \<lparr>uri_service = ''http'', uri_host = ''h'', uri_port = 80, uri_path = ''/''\<rparr>"
  using uri_parsed [of "\<lparr>uri_service = ''http'', uri_host = ''h'', uri_port = 80, uri_path = []\<rparr>"]
  by (simp add: wf_uri_def uri_string_def uri_start_def authority_def slash_path_def show_nat.simps)

text \<open>
  Without a port a colon in the path is taken for the port's: the host the client then resolves is the
  host with the path up to the colon, and the port what follows the colon.
\<close>

theorem colon_in_path_misread:
  assumes "CHR '':'' \<notin> set service" "CHR '':'' \<notin> set (host @ path)" "CHR ''/'' \<notin> set host" "hd path = CHR ''/''" "path \<noteq> []"
    "length (uri_start service @ (host @ path) @ CHR '':'' # rest) < 2 ^ 63"
  shows "parse_uri (uri_start service @ (host @ path) @ CHR '':'' # rest)
    = Returns \<lparr>uri_service = service, uri_host = host @ path, uri_port = nat (atoi rest mod 2 ^ 16), uri_path = path @ CHR '':'' # rest\<rparr>"
  by (rule parse_uri_colon_in_path [OF assms])

theorem colon_in_path_misread_witness:
  "parse_uri ''http://h/a:b'' = Returns \<lparr>uri_service = ''http'', uri_host = ''h/a'', uri_port = 0, uri_path = ''/a:b''\<rparr>"
proof -
  have "atoi ''b'' = 0" by code_simp
  then show ?thesis using colon_in_path_misread [of "''http''" "''h''" "''/a''" "''b''"] by (simp add: uri_start_def)
qed

lemma connects_only_zero: "fst (connect_n fd writable) = 0 \<longleftrightarrow> fd = 0 \<and> 0 \<in> writable"
proof -
  have "select_ready 1 {fd} writable = (if fd = 0 \<and> 0 \<in> writable then {0} else {})"
    by (cases "fd = 0"; cases "fd \<in> writable") (simp_all add: select_ready_def)
  then show ?thesis by (auto simp: connect_n_def Let_def)
qed

text \<open>
  C2. The client against the server: a POST to an http URI arrives at the server, in whatever pieces, as one request
  with the URI's path and the content. When the reply has the status OK and well-formed headers, at least one,
  the client returns the reply's content, in whatever pieces that arrives, if its socket has the descriptor 0 and
  becomes writable in time. With any other descriptor its \<^verbatim>\<open>connect_n\<close> fails and it returns the empty string.
\<close>

theorem post_exchange:
  assumes "wf_uri u" and "uri_service u = ''http''" and "host_text (uri_host u)" and "host_text (slash_path (uri_path u))"
    and req: "req = client_request (uri_host u) (slash_path (uri_path u)) (length content)"
    and "length (print_request req @ content) \<le> max_http_package_size"
    and server: "concat (map snd ds) = request_text False (uri_host u) (slash_path (uri_path u)) ''POST'' content"
      "\<forall>(t, d) \<in> set ds. d \<noteq> []" "c = conn_run h (map (\<lambda>(t, d). Data t d) ds) (connection_start now)"
    and reply: "rep_status (h (received req content)) = Ok" "list_all wf_header (rep_headers (h (received req content)))"
      "rep_headers (h (received req content)) \<noteq> []"
    and network: "net_open net (uri_host u) = Some fd"
      "net_exchange net (uri_host u) (uri_port u) (request_text False (uri_host u) (slash_path (uri_path u)) ''POST'' content) = Some cs"
      "concat cs = concat (written c)"
  shows "handled c = [received req content]
    \<and> send_http_req net (uri_string u) ''POST'' content
      = Returns (if fd = 0 \<and> 0 \<in> net_writable net (uri_host u) (uri_port u) then rep_content (h (received req content)) else [])"
proof -
  have n: "length content < 2 ^ 31" using assms(6) by (simp add: max_http_package_size_def)
  have m: "stricmp_eq (req_method req) ''POST''" unfolding req by code_simp
  have "answered h (received req content) (connection_start now) c" unfolding server(3)
    using wf_client_request [OF assms(3,4)] announced_client_request [OF n] server(1,2) assms(6) m
    by (intro post_answered) (simp_all add: req request_text_printed)
  then have c: "handled c = [received req content]" "written c = [to_buffers (h (received req content))]"
    by (simp_all add: answered_def connection_start_def)
  then have "concat cs = to_buffers (h (received req content))" using network(3) by simp
  from response_head_reply [OF this reply]
  have "http_response cs = rep_content (h (received req content))"
    using reply(2) by (auto simp: http_response_def skip_headers_printed)
  then have "send_http_req_i net (uri_host u) (uri_port u) (slash_path (uri_path u)) ''POST'' content
      = (if fd = 0 \<and> 0 \<in> net_writable net (uri_host u) (uri_port u) then rep_content (h (received req content)) else [])"
    using network(1,2) by (simp add: send_http_req_i_def connects_only_zero)
  then show ?thesis using c assms(2) by (simp add: send_http_req_def parse_uri_string [OF assms(1)])
qed

definition echo_server :: "request \<Rightarrow> reply" where
  "echo_server q = \<lparr>rep_status = Ok, rep_headers = length_and_type (length (req_content q)) ''text/plain'', rep_content = req_content q\<rparr>"

definition echo_uri :: uri_parts where
  "echo_uri = \<lparr>uri_service = ''http'', uri_host = ''h'', uri_port = 0, uri_path = ''/a''\<rparr>"

definition echo_network :: "nat \<Rightarrow> network" where
  "echo_network fd = \<lparr>net_open = (\<lambda>host. Some fd), net_writable = (\<lambda>host port. {fd}),
     net_exchange = (\<lambda>host port sent_text. Some (written (conn_run echo_server [Data 1 sent_text] (connection_start 0)))),
     net_secure = (\<lambda>host sent_text. None)\<rparr>"

theorem post_exchange_witness:
  "send_http_req (echo_network 0) ''http://h/a'' ''POST'' ''{}'' = Returns ''{}''
    \<and> send_http_req (echo_network 5) ''http://h/a'' ''POST'' ''{}'' = Returns []"
proof -
  let ?req = "client_request ''h'' ''/a'' (length ''{}'')" and ?sent = "request_text False ''h'' ''/a'' ''POST'' ''{}''"
  let ?c = "conn_run echo_server (map (\<lambda>(t, d). Data t d) [(1, ?sent)]) (connection_start 0)"
  let ?rep = "echo_server (received ?req ''{}'')"
  have u: "uri_string echo_uri = ''http://h/a''" by (simp add: echo_uri_def uri_string_def uri_start_def authority_def)
  have p: "uri_host echo_uri = ''h''" "slash_path (uri_path echo_uri) = ''/a''" "uri_port echo_uri = 0" "uri_service echo_uri = ''http''"
    by (simp_all add: echo_uri_def slash_path_def)
  have "wf_uri echo_uri" by (simp add: wf_uri_def u) (simp add: echo_uri_def)
  moreover have "host_text (uri_host echo_uri)" "host_text (slash_path (uri_path echo_uri))" unfolding p by code_simp+
  moreover have "length (print_request ?req @ ''{}'') \<le> max_http_package_size" by code_simp
  moreover have "\<forall>(t, d) \<in> set [(1 :: int, ?sent)]. d \<noteq> []" by code_simp
  moreover have "list_all (\<lambda>c. \<not> is_ctl (schar c)) ''text/plain''" by code_simp
  then have "list_all wf_header (rep_headers ?rep)" by (simp only: echo_server_def reply.select_convs length_and_type_wf)
  moreover have "rep_headers ?rep \<noteq> []" "rep_status ?rep = Ok" by (simp_all add: echo_server_def length_and_type_def)
  moreover have "net_exchange (echo_network fd) ''h'' 0 ?sent = Some (written ?c)" "net_open (echo_network fd) ''h'' = Some fd"
      "net_writable (echo_network fd) ''h'' 0 = {fd}" for fd
    by (simp_all only: echo_network_def network.select_convs list.map prod.case)
  ultimately have "send_http_req (echo_network fd) (uri_string echo_uri) ''POST'' ''{}'' = Returns (if fd = 0 then rep_content ?rep else [])" for fd
    using post_exchange [of echo_uri ?req "''{}''" "[(1, ?sent)]" ?c echo_server 0 "echo_network fd" fd "written ?c"] p by auto
  then show ?thesis by (simp add: u echo_server_def received_def)
qed

text \<open>
  Over https the content that comes in the same reads as the headers is lost: the result is what the
  reads behind them bring, so a reply delivered in one read is taken to be empty.
\<close>

theorem https_content_lost:
  assumes "concat cs = to_buffers rep" "rep_status rep = Ok" "list_all wf_header (rep_headers rep)" "rep_headers rep \<noteq> []"
  shows "(\<exists>lost. lost @ https_response cs = rep_content rep) \<and> (length cs = 1 \<longrightarrow> https_response cs = [])"
proof -
  obtain z rest where z: "response_head cs = Some (False, print_headers (rep_headers rep) @ crlf @ z, rest)" "z @ concat rest = rep_content rep"
    using response_head_reply [OF assms] by blast
  then have r: "https_response cs = concat rest" by (simp add: https_response_def)
  have "concat rest = []" if one: "length cs = 1"
  proof -
    obtain d where "cs = [d]" using one by (cases cs) auto
    moreover have "\<not> has_infix crlf []" by code_simp
    ultimately show ?thesis using z(1) by (auto simp: response_head_def split: option.splits prod.splits if_splits)
  qed
  then show ?thesis using z(2) r by auto
qed

theorem https_content_lost_witness:
  "https_response [to_buffers (echo_server (request_init\<lparr>req_content := ''paid''\<rparr>))] = []"
proof -
  let ?rep = "echo_server (request_init\<lparr>req_content := ''paid''\<rparr>)"
  have "list_all (\<lambda>c. \<not> is_ctl (schar c)) ''text/plain''" by code_simp
  then have "list_all wf_header (rep_headers ?rep)" by (simp only: echo_server_def reply.select_convs length_and_type_wf)
  moreover have "rep_headers ?rep \<noteq> []" "rep_status ?rep = Ok" by (simp_all add: echo_server_def length_and_type_def)
  moreover have "concat [to_buffers ?rep] = to_buffers ?rep" "length [to_buffers ?rep] = 1" by simp_all
  ultimately show ?thesis using https_content_lost by blast
qed

end
