(* ===== verification/JsonMinify.thy ===== *)
theory JsonMinify
  imports JsonRoundtrip
begin

text \<open>
  \<^verbatim>\<open>cJSON_Minify\<close> of \<^verbatim>\<open>refs/httpserver/thelib/utils/cjson.cpp\<close>: it takes blanks and comments out of a text
  in place. The text is the characters before the NUL; a step past the NUL is an access out of bounds.
  The writes never overtake the reads, so the result is a text of its own here.
\<close>

section \<open>The loop\<close>

definition blank :: "char \<Rightarrow> bool" where
  "blank c = (c \<in> {CHR '' '', CHR 0x09, CHR 0x0D, CHR 0x0A})"

text \<open>A string literal behind its quote: the copy with the closing quote, and the rest.\<close>

fun minify_string :: "string \<Rightarrow> (string \<times> string) outcome" where
  "minify_string [] = OutOfBounds"
| "minify_string (c # cs) =
     (if c = QUOTE then Returns ([QUOTE], cs)
      else if c = BACKSLASH then
        (case cs of [] \<Rightarrow> OutOfBounds
         | d # ds \<Rightarrow> bind_outcome (minify_string ds) (\<lambda>(t, rest). Returns (c # d # t, rest)))
      else bind_outcome (minify_string cs) (\<lambda>(t, rest). Returns (c # t, rest)))"

text \<open>A comment from its slash on: without an end, the two steps behind it leave the text.\<close>

fun skip_comment :: "string \<Rightarrow> string outcome" where
  "skip_comment [] = OutOfBounds"
| "skip_comment (c # cs) = (if c = CHR ''*'' \<and> starts CHR ''/'' cs then Returns (tl cs) else skip_comment cs)"

lemma minify_string_shorter: "minify_string s = Returns (t, rest) \<Longrightarrow> length t + length rest = length s"
proof (induction s arbitrary: t rest rule: minify_string.induct)
  case (2 c cs)
  then show ?case by (cases cs) (auto simp: bind_outcome_Returns_iff split: if_splits)
qed simp

lemma skip_comment_shorter: "skip_comment s = Returns rest \<Longrightarrow> length rest < length s"
  by (induction s arbitrary: rest rule: skip_comment.induct) (auto split: if_splits dest!: less_SucI)

function cJSON_Minify :: "string \<Rightarrow> string outcome" where
  "cJSON_Minify [] = Returns []"
| "cJSON_Minify (c # cs) =
     (if blank c then cJSON_Minify cs
      else if c = CHR ''/'' \<and> starts CHR ''/'' cs then cJSON_Minify (dropWhile (\<lambda>x. x \<noteq> CHR 0x0A) cs)
      else if c = CHR ''/'' \<and> starts CHR ''*'' cs then
        (case skip_comment (c # cs) of Returns rest \<Rightarrow> cJSON_Minify rest | _ \<Rightarrow> OutOfBounds)
      else if c = QUOTE then
        (case minify_string cs of
           Returns (t, rest) \<Rightarrow> bind_outcome (cJSON_Minify rest) (\<lambda>u. Returns (c # t @ u))
         | _ \<Rightarrow> OutOfBounds)
      else bind_outcome (cJSON_Minify cs) (\<lambda>u. Returns (c # u)))"
  by pat_completeness auto

termination
  by (relation "measure length")
    (auto dest: skip_comment_shorter minify_string_shorter simp del: skip_comment.simps
      intro: le_imp_less_Suc length_dropWhile_le)

section \<open>Writes stay behind reads\<close>

lemma minify_length: "cJSON_Minify s = Returns t \<Longrightarrow> length t \<le> length s"
proof (induction s arbitrary: t rule: cJSON_Minify.induct)
  case (2 c cs)
  have d: "length (dropWhile (\<lambda>x. x \<noteq> CHR 0x0A) cs) \<le> length cs" by (rule length_dropWhile_le)
  consider "blank c" | "\<not> blank c" "c = CHR ''/''" "starts CHR ''/'' cs"
    | rest where "\<not> blank c" "c = CHR ''/''" "\<not> starts CHR ''/'' cs" "starts CHR ''*'' cs" "skip_comment (c # cs) = Returns rest" "cJSON_Minify rest = Returns t"
    | u rest v where "\<not> blank c" "c = QUOTE" "minify_string cs = Returns (u, rest)" "cJSON_Minify rest = Returns v" "t = c # u @ v"
    | u where "\<not> blank c" "cJSON_Minify cs = Returns u" "t = c # u" "c \<noteq> QUOTE" "c = CHR ''/'' \<longrightarrow> \<not> starts CHR ''/'' cs \<and> \<not> starts CHR ''*'' cs"
    using 2(6) by (auto simp: bind_outcome_Returns_iff simp del: skip_comment.simps split: if_splits outcome.splits prod.splits)
  then show ?case
  proof cases
    case 1
    then show ?thesis using 2(1) 2(6) by fastforce
  next
    case 2
    then show ?thesis using "2.IH"(2) "2.prems" d by fastforce
  next
    case (3 rest)
    then show ?thesis using "2.IH"(3) skip_comment_shorter [OF 3(5)] by fastforce
  next
    case (4 u rest v)
    then have "c \<noteq> CHR ''/''" by (simp add: QUOTE_def)
    then have "length v \<le> length rest" using "2.IH"(4) 4 by simp
    then show ?thesis using minify_string_shorter [OF 4(3)] 4(5) by simp
  next
    case (5 u)
    then show ?thesis using "2.IH"(5) by fastforce
  qed
qed simp

section \<open>Pieces of a text\<close>

text \<open>A piece \<open>s\<close> that becomes \<open>t\<close> before any rest.\<close>

definition minifies :: "string \<Rightarrow> string \<Rightarrow> bool" where
  "minifies s t = (\<forall>rest. cJSON_Minify (s @ rest) = bind_outcome (cJSON_Minify rest) (\<lambda>u. Returns (t @ u)))"

definition kept :: "char \<Rightarrow> bool" where
  "kept c = (\<not> blank c \<and> c \<noteq> CHR ''/'' \<and> c \<noteq> QUOTE)"

lemma bind_outcome_cong_Returns: "bind_outcome m (\<lambda>u. Returns u) = m"
  by (cases m) simp_all

lemma minifies_append: "minifies s t \<Longrightarrow> minifies s' t' \<Longrightarrow> minifies (s @ s') (t @ t')"
proof -
  assume "minifies s t" "minifies s' t'"
  then have "cJSON_Minify ((s @ s') @ rest) = bind_outcome (cJSON_Minify rest) (\<lambda>u. Returns ((t @ t') @ u))" for rest
    by (cases "cJSON_Minify rest") (simp_all add: minifies_def)
  then show ?thesis by (simp add: minifies_def)
qed

lemma minifies_Nil: "minifies [] []"
  by (simp add: minifies_def bind_outcome_cong_Returns)

lemma minifies_kept: "list_all kept s \<Longrightarrow> minifies s s"
proof (induction s)
  case Nil
  show ?case by (rule minifies_Nil)
next
  case (Cons c s)
  have "minifies [c] [c]" using Cons.prems by (simp add: minifies_def kept_def)
  with Cons show ?case using minifies_append [of "[c]" "[c]" s s] by simp
qed

lemma minifies_blank: "list_all blank s \<Longrightarrow> minifies s []"
proof (induction s)
  case Nil
  show ?case by (rule minifies_Nil)
next
  case (Cons c s)
  have "minifies [c] []" using Cons.prems by (simp add: minifies_def bind_outcome_cong_Returns)
  with Cons show ?case using minifies_append [of "[c]" "[]" s "[]"] by simp
qed

lemma minify_string_printed:
  "minify_string (concat (map escape s) @ QUOTE # rest) = Returns (concat (map escape s) @ [QUOTE], rest)"
proof (induction s)
  case Nil
  then show ?case by simp
next
  case (Cons c s)
  have q: "BACKSLASH \<noteq> QUOTE" "CHR ''0'' \<noteq> QUOTE" "CHR ''0'' \<noteq> BACKSLASH"
    by (simp_all add: QUOTE_def BACKSLASH_def)
  have h: "m < 16 \<Longrightarrow> hex_char m \<noteq> QUOTE \<and> hex_char m \<noteq> BACKSLASH" for m
    by (auto simp: char_code_eq special_codes hex_char_def)
  show ?case
  proof (cases c rule: escape_cases)
    case plain
    then show ?thesis using Cons by simp
  next
    case (simple d)
    then show ?thesis using Cons q by simp
  next
    case unicode
    then show ?thesis using Cons q h [of "char_code c div 16"] h [of "char_code c mod 16"] by simp
  qed
qed

lemma minifies_printed_string: "print_string_ptr s = Returns out \<Longrightarrow> minifies out out"
proof -
  assume "print_string_ptr s = Returns out"
  then have out: "out = QUOTE # concat (map escape s) @ [QUOTE]" by (simp add: print_string_total)
  have "\<not> blank QUOTE" "QUOTE \<noteq> CHR ''/''" by (simp_all add: blank_def QUOTE_def)
  then show ?thesis unfolding out minifies_def using minify_string_printed [of s] by simp
qed

lemma kept_chars [simp]:
  "kept CHR '',''" "kept CHR '':''" "kept CHR ''['' " "kept CHR '']''" "kept CHR ''{''" "kept CHR ''}''" "kept CHR ''-''" "blank CHR '' ''" "blank CHR 0x0A"
  by (simp_all add: kept_def blank_def QUOTE_def)

lemma minifies_indent [simp]: "minifies (indent n) []"
  by (rule minifies_blank) (simp add: indent_def list_all_iff)

lemmas minifies_intros = minifies_append minifies_kept minifies_blank minifies_Nil minifies_indent

lemma minifies_items: "list_all2 minifies es es' \<Longrightarrow> minifies (compose_items fmt es) (compose_items False es')"
proof (induction es es' rule: list_all2_induct)
  case Nil
  then show ?case by (simp add: minifies_Nil)
next
  case (Cons e es e' es')
  have "minifies (if fmt then '' '' else []) []" by (auto intro: minifies_blank minifies_Nil)
  then have sep: "minifies ('','' @ (if fmt then '' '' else [])) ('','' @ [])" by (intro minifies_append minifies_kept) simp_all
  show ?case
  proof (cases es)
    case Nil
    then show ?thesis using Cons by simp
  next
    case (Cons f fs)
    moreover then obtain f' fs' where "es' = f' # fs'" using \<open>list_all2 minifies es es'\<close> by (auto simp: list_all2_Cons1)
    ultimately show ?thesis using minifies_append [OF \<open>minifies e e'\<close> minifies_append [OF sep Cons.IH]] by simp
  qed
qed

definition minifies_member :: "string \<times> string \<Rightarrow> string \<times> string \<Rightarrow> bool" where
  "minifies_member p q = (minifies (fst p) (fst q) \<and> minifies (snd p) (snd q))"

lemma minifies_members:
  "list_all2 minifies_member ps ps' \<Longrightarrow> minifies (compose_members fmt depth ps) (compose_members False depth' ps')"
proof (induction ps ps' rule: list_all2_induct)
  case Nil
  then show ?case by (simp add: minifies_Nil)
next
  case (Cons p ps q ps')
  obtain n e n' e' where p: "p = (n, e)" "q = (n', e')" "minifies n n'" "minifies e e'"
    using Cons.hyps(1) by (cases p; cases q) (simp add: minifies_member_def)
  have eq: "ps = [] \<longleftrightarrow> ps' = []" using Cons.hyps(2) by auto
  have i: "minifies (if fmt then indent k else []) []" for k by (simp add: minifies_Nil)
  have nl: "minifies (if fmt then [CHR 0x0A] else []) []" by (auto intro: minifies_blank minifies_Nil)
  have c: "minifies (if ps \<noteq> [] then '','' else []) (if ps \<noteq> [] then '','' else [])" by (auto intro: minifies_kept minifies_Nil)
  have k: "minifies '':'' '':''" by (rule minifies_kept) simp
  from minifies_append [OF i minifies_append [OF p(3) minifies_append [OF k minifies_append [OF i minifies_append [OF p(4)
      minifies_append [OF c minifies_append [OF nl Cons.IH]]]]]]]
  show ?case unfolding p(1,2) compose_members.simps eq by (simp only: append_Nil if_False)
qed

text \<open>What \<^verbatim>\<open>printf\<close> makes of a number has no blanks, slashes and quotes.\<close>

definition formats_kept :: "'d doubles \<Rightarrow> bool" where
  "formats_kept D = (\<forall>d. list_all kept (dbl_f0 D d) \<and> list_all kept (dbl_e D d) \<and> list_all kept (dbl_f D d))"

lemma kept_number: "list_all kept (show_int n)"
proof -
  have "kept c" if "is_digit c" for c
    using that by (auto simp: kept_def blank_def QUOTE_def is_digit_def less_eq_char_def)
  then have "list_all kept (show_nat n)" for n using is_digit_show_nat by (auto simp: list_all_iff)
  then show ?thesis by (simp add: show_int_def)
qed

lemma kept_literals: "list_all kept ''null''" "list_all kept ''true''" "list_all kept ''false''"
  by code_simp+

lemma kept_real: "formats_kept D \<Longrightarrow> list_all kept (print_real D d)"
  by (simp add: print_real_def formats_kept_def kept_number)

lemma minifies_array:
  assumes "print_array fmt es = Returns out" "list_all2 minifies es es'"
  shows "\<exists>out'. print_array False es' = Returns out' \<and> minifies out out'"
proof -
  obtain out' where out': "print_array False es' = Returns out'" using print_array_total by blast
  have b: "minifies ''['' ''[''" "minifies '']'' '']''" by (auto intro: minifies_kept)
  have "minifies out out'"
    using print_array_Returns [OF assms(1)] print_array_Returns [OF out'] assms(2)
      minifies_append [OF b(1) minifies_append [OF minifies_items [OF assms(2), of fmt] b(2)]] minifies_append [OF b]
    by (cases "es = []") auto
  then show ?thesis using out' by blast
qed

lemma minifies_object:
  assumes "print_object fmt depth ps = Returns out" "list_all2 minifies_member ps ps'"
  shows "\<exists>out'. print_object False depth ps' = Returns out' \<and> minifies out out'"
proof -
  have e: "ps = [] \<longleftrightarrow> ps' = []" using assms(2) by auto
  obtain out' where out': "print_object False depth ps' = Returns out'"
    using print_object_total print_object_empty by (cases "ps' = []") blast+
  have b: "minifies ''{'' ''{''" "minifies ''}'' ''}''" by (auto intro: minifies_kept)
  have i: "minifies (if fmt then indent k else []) []" for k by (simp add: minifies_Nil)
  have nl: "minifies (if fmt then [CHR 0x0A] else []) []" by (auto intro: minifies_blank minifies_Nil)
  have empty: "minifies (if fmt then CHR 0x0A # indent (depth - 1) else []) []"
    using minifies_append [OF minifies_blank [of "[CHR 0x0A]"] minifies_indent [of "depth - 1"]] by (simp add: minifies_Nil)
  note full = minifies_append [OF b(1) minifies_append [OF nl minifies_append
      [OF minifies_members [OF assms(2), of fmt "depth + 1" "depth + 1"] minifies_append [OF i [of depth] b(2)]]]]
  have "minifies out out'"
    using print_object_Returns [OF assms(1)] print_object_Returns [OF out'] e full minifies_append [OF b(1) minifies_append [OF empty b(2)]]
    by (cases "ps = []") (simp_all del: append_assoc)
  then show ?thesis using out' by blast
qed

lemma minifies_printed:
  assumes "formats_kept D"
  shows "print_value D fmt depth j = Returns out \<Longrightarrow> \<exists>out'. print_value D False depth j = Returns out' \<and> minifies out out'"
    and "print_items D fmt depth xs = Returns es \<Longrightarrow> \<exists>es'. print_items D False depth xs = Returns es' \<and> list_all2 minifies es es'"
    and "print_members D fmt depth ms = Returns ps \<Longrightarrow> \<exists>ps'. print_members D False depth ms = Returns ps' \<and> list_all2 minifies_member ps ps'"
  using assms
proof (induction D fmt depth j and D fmt depth xs and D fmt depth ms
    arbitrary: out and es and ps rule: print_value_print_items_print_members.induct)
  case (1 D fmt depth)
  then show ?case using minifies_kept kept_literals by auto
next
  case (2 D fmt depth b)
  then show ?case using minifies_kept kept_literals by auto
next
  case (3 D fmt depth d)
  then show ?case using minifies_kept [OF kept_real] by auto
next
  case (4 D fmt depth n)
  then show ?case using minifies_kept [OF kept_number] by auto
next
  case (5 D fmt depth s)
  then show ?case using minifies_printed_string by auto
next
  case (6 D fmt depth xs)
  obtain es where es: "print_items D fmt (depth + 1) xs = Returns es" "print_array fmt es = Returns out"
    using 6(2) by (auto simp: bind_outcome_Returns_iff)
  then obtain es' where "print_items D False (depth + 1) xs = Returns es'" "list_all2 minifies es es'" using 6(1,3) by blast
  then show ?case using minifies_array [OF es(2)] by auto
next
  case (7 D fmt depth ms)
  obtain ps where ps: "print_members D fmt (depth + 1) ms = Returns ps" "print_object fmt depth ps = Returns out"
    using 7(2) by (auto simp: bind_outcome_Returns_iff)
  then obtain ps' where "print_members D False (depth + 1) ms = Returns ps'" "list_all2 minifies_member ps ps'" using 7(1,3) by blast
  then show ?case using minifies_object [OF ps(2)] by auto
next
  case (9 D fmt depth x xs)
  then show ?case by (fastforce simp: bind_outcome_Returns_iff)
next
  case (11 D fmt depth name x ms)
  obtain n e es where m: "print_string_ptr name = Returns n" "print_value D fmt depth x = Returns e"
      "print_members D fmt depth ms = Returns es" "ps = (n, e) # es"
    using 11(3) by (auto simp: bind_outcome_Returns_iff)
  obtain e' where e: "print_value D False depth x = Returns e'" "minifies e e'" using 11(1) [OF m(2) 11(4)] by blast
  obtain es' where "print_members D False depth ms = Returns es'" "list_all2 minifies_member es es'"
    using 11(2) [OF m(3) 11(4)] by blast
  moreover have "minifies_member (n, e) (n, e')" using m(1) e(2) minifies_printed_string by (simp add: minifies_member_def)
  ultimately show ?case using m e(1) by simp
qed auto

section \<open>What is left open\<close>

lemma minify_string_open: "QUOTE \<notin> set s \<Longrightarrow> minify_string s = OutOfBounds"
proof (induction s rule: length_induct)
  case (1 s)
  show ?case
  proof (cases s)
    case Nil
    then show ?thesis by simp
  next
    case (Cons c cs)
    then have "minify_string cs = OutOfBounds" "\<And>d ds. cs = d # ds \<Longrightarrow> minify_string ds = OutOfBounds" "c \<noteq> QUOTE"
      using 1 by auto
    then show ?thesis unfolding Cons by (simp split: list.split)
  qed
qed

lemma skip_comment_open: "CHR ''*'' \<notin> set s \<Longrightarrow> skip_comment s = OutOfBounds"
  by (induction s rule: skip_comment.induct) auto

section \<open>Properties\<close>

text \<open>
  C24. Minifying the formatted text of a value gives the text the printer makes of it without formatting.
  Of the formats of \<^verbatim>\<open>printf\<close> it is used that they print numbers without blanks, slashes and quotes.
\<close>

theorem minify_formatted:
  assumes "cJSON_Print D True j = Returns out" and "formats_kept D"
  shows "\<exists>text'. cJSON_PrintUnformatted D j = Returns text' \<and> cJSON_Minify out = Returns text'"
proof -
  obtain t where t: "print_value D False 0 j = Returns t" "minifies out t"
    using minifies_printed(1) [OF assms(2)] assms(1) unfolding cJSON_Print_def by blast
  have "cJSON_Minify (out @ []) = bind_outcome (cJSON_Minify []) (\<lambda>u. Returns (t @ u))"
    using t(2) unfolding minifies_def by blast
  then show ?thesis using t(1) by (simp add: cJSON_PrintUnformatted_def)
qed

theorem minify_formatted_witness:
  "\<exists>out text'. cJSON_Print example_doubles True example_json = Returns out
    \<and> cJSON_PrintUnformatted example_doubles example_json = Returns text' \<and> cJSON_Minify out = Returns text'"
proof -
  have "fits True 0 example_json" by (simp add: example_json_def)
  then obtain out where "cJSON_Print example_doubles True example_json = Returns out"
    using print_iff_fits(1) [of example_doubles True 0 example_json] by (auto simp: cJSON_Print_def)
  moreover have "list_all kept (show_nat n)" for n using kept_number [of "int n"] by (simp add: show_int_def)
  then have "formats_kept example_doubles" by (simp add: formats_kept_def example_doubles_def)
  ultimately show ?thesis using minify_formatted by blast
qed

text \<open>
  A text that ends inside a string or a comment makes \<^verbatim>\<open>cJSON_Minify\<close> step over the terminating NUL
  and go on behind the text; otherwise it writes no more than it read. A slash right behind the start of a
  comment already closes it.
\<close>

theorem minify_bounds:
  "(QUOTE \<notin> set s \<longrightarrow> cJSON_Minify (QUOTE # s) = OutOfBounds)
    \<and> (CHR ''*'' \<notin> set s \<and> \<not> starts CHR ''/'' s \<longrightarrow> cJSON_Minify (''/*'' @ s) = OutOfBounds)
    \<and> cJSON_Minify (''/*/'' @ s) = cJSON_Minify s
    \<and> (\<forall>t. cJSON_Minify s = Returns t \<longrightarrow> length t \<le> length s)"
proof (intro conjI impI allI)
  have q: "\<not> blank QUOTE" "QUOTE \<noteq> CHR ''/''" "\<not> blank CHR ''/''" by (simp_all add: blank_def QUOTE_def)
  show "cJSON_Minify (QUOTE # s) = OutOfBounds" if "QUOTE \<notin> set s"
    using that q by (simp add: minify_string_open)
  show "cJSON_Minify (''/*'' @ s) = OutOfBounds" if "CHR ''*'' \<notin> set s \<and> \<not> starts CHR ''/'' s"
    using that q skip_comment_open [of s] by (cases s) simp_all
  show "cJSON_Minify (''/*/'' @ s) = cJSON_Minify s" using q by simp
qed (rule minify_length)

theorem minify_bounds_witness:
  "cJSON_Minify (QUOTE # ''a'') = OutOfBounds \<and> cJSON_Minify ''/*a'' = OutOfBounds
    \<and> (\<exists>t. cJSON_Minify ''1 2'' = Returns t \<and> length t \<le> 3)"
proof -
  have a: "QUOTE \<notin> set ''a''" "CHR ''*'' \<notin> set ''a''" "\<not> starts CHR ''/'' ''a''" by (simp_all add: QUOTE_def)
  have n: "cJSON_Minify ''1 2'' = Returns ''12''" by (simp add: blank_def QUOTE_def)
  have "length ''12'' \<le> length ''1 2''" using minify_bounds [of "''1 2''"] n by blast
  then show ?thesis using minify_bounds [of "''a''"] a n by simp
qed

end
