(* ===== verification/GpsChat.thy ===== *)
theory GpsChat
  imports JsonRoundtrip
begin

text \<open>
  The chat client of the tracker application, \<^verbatim>\<open>GPS connect/GPSChat.cpp\<close>, and the messages its view
  sends (\<^verbatim>\<open>ViewController.mm\<close>), against the JSON reader of the repository. The network is a parameter: how
  many bytes one \<^verbatim>\<open>write_some\<close> takes and whether it fails, and whether a connect succeeds.
\<close>

section \<open>Messages\<close>

text \<open>A member as the format strings write it, with the text put between the quotes as it is.\<close>

definition member_text :: "string \<Rightarrow> string \<Rightarrow> string" where
  "member_text name value = [QUOTE] @ name @ [QUOTE] @ '':'' @ [QUOTE] @ value @ [QUOTE]"

definition login_message :: "string \<Rightarrow> string" where
  "login_message user_id = ''{'' @ member_text ''request_type'' ''login'' @ '', '' @ member_text ''user_id'' user_id @ ''}''"

definition logout_message :: "string \<Rightarrow> string" where
  "logout_message user_id = ''{'' @ member_text ''request_type'' ''logout'' @ '', '' @ member_text ''user_id'' user_id @ ''}''"

definition pet_lost_message :: "string \<Rightarrow> string \<Rightarrow> string" where
  "pet_lost_message user_id date = ''{'' @ member_text ''request_type'' ''pet_lost'' @ '','' @ member_text ''user_id'' user_id
     @ '', '' @ member_text ''dev_id'' user_id @ '', '' @ member_text ''lon'' ''111.518'' @ '','' @ member_text ''lat'' ''36.096''
     @ '','' @ member_text ''datetime'' date @ ''}''"

definition chat_message :: "string \<Rightarrow> string \<Rightarrow> string \<Rightarrow> string \<Rightarrow> string" where
  "chat_message user_id to_user_id message date = ''{'' @ member_text ''request_type'' ''send'' @ '','' @ member_text ''user_id'' user_id
     @ '', '' @ member_text ''to_user_id'' to_user_id @ '','' @ member_text ''message'' message @ '','' @ member_text ''datetime'' date @ ''}''"

definition location_message :: "string \<Rightarrow> string" where
  "location_message user_id = ''{'' @ member_text ''request_type'' ''setup_wifi'' @ '', '' @ member_text ''user_id'' user_id
     @ '', '' @ member_text ''dev_id'' user_id @ '', '' @ member_text ''wifi_name'' ''ee'' @ '','' @ member_text ''mac_address'' ''12:12:12:12:12''
     @ '','' @ member_text ''lat'' ''70.232'' @ '','' @ member_text ''lon'' ''132.222'' @ ''}''"

section \<open>The client\<close>

record chat_client =
  socket_open :: bool
  wire :: string

text \<open>A connect that fails throws, in the constructor and in \<^verbatim>\<open>_connect\<close>.\<close>

definition chat_start :: "bool \<Rightarrow> chat_client outcome" where
  "chat_start reachable = (if reachable then Returns \<lparr>socket_open = True, wire = []\<rparr> else Throws)"

definition isConnect :: "chat_client \<Rightarrow> bool" where
  "isConnect c = socket_open c"

definition reconnect :: "bool \<Rightarrow> chat_client \<Rightarrow> chat_client outcome" where
  "reconnect reachable c =
     (if isConnect c then Returns c
      else if reachable then Returns (c\<lparr>socket_open := True\<rparr>) else Throws)"

text \<open>One \<^verbatim>\<open>write_some\<close>: what it did not take is not sent again.\<close>

definition handle_write :: "(string \<Rightarrow> nat \<times> bool) \<Rightarrow> string \<Rightarrow> chat_client \<Rightarrow> bool \<times> chat_client" where
  "handle_write write_some message c =
     (if \<not> socket_open c then (False, c)
      else case write_some message of (n, e) \<Rightarrow> (\<not> e, c\<lparr>wire := wire c @ take n message\<rparr>))"

definition send_message :: "(string \<Rightarrow> nat \<times> bool) \<Rightarrow> string \<Rightarrow> chat_client \<Rightarrow> chat_client" where
  "send_message write_some message c = snd (handle_write write_some message c)"

definition login :: "(string \<Rightarrow> nat \<times> bool) \<Rightarrow> string \<Rightarrow> chat_client \<Rightarrow> chat_client" where
  "login write_some user_id c = send_message write_some (login_message user_id) c"

definition logout :: "(string \<Rightarrow> nat \<times> bool) \<Rightarrow> string \<Rightarrow> chat_client \<Rightarrow> bool \<times> chat_client" where
  "logout write_some user_id c =
     (let c' = (send_message write_some (logout_message user_id) c)\<lparr>socket_open := False\<rparr> in (\<not> isConnect c', c'))"

text \<open>One \<^verbatim>\<open>read_some\<close> into the buffer of 1024 bytes; an error is no bytes.\<close>

definition handle_read :: "(nat \<Rightarrow> string) \<Rightarrow> string" where
  "handle_read read_some = (let s = take 1024 (read_some 1024) in if length s > 0 then s else [])"

text \<open>A session over a network that takes whole messages; one that takes less loses the rest without an error.\<close>

lemma session_on_wire:
  "socket_open c \<Longrightarrow> (\<And>m. write_some m = (length m, False)) \<Longrightarrow>
    logout write_some uid (login write_some uid c)
      = (True, c\<lparr>socket_open := False, wire := wire c @ login_message uid @ logout_message uid\<rparr>)"
  by (simp add: logout_def login_def send_message_def handle_write_def isConnect_def Let_def)

lemma short_write_unnoticed:
  "socket_open c \<Longrightarrow> write_some m = (n, False) \<Longrightarrow>
    fst (handle_write write_some m c) \<and> wire (snd (handle_write write_some m c)) = wire c @ take n m"
  by (simp add: handle_write_def)

section \<open>Reading a message\<close>

definition plain_text :: "string \<Rightarrow> bool" where
  "plain_text s = list_all (\<lambda>c. c \<noteq> CHR 0x00 \<and> c \<noteq> QUOTE \<and> c \<noteq> BACKSLASH) s"

lemma string_len_plain: "plain_text s \<Longrightarrow> string_len (s @ QUOTE # rest) = Some (length s)"
  by (induction s) (simp_all add: plain_text_def)

lemma unescape_plain: "plain_text s \<Longrightarrow> unescape (s @ QUOTE # rest) = Some (s, QUOTE # rest)"
  by (induction s) (simp_all add: plain_text_def unescape.simps)

lemma parse_string_plain: "plain_text s \<Longrightarrow> parse_string (QUOTE # s @ QUOTE # rest) = Parsed s rest"
  by (simp add: parse_string_def string_len_plain unescape_plain)

lemma quote_not_blank [simp]: "skip_space (QUOTE # s) = QUOTE # s"
  by (simp add: skip_space_def QUOTE_def char_code_def)

lemma reads_plain: "plain_text s \<Longrightarrow> reads D (QUOTE # s @ QUOTE # rest) (String s) rest"
  by (rule reads_direct) (simp add: parse_value_string parse_string_plain del: parse_value.simps)

text \<open>The members of a message, each behind a comma and perhaps a blank.\<close>

fun members_text :: "(string \<times> string \<times> bool) list \<Rightarrow> string" where
  "members_text [] = []"
| "members_text [(n, v, b)] = member_text n v"
| "members_text ((n, v, b) # ms) = member_text n v @ (if b then '', '' else '','') @ members_text ms"

definition plain_members :: "(string \<times> string \<times> bool) list \<Rightarrow> bool" where
  "plain_members ms = list_all (\<lambda>(n, v, b). plain_text n \<and> plain_text v) ms"

lemma member_text_read:
  assumes "plain_text n" "plain_text v"
  shows "parse_string (skip_space (member_text n v @ rest)) = Parsed n (CHR '':'' # QUOTE # v @ QUOTE # rest)"
    and "skip_space (CHR '':'' # QUOTE # v @ QUOTE # rest) = CHR '':'' # QUOTE # v @ QUOTE # rest"
    and "reads D (skip_space (QUOTE # v @ QUOTE # rest)) (String v) rest"
  using assms parse_string_plain [of n] reads_plain [of v] by (simp_all add: member_text_def)

lemma reads_members_text:
  "ms \<noteq> [] \<Longrightarrow> plain_members ms \<Longrightarrow>
    reads_members D xs (members_text ms @ CHR ''}'' # rest) (Object (xs @ map (\<lambda>(n, v, b). (n, String v)) ms)) rest"
proof (induction ms arbitrary: xs rule: members_text.induct)
  case (2 n v b)
  then have "plain_text n" "plain_text v" by (simp_all add: plain_members_def)
  note m = member_text_read [OF this]
  have "reads_members D xs (member_text n v @ CHR ''}'' # rest) (Object (xs @ [(n, String v)])) rest"
    by (rule reads_members_last [OF m]) simp
  then show ?case by simp
next
  case (3 n v b m ms)
  then have p: "plain_text n" "plain_text v" by (simp_all add: plain_members_def)
  let ?next = "(if b then '' '' else []) @ members_text (m # ms) @ CHR ''}'' # rest"
  have "reads_members D (xs @ [(n, String v)]) (members_text (m # ms) @ CHR ''}'' # rest)
      (Object (xs @ map (\<lambda>(n, v, b). (n, String v)) ((n, v, b) # m # ms))) rest"
    using 3(1) [of "xs @ [(n, String v)]"] 3(3) by (simp add: plain_members_def)
  moreover have "reads_members D ys (CHR '' '' # s) w r = reads_members D ys s w r" for ys s w r
    by (rule reads_members_space) simp
  ultimately have "reads_members D (xs @ [(n, String v)]) ?next (Object (xs @ map (\<lambda>(n, v, b). (n, String v)) ((n, v, b) # m # ms))) rest"
    by simp
  then have "reads_members D xs (member_text n v @ CHR '','' # ?next) (Object (xs @ map (\<lambda>(n, v, b). (n, String v)) ((n, v, b) # m # ms))) rest"
    by (rule reads_members_more [OF member_text_read [OF p], rotated]) simp
  then show ?case by (cases b) simp_all
qed simp

text \<open>The reader on an object of plain members, whatever follows it.\<close>

definition plain_rest :: "string \<Rightarrow> bool" where
  "plain_rest s = (CHR 0x00 \<notin> set s)"

lemma members_text_no_nul: "plain_members ms \<Longrightarrow> CHR 0x00 \<notin> set (members_text ms)"
  by (induction ms rule: members_text.induct)
    (auto simp: plain_members_def plain_text_def member_text_def list_all_iff QUOTE_def)

lemma parse_members_text:
  assumes "ms \<noteq> []" "plain_members ms" "plain_rest rest"
  shows "cJSON_Parse D (CHR ''{'' # members_text ms @ CHR ''}'' # rest) = Parsed (Object (map (\<lambda>(n, v, b). (n, String v)) ms)) rest"
proof -
  let ?s = "CHR ''{'' # members_text ms @ CHR ''}'' # rest"
  obtain n v b ms' where ms: "ms = (n, v, b) # ms'" using assms(1) by (cases ms) auto
  have "\<exists>t. members_text ms = QUOTE # t" unfolding ms by (cases ms') (simp_all add: member_text_def)
  then obtain t where "members_text ms = QUOTE # t" by blast
  then have "skip_space (members_text ms @ CHR ''}'' # rest) = QUOTE # t @ CHR ''}'' # rest" by simp
  then have q: "\<not> starts CHR ''}'' (skip_space (members_text ms @ CHR ''}'' # rest))" by (simp only: starts.simps) (simp add: QUOTE_def)
  have "reads D ?s (Object (map (\<lambda>(n, v, b). (n, String v)) ms)) rest"
    using reads_object [OF reads_members_text [OF assms(1,2), of D "[]" rest] q] by simp
  then obtain k where "parse_value D k ?s = Parsed (Object (map (\<lambda>(n, v, b). (n, String v)) ms)) rest" by (auto simp: reads_def)
  then have p: "parse_value D (fuel_for ?s) ?s = Parsed (Object (map (\<lambda>(n, v, b). (n, String v)) ms)) rest"
    by (rule parse_value_own_fuel)
  have "c_string ?s = ?s" using members_text_no_nul [OF assms(2)] assms(3)
    by (intro c_string_no_nul) (simp add: no_nul_def plain_rest_def)
  moreover have "skip_space ?s = ?s" by (simp add: char_code_def)
  ultimately show ?thesis using p by (simp add: cJSON_Parse_def cJSON_ParseWithOpts_def)
qed

text \<open>The five messages as lists of members.\<close>

lemma message_members:
  "login_message uid @ rest = CHR ''{'' # members_text [(''request_type'', ''login'', True), (''user_id'', uid, True)] @ CHR ''}'' # rest"
  "logout_message uid @ rest = CHR ''{'' # members_text [(''request_type'', ''logout'', True), (''user_id'', uid, True)] @ CHR ''}'' # rest"
  "pet_lost_message uid date @ rest = CHR ''{'' # members_text [(''request_type'', ''pet_lost'', False), (''user_id'', uid, True),
     (''dev_id'', uid, True), (''lon'', ''111.518'', False), (''lat'', ''36.096'', False), (''datetime'', date, False)] @ CHR ''}'' # rest"
  "chat_message uid to msg date @ rest = CHR ''{'' # members_text [(''request_type'', ''send'', False), (''user_id'', uid, True),
     (''to_user_id'', to, False), (''message'', msg, False), (''datetime'', date, False)] @ CHR ''}'' # rest"
  "location_message uid @ rest = CHR ''{'' # members_text [(''request_type'', ''setup_wifi'', True), (''user_id'', uid, True),
     (''dev_id'', uid, True), (''wifi_name'', ''ee'', False), (''mac_address'', ''12:12:12:12:12'', False),
     (''lat'', ''70.232'', False), (''lon'', ''132.222'', False)] @ CHR ''}'' # rest"
  by (simp_all add: login_message_def logout_message_def pet_lost_message_def chat_message_def location_message_def)

lemma plain_names:
  "plain_text ''request_type''" "plain_text ''user_id''" "plain_text ''dev_id''" "plain_text ''lon''" "plain_text ''lat''"
  "plain_text ''datetime''" "plain_text ''to_user_id''" "plain_text ''message''" "plain_text ''wifi_name''" "plain_text ''mac_address''"
  "plain_text ''login''" "plain_text ''logout''" "plain_text ''pet_lost''" "plain_text ''send''" "plain_text ''setup_wifi''"
  "plain_text ''111.518''" "plain_text ''36.096''" "plain_text ''ee''" "plain_text ''12:12:12:12:12''" "plain_text ''70.232''" "plain_text ''132.222''"
  by code_simp+

lemma plain_members_Cons: "plain_members [] = True" "plain_members ((n, v, b) # ms) = (plain_text n \<and> plain_text v \<and> plain_members ms)"
  by (simp_all add: plain_members_def)

section \<open>Properties\<close>

text \<open>
  C21. The messages of the application are read as they are meant: when the texts put into a login, a logout,
  a lost pet's report, a chat message or a location hold no quote, backslash or NUL, the JSON reader gives
  the object with the members of the message and those texts, and leaves what follows on the connection.
\<close>

theorem app_messages_read:
  assumes "plain_text uid" "plain_text to" "plain_text msg" "plain_text date" "plain_rest rest"
  shows "cJSON_Parse D (login_message uid @ rest) = Parsed (Object [(''request_type'', String ''login''), (''user_id'', String uid)]) rest
    \<and> cJSON_Parse D (logout_message uid @ rest) = Parsed (Object [(''request_type'', String ''logout''), (''user_id'', String uid)]) rest
    \<and> cJSON_Parse D (pet_lost_message uid date @ rest) = Parsed (Object [(''request_type'', String ''pet_lost''), (''user_id'', String uid),
        (''dev_id'', String uid), (''lon'', String ''111.518''), (''lat'', String ''36.096''), (''datetime'', String date)]) rest
    \<and> cJSON_Parse D (chat_message uid to msg date @ rest) = Parsed (Object [(''request_type'', String ''send''), (''user_id'', String uid),
        (''to_user_id'', String to), (''message'', String msg), (''datetime'', String date)]) rest
    \<and> cJSON_Parse D (location_message uid @ rest) = Parsed (Object [(''request_type'', String ''setup_wifi''), (''user_id'', String uid),
        (''dev_id'', String uid), (''wifi_name'', String ''ee''), (''mac_address'', String ''12:12:12:12:12''),
        (''lat'', String ''70.232''), (''lon'', String ''132.222'')]) rest"
  unfolding message_members using assms
  by (intro conjI; subst parse_members_text) (simp_all add: plain_members_Cons plain_names)

theorem app_messages_read_witness:
  "cJSON_Parse example_doubles (login_message ''ann'' @ pet_lost_message ''ann'' ''2016'')
    = Parsed (Object [(''request_type'', String ''login''), (''user_id'', String ''ann'')]) (pet_lost_message ''ann'' ''2016'')"
proof -
  have "plain_text ''ann''" "plain_text ''2016''" "plain_rest (pet_lost_message ''ann'' ''2016'')" by code_simp+
  then show ?thesis using app_messages_read [of "''ann''" "''ann''" "''ann''" "''2016''"] by blast
qed

text \<open>
  The texts are not escaped: a user id that closes its string puts members of its own into the message.
\<close>

theorem user_id_injects:
  assumes "plain_text uid" "plain_text name" "plain_text value" "plain_rest rest"
  shows "cJSON_Parse D (login_message (uid @ [QUOTE] @ '','' @ [QUOTE] @ name @ [QUOTE] @ '':'' @ [QUOTE] @ value) @ rest)
    = Parsed (Object [(''request_type'', String ''login''), (''user_id'', String uid), (name, String value)]) rest"
proof -
  have "login_message (uid @ [QUOTE] @ '','' @ [QUOTE] @ name @ [QUOTE] @ '':'' @ [QUOTE] @ value) @ rest
      = CHR ''{'' # members_text [(''request_type'', ''login'', True), (''user_id'', uid, False), (name, value, False)] @ CHR ''}'' # rest"
    by (simp add: login_message_def member_text_def)
  then show ?thesis using assms by (simp only:) (subst parse_members_text; simp add: plain_members_Cons plain_names)
qed

theorem user_id_injects_witness:
  "cJSON_Parse example_doubles (login_message (''ann'' @ [QUOTE] @ '','' @ [QUOTE] @ ''role'' @ [QUOTE] @ '':'' @ [QUOTE] @ ''admin'') @ [])
    = Parsed (Object [(''request_type'', String ''login''), (''user_id'', String ''ann''), (''role'', String ''admin'')]) []"
  by (rule user_id_injects) code_simp+

end
