(* ===== verification/MemPool.thy ===== *)
theory MemPool
  imports GPS_Prelude
begin

text \<open>
  The pool of blocks of any size of the server's utilities, \<^verbatim>\<open>refs/httpserver/thelib/utils/mempool.h\<close> and
  \<^verbatim>\<open>mempool.cpp\<close>: one region with a header and a foot around every block, the headers in a ring. A block
  is named by the offset of its header; a header takes 32 bytes and a foot 8. Sizes stay far below the
  range of \<^verbatim>\<open>size_t\<close>.
\<close>

section \<open>The region\<close>

record block_head =
  prev_block :: nat
  next_block :: nat
  block_size :: nat
  unused :: bool

record mempool =
  heads :: "nat \<Rightarrow> block_head"
  foots :: "nat \<Rightarrow> nat"
  freelist :: "nat option"
  memory_size :: nat

definition head_size :: nat where "head_size = 32"
definition foot_size :: nat where "foot_size = 8"
definition reserved_size :: nat where "reserved_size = head_size + foot_size"
definition min_size :: nat where "min_size = 16"
definition min_block_size :: nat where "min_block_size = reserved_size + min_size"

lemmas block_sizes = head_size_def foot_size_def reserved_size_def min_size_def min_block_size_def

definition align_to :: "nat \<Rightarrow> nat \<Rightarrow> nat" where
  "align_to d a = (d + (a - 1)) div a * a"

definition set_head :: "nat \<Rightarrow> (block_head \<Rightarrow> block_head) \<Rightarrow> mempool \<Rightarrow> mempool" where
  "set_head h f m = m\<lparr>heads := (heads m)(h := f (heads m h))\<rparr>"

definition update_foot :: "nat \<Rightarrow> mempool \<Rightarrow> mempool" where
  "update_foot h m = m\<lparr>foots := (foots m)(h + block_size (heads m h) - foot_size := h)\<rparr>"

definition pool_init :: "nat \<Rightarrow> mempool" where
  "pool_init bytes =
     (let region = align_to bytes 65536
      in update_foot 0 \<lparr>heads = (\<lambda>h. \<lparr>prev_block = 0, next_block = 0, block_size = region, unused = True\<rparr>),
           foots = (\<lambda>h. 0), freelist = Some 0, memory_size = region\<rparr>)"

section \<open>Allocation\<close>

text \<open>The search goes round the ring until a block is large enough or the next one is the first.\<close>

partial_function (option) first_fit :: "(nat \<Rightarrow> block_head) \<Rightarrow> nat \<Rightarrow> nat \<Rightarrow> nat \<Rightarrow> nat option" where
  "first_fit H n start blk =
     (if block_size (H blk) - reserved_size < n \<and> next_block (H blk) \<noteq> start
      then first_fit H n start (next_block (H blk)) else Some blk)"

datatype allocation = Inside nat | From_malloc

definition split_block :: "nat \<Rightarrow> nat \<Rightarrow> mempool \<Rightarrow> mempool" where
  "split_block blk n m =
     (let reblock = blk + head_size + n + foot_size;
          m1 = update_foot reblock (set_head reblock (\<lambda>r. r\<lparr>unused := True, block_size := blk + block_size (heads m blk) - reblock\<rparr>) m);
          m2 = update_foot blk (set_head blk (\<lambda>b. b\<lparr>block_size := reblock - blk\<rparr>) m1);
          nxt = next_block (heads m2 blk)
      in (if nxt = blk then
            set_head reblock (\<lambda>r. r\<lparr>prev_block := blk, next_block := blk\<rparr>)
              (set_head blk (\<lambda>b. b\<lparr>next_block := reblock, prev_block := reblock\<rparr>) m2)
          else
            set_head blk (\<lambda>b. b\<lparr>next_block := reblock\<rparr>)
              (set_head nxt (\<lambda>x. x\<lparr>prev_block := reblock\<rparr>)
                (set_head reblock (\<lambda>r. r\<lparr>prev_block := blk, next_block := nxt\<rparr>) m2)))
         \<lparr>freelist := Some reblock\<rparr>)"

definition take_whole :: "nat \<Rightarrow> nat \<Rightarrow> mempool \<Rightarrow> mempool" where
  "take_whole fl blk m =
     (if blk = fl then m\<lparr>freelist := None\<rparr>
      else let nxt = next_block (heads m blk)
           in set_head nxt (\<lambda>x. x\<lparr>prev_block := fl\<rparr>) (set_head fl (\<lambda>x. x\<lparr>prev_block := nxt\<rparr>) m))"

definition allocate :: "nat \<Rightarrow> mempool \<Rightarrow> (allocation \<times> mempool) option" where
  "allocate bytes m =
     (let n = align_to bytes min_size
      in case freelist m of
           None \<Rightarrow> Some (From_malloc, m)
         | Some fl \<Rightarrow>
             map_option (\<lambda>blk.
               if block_size (heads m blk) - reserved_size < n then (From_malloc, m)
               else
                 let m1 = set_head blk (\<lambda>b. b\<lparr>unused := False\<rparr>) m
                 in (Inside (blk + head_size),
                     if block_size (heads m1 blk) - reserved_size - n < min_block_size then take_whole fl blk m1
                     else split_block blk n m1))
               (first_fit (heads m) n fl fl))"

section \<open>Release\<close>

definition merge_left :: "nat \<Rightarrow> nat \<Rightarrow> nat \<Rightarrow> mempool \<Rightarrow> mempool" where
  "merge_left left nxt extra m =
     (update_foot left
       (set_head left (\<lambda>b. b\<lparr>block_size := block_size b + extra\<rparr>)
         (set_head nxt (\<lambda>x. x\<lparr>prev_block := left\<rparr>)
           (set_head left (\<lambda>b. b\<lparr>next_block := nxt\<rparr>) m))))\<lparr>freelist := Some left\<rparr>"

text \<open>A pointer of \<^verbatim>\<open>malloc\<close> goes to \<^verbatim>\<open>free\<close>; \<open>p\<close> is an offset into the region.\<close>

definition deallocte :: "nat \<Rightarrow> mempool \<Rightarrow> mempool" where
  "deallocte p m =
     (let curh = p - head_size;
          lf = curh - foot_size;
          rh = curh + block_size (heads m curh);
          vlf = (curh > head_size + foot_size);
          vrh = (rh < memory_size m - foot_size);
          left = foots m lf;
          left_free = (vlf \<and> unused (heads m left));
          right_free = (vrh \<and> unused (heads m rh))
      in if left_free \<and> \<not> right_free then
           merge_left left (next_block (heads m curh)) (block_size (heads m curh)) m
         else if right_free \<and> \<not> left_free then
           let m1 = set_head curh (\<lambda>c. c\<lparr>unused := True, next_block := next_block (heads m rh)\<rparr>) m;
               m2 = set_head (next_block (heads m1 rh)) (\<lambda>x. x\<lparr>prev_block := curh\<rparr>) m1
           in (update_foot curh (set_head curh (\<lambda>c. c\<lparr>block_size := block_size c + block_size (heads m rh)\<rparr>) m2))
                \<lparr>freelist := Some curh\<rparr>
         else if left_free \<and> right_free then
           merge_left left (next_block (heads m rh)) (block_size (heads m curh) + block_size (heads m rh)) m
         else (set_head curh (\<lambda>c. c\<lparr>unused := True\<rparr>) m)\<lparr>freelist := Some curh\<rparr>)"

section \<open>A block given out twice\<close>

lemma align_to_ge: "0 < a \<Longrightarrow> d \<le> align_to d a \<and> align_to d a < d + a"
proof -
  assume a: "0 < a"
  have "align_to d a + (d + (a - 1)) mod a = d + (a - 1)" by (simp add: align_to_def)
  moreover have "(d + (a - 1)) mod a < a" using a by simp
  ultimately show ?thesis by linarith
qed

lemma first_fit_here: "n \<le> block_size (H blk) - reserved_size \<Longrightarrow> first_fit H n start blk = Some blk"
  by (simp add: first_fit.simps)

lemma first_fit_next:
  "block_size (H blk) - reserved_size < n \<Longrightarrow> next_block (H blk) \<noteq> start \<Longrightarrow> first_fit H n start blk = first_fit H n start (next_block (H blk))"
  by (subst first_fit.simps) simp

text \<open>The first allocation of a fresh region: its two blocks afterwards.\<close>

lemma first_allocation:
  assumes "bytes = 65536 * k" "0 < k" "align_to s min_size + reserved_size + min_block_size \<le> bytes"
  shows "\<exists>m. allocate s (pool_init bytes) = Some (Inside head_size, m)
    \<and> freelist m = Some (reserved_size + align_to s min_size)
    \<and> block_size (heads m 0) = reserved_size + align_to s min_size
    \<and> next_block (heads m (reserved_size + align_to s min_size)) = 0
    \<and> next_block (heads m 0) = reserved_size + align_to s min_size
    \<and> block_size (heads m (reserved_size + align_to s min_size)) = bytes - reserved_size - align_to s min_size"
proof -
  have sz: "align_to bytes 65536 = bytes" using assms(1) by (simp add: align_to_def)
  let ?n = "align_to s min_size"
  have "first_fit (heads (pool_init bytes)) ?n 0 0 = Some 0"
    using assms(3) by (intro first_fit_here) (simp add: pool_init_def sz Let_def update_foot_def)
  moreover have "freelist (pool_init bytes) = Some 0" by (simp add: pool_init_def Let_def update_foot_def)
  moreover have "\<not> bytes - reserved_size - ?n < min_block_size" "\<not> bytes - reserved_size < ?n" using assms(3) by linarith+
  ultimately show ?thesis
    by (simp add: allocate_def split_block_def set_head_def update_foot_def pool_init_def sz Let_def) (simp add: block_sizes)
qed

section \<open>Properties\<close>

text \<open>
  C31. A block in use is given out again: when a region is too small for a second request behind the first, but
  the first block is large enough for it, the search comes round to the first block, never asks whether it is
  unused, and the second allocation answers the same address.
\<close>

theorem live_block_given_out:
  assumes "bytes = 65536 * k" "0 < k" "align_to first min_size + reserved_size + min_block_size \<le> bytes"
    and "allocate first (pool_init bytes) = Some (a, m)"
    and "align_to second min_size \<le> align_to first min_size"
    and "bytes < align_to first min_size + align_to second min_size + 2 * reserved_size"
  shows "a = Inside head_size \<and> (\<exists>m'. allocate second m = Some (Inside head_size, m'))"
proof -
  let ?n = "align_to first min_size" and ?n2 = "align_to second min_size"
  let ?r = "reserved_size + ?n"
  have m: "a = Inside head_size" "freelist m = Some ?r" "block_size (heads m 0) = ?r" "next_block (heads m ?r) = 0"
    "block_size (heads m ?r) = bytes - reserved_size - ?n"
    using first_allocation [OF assms(1-3)] assms(4) by auto
  have "block_size (heads m ?r) - reserved_size < ?n2" using m(5) assms(3,6) by (simp add: block_sizes)
  then have "first_fit (heads m) ?n2 ?r ?r = first_fit (heads m) ?n2 ?r 0"
    using first_fit_next [of "heads m" ?r ?n2 ?r] m(4) by (simp add: block_sizes)
  also have "\<dots> = Some 0" using m(3) assms(5) by (intro first_fit_here) simp
  finally show ?thesis using m assms(5) by (simp add: allocate_def Let_def)
qed

theorem live_block_given_out_witness:
  "\<exists>m m'. allocate 40000 (pool_init 65536) = Some (Inside 32, m) \<and> allocate 30000 m = Some (Inside 32, m')"
proof -
  have n: "align_to 40000 min_size = 40000" "align_to 30000 min_size = 30000" by (simp_all add: align_to_def min_size_def)
  obtain m where m: "allocate 40000 (pool_init 65536) = Some (Inside head_size, m)"
    using first_allocation [of 65536 1 40000] n by (auto simp: block_sizes)
  then have "\<exists>m'. allocate 30000 m = Some (Inside head_size, m')"
    using live_block_given_out [of 65536 1 40000 "Inside head_size" m 30000] n by (simp add: block_sizes)
  then show ?thesis using m by (simp add: head_size_def)
qed

end
