(* ===== verification/SizeClasses.thy ===== *)
theory SizeClasses
  imports ObjectPool
begin

text \<open>
  The allocators of the server's utilities that keep a pool of equal cells for each class of sizes:
  \<^verbatim>\<open>memblock.cpp\<close>, \<^verbatim>\<open>mempool2.cpp\<close> (classes that double) and \<^verbatim>\<open>mempool3.cpp\<close> (classes in steps of 128 bytes),
  under \<^verbatim>\<open>refs/httpserver/thelib/utils\<close>. A \<^verbatim>\<open>memblock\<close> works on its cells as the object pool does, with the
  size and number of cells given to its constructor. The chunks \<^verbatim>\<open>malloc\<close> answers are arguments.
\<close>

section \<open>memblock\<close>

record memblock =
  mb_pool :: object_pool
  mb_elem_size :: nat
  mb_elem_count :: nat

definition memblock_new :: "nat \<Rightarrow> nat \<Rightarrow> nat \<Rightarrow> (nat \<Rightarrow> nat option) \<Rightarrow> memblock" where
  "memblock_new elemsize elemcount chunk mem =
     \<lparr>mb_pool = pool_new elemsize elemcount chunk mem, mb_elem_size = elemsize, mb_elem_count = elemcount\<rparr>"

definition memblock_get :: "nat \<Rightarrow> memblock \<Rightarrow> (nat \<times> memblock) outcome" where
  "memblock_get chunk b =
     bind_outcome (pool_get (mb_elem_size b) (mb_elem_count b) chunk (mb_pool b)) (\<lambda>(ptr, p). Returns (ptr, b\<lparr>mb_pool := p\<rparr>))"

definition memblock_release :: "nat \<Rightarrow> memblock \<Rightarrow> memblock" where
  "memblock_release ptr b = b\<lparr>mb_pool := pool_release ptr (mb_pool b)\<rparr>"

definition memblock_purge :: "memblock \<Rightarrow> memblock" where
  "memblock_purge b = b\<lparr>mb_pool := pool_purge (mb_pool b)\<rparr>"

text \<open>
  \<^verbatim>\<open>cleanup\<close> assigns null to the list of chunks where it means to compare, drops them all, and then takes
  the data of the null chunk for the head of the free cells.
\<close>

definition memblock_cleanup :: "memblock \<Rightarrow> memblock outcome" where
  "memblock_cleanup b =
     (let chunks = []
      in case chunks of [] \<Rightarrow> OutOfBounds
         | c # cs \<Rightarrow> Returns (b\<lparr>mb_pool := (mb_pool b)\<lparr>my_chunk := chunks, my_head := Some c, my_count := 0\<rparr>\<rparr>))"

definition mb_inv :: "memblock \<Rightarrow> bool" where
  "mb_inv b = pool_inv (mb_elem_size b) (mb_elem_count b) (mb_pool b)"

definition mb_live :: "memblock \<Rightarrow> nat set" where
  "mb_live b = pool_live (mb_elem_size b) (mb_elem_count b) (mb_pool b)"

definition mb_fresh :: "nat \<Rightarrow> memblock \<Rightarrow> bool" where
  "mb_fresh c b = fresh_chunk (mb_elem_size b) (mb_elem_count b) c (mb_pool b)"

lemma memblock_get_law:
  "mb_inv b \<Longrightarrow> mb_fresh c b \<Longrightarrow>
    \<exists>a b'. memblock_get c b = Returns (a, b') \<and> mb_inv b' \<and> a \<notin> mb_live b \<and> mb_live b' = insert a (mb_live b)"
  using get_inv [of "mb_elem_size b" "mb_elem_count b" "mb_pool b" c]
  by (auto simp: mb_inv_def mb_live_def mb_fresh_def memblock_get_def)

lemma memblock_release_law:
  "mb_inv b \<Longrightarrow> a \<in> mb_live b \<Longrightarrow> mb_inv (memblock_release a b) \<and> mb_live (memblock_release a b) = mb_live b - {a}"
  using release_inv by (simp add: mb_inv_def mb_live_def memblock_release_def)

interpretation block: allocator memblock_get memblock_release mb_inv mb_live mb_fresh
  by unfold_locales (simp_all add: memblock_get_law memblock_release_law)

section \<open>Chunks\<close>

definition mb_chunks :: "memblock \<Rightarrow> nat list" where
  "mb_chunks b = my_chunk (mb_pool b)"

definition mb_bytes :: "memblock \<Rightarrow> nat" where
  "mb_bytes b = mb_elem_count b * mb_elem_size b"

definition same_cells :: "memblock \<Rightarrow> memblock \<Rightarrow> bool" where
  "same_cells b b' = (mb_elem_size b' = mb_elem_size b \<and> mb_elem_count b' = mb_elem_count b)"

lemma memblock_get_chunks:
  "memblock_get c b = Returns (a, b') \<Longrightarrow> same_cells b b' \<and> set (mb_chunks b') \<subseteq> insert c (set (mb_chunks b))"
  by (auto simp: memblock_get_def pool_get_def enlarge_def same_cells_def mb_chunks_def bind_outcome_Returns_iff Let_def
    split: if_splits option.splits prod.splits)

lemma memblock_release_chunks: "same_cells b (memblock_release a b) \<and> mb_chunks (memblock_release a b) = mb_chunks b"
  by (simp add: memblock_release_def same_cells_def mb_chunks_def pool_release_def)

text \<open>Two ranges of bytes that do not meet.\<close>

definition ranges_apart :: "nat \<Rightarrow> nat \<Rightarrow> nat \<Rightarrow> nat \<Rightarrow> bool" where
  "ranges_apart a n b k = (a + n \<le> b \<or> b + k \<le> a)"

lemma live_in_chunk:
  assumes "mb_inv b" "a \<in> mb_live b"
  shows "\<exists>c \<in> set (mb_chunks b). c \<le> a \<and> a + mb_elem_size b \<le> c + mb_bytes b"
proof -
  obtain c k where c: "c \<in> set (mb_chunks b)" "k < mb_elem_count b" "a = c + k * mb_elem_size b"
    using assms(2) by (auto simp: mb_live_def pool_live_def pool_cells_def in_chunk_cells mb_chunks_def)
  have "Suc k * mb_elem_size b \<le> mb_bytes b" unfolding mb_bytes_def using c(2) by (intro mult_le_mono1) simp
  then show ?thesis using c by (intro bexI [of _ c]) auto
qed

lemma live_cells_apart:
  assumes "mb_inv b" "a \<in> mb_live b" "a' \<in> mb_live b" "a \<noteq> a'"
  shows "ranges_apart a (mb_elem_size b) a' (mb_elem_size b)"
  using cells_apart [of "mb_elem_size b" "mb_elem_count b" "my_chunk (mb_pool b)" a a'] assms
  by (auto simp: mb_inv_def mb_live_def pool_live_def pool_inv_def pool_cells_def apart_def ranges_apart_def)

section \<open>Pools of classes\<close>

record class_pool =
  blocks :: "nat \<Rightarrow> memblock"
  stored :: "nat \<Rightarrow> nat"

text \<open>
  The size in \<^verbatim>\<open>uint32_t\<close> of a request with its header of four bytes, rounded up to a power of two \<open>B\<close>: the
  sum and the rounding are those of \<^verbatim>\<open>size_t\<close>.
\<close>

definition request_size :: "nat \<Rightarrow> nat \<Rightarrow> nat" where
  "request_size B in_size = ((in_size + 4 + (B - 1)) mod 2 ^ 64) div B * B mod 2 ^ 32"

definition class_allocate :: "nat \<Rightarrow> (nat \<Rightarrow> nat) \<Rightarrow> nat \<Rightarrow> nat \<times> nat \<Rightarrow> class_pool \<Rightarrow> (nat \<times> class_pool) outcome" where
  "class_allocate B index max_index = (\<lambda>(in_size, chunk) m.
     let bytes = request_size B in_size; i = index bytes
     in if i \<le> max_index then
          bind_outcome (memblock_get chunk (blocks m i)) (\<lambda>(raw, b).
            Returns (raw + 4, m\<lparr>blocks := (blocks m)(i := b), stored := (stored m)(raw := bytes)\<rparr>))
        else Returns (chunk + 4, m\<lparr>stored := (stored m)(chunk := bytes)\<rparr>))"

definition class_deallocate :: "(nat \<Rightarrow> nat) \<Rightarrow> nat \<Rightarrow> nat \<Rightarrow> class_pool \<Rightarrow> class_pool" where
  "class_deallocate index max_index p m =
     (let raw = p - 4; i = index (stored m raw)
      in if i \<le> max_index then m\<lparr>blocks := (blocks m)(i := memblock_release raw (blocks m i))\<rparr> else m)"

text \<open>The pointers given out, what holds of a pool, and what it needs of a request and its chunk.\<close>

definition class_live :: "nat \<Rightarrow> class_pool \<Rightarrow> nat set" where
  "class_live max_index m = (\<Union>i \<in> {..max_index}. (\<lambda>raw. raw + 4) ` mb_live (blocks m i))"

definition chunks_apart :: "memblock \<Rightarrow> memblock \<Rightarrow> bool" where
  "chunks_apart b b' = (\<forall>c \<in> set (mb_chunks b). \<forall>d \<in> set (mb_chunks b'). ranges_apart c (mb_bytes b) d (mb_bytes b'))"

definition class_inv :: "(nat \<Rightarrow> nat) \<Rightarrow> nat \<Rightarrow> (nat \<Rightarrow> nat) \<Rightarrow> class_pool \<Rightarrow> bool" where
  "class_inv index max_index es m \<longleftrightarrow>
     (\<forall>i \<le> max_index. mb_inv (blocks m i) \<and> mb_elem_size (blocks m i) = es i
        \<and> (\<forall>raw \<in> mb_live (blocks m i). index (stored m raw) = i \<and> stored m raw \<le> es i))
     \<and> (\<forall>i \<le> max_index. \<forall>j \<le> max_index. i \<noteq> j \<longrightarrow> chunks_apart (blocks m i) (blocks m j))"

definition class_memory :: "nat \<Rightarrow> (nat \<Rightarrow> nat) \<Rightarrow> nat \<Rightarrow> nat \<times> nat \<Rightarrow> class_pool \<Rightarrow> bool" where
  "class_memory B index max_index = (\<lambda>(in_size, chunk) m.
     let i = index (request_size B in_size)
     in mb_fresh chunk (blocks m i)
        \<and> (\<forall>j \<le> max_index. j \<noteq> i \<longrightarrow> (\<forall>d \<in> set (mb_chunks (blocks m j)). ranges_apart chunk (mb_bytes (blocks m i)) d (mb_bytes (blocks m j)))))"

definition class_fits :: "nat \<Rightarrow> (nat \<Rightarrow> nat) \<Rightarrow> nat \<Rightarrow> nat \<times> nat \<Rightarrow> class_pool \<Rightarrow> bool" where
  "class_fits B index max_index r m \<longleftrightarrow> 0 < request_size B (fst r) \<and> index (request_size B (fst r)) \<le> max_index
     \<and> class_memory B index max_index r m"

lemma ranges_apart_sym: "ranges_apart a n b k = ranges_apart b k a n"
  by (auto simp: ranges_apart_def)

lemma chunks_apart_sym: "chunks_apart b b' = chunks_apart b' b"
  unfolding chunks_apart_def using ranges_apart_sym by blast

lemma chunks_apart_live:
  assumes "chunks_apart b b'" "mb_inv b" "mb_inv b'" "a \<in> mb_live b" "a' \<in> mb_live b'"
  shows "ranges_apart a (mb_elem_size b) a' (mb_elem_size b')"
proof -
  obtain c where c: "c \<in> set (mb_chunks b)" "c \<le> a" "a + mb_elem_size b \<le> c + mb_bytes b"
    using live_in_chunk [OF assms(2,4)] by blast
  obtain d where d: "d \<in> set (mb_chunks b')" "d \<le> a'" "a' + mb_elem_size b' \<le> d + mb_bytes b'"
    using live_in_chunk [OF assms(3,5)] by blast
  have "ranges_apart c (mb_bytes b) d (mb_bytes b')" using assms(1) c(1) d(1) by (simp add: chunks_apart_def)
  then show ?thesis using c d by (auto simp: ranges_apart_def)
qed

lemma mb_inv_size: "mb_inv b \<Longrightarrow> 0 < mb_elem_size b"
  by (simp add: mb_inv_def pool_inv_def)

lemma class_live_apart:
  assumes inv: "class_inv index max_index es m" and "i \<le> max_index" "j \<le> max_index"
    and "a \<in> mb_live (blocks m i)" "a' \<in> mb_live (blocks m j)" "a \<noteq> a'"
  shows "ranges_apart a (es i) a' (es j)"
proof (cases "i = j")
  case True
  then show ?thesis using assms live_cells_apart [of "blocks m i" a a'] by (auto simp: class_inv_def)
next
  case False
  then show ?thesis using assms chunks_apart_live [of "blocks m i" "blocks m j" a a'] by (auto simp: class_inv_def)
qed

lemma apart_live_disjoint:
  assumes "chunks_apart b b'" "mb_inv b" "mb_inv b'" "a \<in> mb_live b"
  shows "a \<notin> mb_live b'"
proof
  assume "a \<in> mb_live b'"
  then have "ranges_apart a (mb_elem_size b) a (mb_elem_size b')" using assms by (intro chunks_apart_live)
  then show False using mb_inv_size [OF assms(2)] mb_inv_size [OF assms(3)] by (simp add: ranges_apart_def)
qed

lemma class_invD:
  assumes "class_inv index max_index es m" "i \<le> max_index"
  shows "mb_inv (blocks m i)" "mb_elem_size (blocks m i) = es i"
    and "raw \<in> mb_live (blocks m i) \<Longrightarrow> index (stored m raw) = i \<and> stored m raw \<le> es i"
    and "j \<le> max_index \<Longrightarrow> i \<noteq> j \<Longrightarrow> chunks_apart (blocks m i) (blocks m j)"
  using assms by (auto simp: class_inv_def)

lemma in_class_live: "p \<in> class_live max_index m \<longleftrightarrow> (\<exists>i \<le> max_index. \<exists>raw \<in> mb_live (blocks m i). p = raw + 4)"
  by (auto simp: class_live_def)

definition other_live :: "nat \<Rightarrow> nat \<Rightarrow> class_pool \<Rightarrow> nat set" where
  "other_live max_index i m = (\<Union>j \<in> {..max_index} - {i}. mb_live (blocks m j))"

lemma class_live_split:
  assumes "i \<le> max_index"
  shows "class_live max_index m = (\<lambda>raw. raw + 4) ` (mb_live (blocks m i) \<union> other_live max_index i m)"
    and "class_live max_index (m\<lparr>blocks := (blocks m)(i := b), stored := st\<rparr>) = (\<lambda>raw. raw + 4) ` (mb_live b \<union> other_live max_index i m)"
  using assms by (auto simp: class_live_def other_live_def split: if_splits)

text \<open>The invariant after one class has changed, and the header of one of its cells.\<close>

lemma class_inv_upd:
  assumes inv: "class_inv index max_index es m" and i: "i \<le> max_index"
    and b: "mb_inv b" "mb_elem_size b = es i" "\<And>j. j \<le> max_index \<Longrightarrow> j \<noteq> i \<Longrightarrow> chunks_apart b (blocks m j)"
    and live: "mb_live b - {a} \<subseteq> mb_live (blocks m i)" and a: "a \<in> mb_live b \<longrightarrow> index v = i \<and> v \<le> es i"
    and others: "st = (stored m)(a := v) \<and> a \<in> mb_live b \<or> st = stored m \<and> a \<notin> mb_live b"
  shows "class_inv index max_index es (m\<lparr>blocks := (blocks m)(i := b), stored := st\<rparr>)"
proof -
  have o: "a \<notin> mb_live (blocks m j)" if "j \<le> max_index" "j \<noteq> i" "a \<in> mb_live b" for j
    using apart_live_disjoint [OF b(3) b(1) _ that(3)] that class_invD(1) [OF inv] by blast
  have "index (st raw) = j \<and> st raw \<le> es j" if j: "j \<le> max_index" "raw \<in> mb_live (((blocks m)(i := b)) j)" for j raw
    using others o [OF j(1)] j class_invD(3) [OF inv j(1)] a live by (auto split: if_splits)
  then show ?thesis using class_invD [OF inv] b chunks_apart_sym by (auto simp: class_inv_def)
qed

section \<open>Classes that hold their sizes\<close>

locale size_classes =
  fixes B :: nat and index :: "nat \<Rightarrow> nat" and max_index :: nat and es :: "nat \<Rightarrow> nat"
  assumes class_holds: "B dvd bytes \<Longrightarrow> 0 < bytes \<Longrightarrow> bytes < 2 ^ 32 \<Longrightarrow> index bytes \<le> max_index \<Longrightarrow> bytes \<le> es (index bytes)"
    and boundary: "B dvd 2 ^ 32"
begin

lemma request_fits: "index (request_size B n) \<le> max_index \<Longrightarrow> 0 < request_size B n \<Longrightarrow> request_size B n \<le> es (index (request_size B n))"
proof -
  have "B dvd request_size B n" unfolding request_size_def using boundary by (simp add: dvd_mod)
  moreover have "request_size B n < 2 ^ 32" by (simp add: request_size_def)
  ultimately show "index (request_size B n) \<le> max_index \<Longrightarrow> 0 < request_size B n \<Longrightarrow> ?thesis" using class_holds by blast
qed

lemma allocate_law:
  assumes inv: "class_inv index max_index es m" and fits: "class_fits B index max_index r m"
  shows "\<exists>a m'. class_allocate B index max_index r m = Returns (a, m') \<and> class_inv index max_index es m'
    \<and> a \<notin> class_live max_index m \<and> class_live max_index m' = insert a (class_live max_index m)"
proof -
  obtain n chunk where r: "r = (n, chunk)" by (cases r)
  let ?v = "request_size B n" and ?i = "index (request_size B n)"
  let ?b = "blocks m ?i"
  have f: "0 < ?v" "?i \<le> max_index" "mb_fresh chunk ?b"
    "\<And>j d. j \<le> max_index \<Longrightarrow> j \<noteq> ?i \<Longrightarrow> d \<in> set (mb_chunks (blocks m j)) \<Longrightarrow> ranges_apart chunk (mb_bytes ?b) d (mb_bytes (blocks m j))"
    using fits by (simp_all add: class_fits_def class_memory_def r Let_def)
  obtain raw b where g: "memblock_get chunk ?b = Returns (raw, b)" "mb_inv b" "raw \<notin> mb_live ?b" "mb_live b = insert raw (mb_live ?b)"
    using memblock_get_law [OF class_invD(1) [OF inv f(2)] f(3)] by blast
  have c: "same_cells ?b b" "set (mb_chunks b) \<subseteq> insert chunk (set (mb_chunks ?b))" using memblock_get_chunks [OF g(1)] by simp_all
  have apart: "chunks_apart b (blocks m j)" if "j \<le> max_index" "j \<noteq> ?i" for j
    using f(4) [OF that] class_invD(4) [OF inv f(2) that(1)] that(2) c by (auto simp: chunks_apart_def same_cells_def mb_bytes_def)
  let ?m = "m\<lparr>blocks := (blocks m)(?i := b), stored := (stored m)(raw := ?v)\<rparr>"
  have i: "class_inv index max_index es ?m"
    using class_invD(2) [OF inv f(2)] g c(1) apart request_fits [OF f(2,1)]
    by (intro class_inv_upd [OF inv f(2), where a = raw and v = ?v]) (auto simp: same_cells_def)
  have "raw \<notin> mb_live (blocks m j)" if "j \<le> max_index" for j
    using apart_live_disjoint [OF apart g(2) class_invD(1) [OF inv]] that g(3,4) by (cases "j = ?i") auto
  then have new: "raw + 4 \<notin> class_live max_index m" by (auto simp: in_class_live)
  have l: "class_live max_index ?m = insert (raw + 4) (class_live max_index m)"
    unfolding class_live_split(2) [OF f(2)] class_live_split(1) [OF f(2), of m] g(4) by simp
  have "class_allocate B index max_index r m = Returns (raw + 4, ?m)" using f(2) g(1) by (simp add: class_allocate_def r Let_def)
  then show ?thesis using i new l by blast
qed

lemma deallocate_law:
  assumes inv: "class_inv index max_index es m" and "p \<in> class_live max_index m"
  shows "class_inv index max_index es (class_deallocate index max_index p m)
    \<and> class_live max_index (class_deallocate index max_index p m) = class_live max_index m - {p}"
proof -
  obtain i raw where p: "i \<le> max_index" "raw \<in> mb_live (blocks m i)" "p = raw + 4" using assms(2) by (auto simp: in_class_live)
  have ix: "index (stored m raw) = i" using class_invD(3) [OF inv p(1,2)] by simp
  let ?b = "memblock_release raw (blocks m i)"
  let ?m = "m\<lparr>blocks := (blocks m)(i := ?b)\<rparr>"
  have d: "class_deallocate index max_index p m = ?m" using p ix by (simp add: class_deallocate_def Let_def)
  have b: "mb_inv ?b" "mb_live ?b = mb_live (blocks m i) - {raw}"
    using memblock_release_law [OF class_invD(1) [OF inv p(1)] p(2)] by simp_all
  have c: "same_cells (blocks m i) ?b" "mb_chunks ?b = mb_chunks (blocks m i)" using memblock_release_chunks by auto
  then have "chunks_apart ?b (blocks m j)" if "j \<le> max_index" "j \<noteq> i" for j
    using class_invD(4) [OF inv p(1) that(1)] that(2) by (auto simp: chunks_apart_def same_cells_def mb_bytes_def)
  then have "class_inv index max_index es (m\<lparr>blocks := (blocks m)(i := ?b), stored := stored m\<rparr>)"
    using b c(1) class_invD(2) [OF inv p(1)]
    by (intro class_inv_upd [OF inv p(1), where a = raw and v = 0]) (auto simp: same_cells_def)
  then have "class_inv index max_index es ?m" by simp
  moreover have "raw \<notin> mb_live (blocks m j)" if "j \<le> max_index" "j \<noteq> i" for j
    using apart_live_disjoint [OF class_invD(4) [OF inv p(1)] class_invD(1) [OF inv p(1)] class_invD(1) [OF inv] p(2)] that by blast
  then have "raw \<notin> other_live max_index i m" by (auto simp: other_live_def)
  then have "class_live max_index (m\<lparr>blocks := (blocks m)(i := ?b), stored := stored m\<rparr>) = class_live max_index m - {p}"
    unfolding class_live_split(2) [OF p(1)] class_live_split(1) [OF p(1), of m] b(2) p(3) by auto
  then have "class_live max_index ?m = class_live max_index m - {p}" by simp
  ultimately show ?thesis unfolding d by blast
qed

text \<open>An allocation stores the size of its request and leaves the sizes of the others.\<close>

lemma allocate_stores:
  assumes "class_inv index max_index es m" "class_fits B index max_index r m" "class_allocate B index max_index r m = Returns (a, m')"
  shows "stored m' (a - 4) = request_size B (fst r)" "p \<in> class_live max_index m \<Longrightarrow> stored m' (p - 4) = stored m (p - 4)"
proof -
  obtain raw where raw: "a = raw + 4" "stored m' = (stored m)(raw := request_size B (fst r))"
    using assms(2,3) by (auto simp: class_allocate_def class_fits_def bind_outcome_Returns_iff Let_def split: prod.splits)
  then show "stored m' (a - 4) = request_size B (fst r)" by simp
  assume p: "p \<in> class_live max_index m"
  have "a \<notin> class_live max_index m" using allocate_law [OF assms(1,2)] assms(3) by auto
  then have "p - 4 \<noteq> raw" using p raw(1) by (auto simp: in_class_live)
  then show "stored m' (p - 4) = stored m (p - 4)" using raw(2) by simp
qed

text \<open>What two users of the pool were given does not overlap, headers included.\<close>

lemma payloads_apart:
  assumes "class_inv index max_index es m" "p \<in> class_live max_index m" "q \<in> class_live max_index m" "p \<noteq> q"
  shows "ranges_apart (p - 4) (stored m (p - 4)) (q - 4) (stored m (q - 4))"
proof -
  obtain i a where a: "i \<le> max_index" "a \<in> mb_live (blocks m i)" "p = a + 4" using assms(2) by (auto simp: in_class_live)
  obtain j b where b: "j \<le> max_index" "b \<in> mb_live (blocks m j)" "q = b + 4" using assms(3) by (auto simp: in_class_live)
  have "ranges_apart a (es i) b (es j)" using class_live_apart [OF assms(1) a(1) b(1) a(2) b(2)] assms(4) a(3) b(3) by simp
  moreover have "stored m a \<le> es i" "stored m b \<le> es j" using class_invD(3) [OF assms(1)] a b by auto
  ultimately show ?thesis using a(3) b(3) by (auto simp: ranges_apart_def)
qed

end

text \<open>mempool2: classes that double from 64 bytes to 128 kilobytes; the index is the highest bit, rounded up.\<close>

fun bsr :: "nat \<Rightarrow> nat" where
  "bsr w = (if w \<le> 1 then 0 else bsr (w div 2) + 1)"

declare bsr.simps [simp del]

definition mempool2_index :: "nat \<Rightarrow> nat" where
  "mempool2_index bytes = bsr (bytes div 64) + (if (bytes - 1) AND bytes \<noteq> 0 then 1 else 0)"

definition mempool2_elem :: "nat \<Rightarrow> nat" where
  "mempool2_elem i = 64 * 2 ^ i"

definition mempool2_count :: "nat \<Rightarrow> nat" where
  "mempool2_count i = 524288 div mempool2_elem i"

text \<open>mempool3: classes in steps of 128 bytes; a size of 0 gives the largest index of \<^verbatim>\<open>uint32_t\<close>.\<close>

definition mempool3_index :: "nat \<Rightarrow> nat" where
  "mempool3_index bytes = (bytes div 128 + (2 ^ 32 - 1)) mod 2 ^ 32"

definition mempool3_elem :: "nat \<Rightarrow> nat" where
  "mempool3_elem i = 128 * (i + 1)"

definition mempool3_count :: "nat \<Rightarrow> nat" where
  "mempool3_count i = 65536 div mempool3_elem i"

text \<open>Of a size of 0 the highest bit is undefined, and so is the class taken.\<close>

definition mempool2_allocate :: "nat \<times> nat \<Rightarrow> class_pool \<Rightarrow> (nat \<times> class_pool) outcome" where
  "mempool2_allocate r m = (if request_size 64 (fst r) div 64 = 0 then OutOfBounds else class_allocate 64 mempool2_index 11 r m)"

definition mempool2_deallocate :: "nat \<Rightarrow> class_pool \<Rightarrow> class_pool" where
  "mempool2_deallocate = class_deallocate mempool2_index 11"

definition mempool2_new :: "(nat \<Rightarrow> nat) \<Rightarrow> (nat \<Rightarrow> nat option) \<Rightarrow> class_pool" where
  "mempool2_new chunks mem = \<lparr>blocks = (\<lambda>i. memblock_new (mempool2_elem i) (mempool2_count i) (chunks i) mem), stored = (\<lambda>a. 0)\<rparr>"

definition mempool3_allocate :: "nat \<times> nat \<Rightarrow> class_pool \<Rightarrow> (nat \<times> class_pool) outcome" where
  "mempool3_allocate = class_allocate 128 mempool3_index 39"

definition mempool3_deallocate :: "nat \<Rightarrow> class_pool \<Rightarrow> class_pool" where
  "mempool3_deallocate = class_deallocate mempool3_index 39"

definition mempool3_new :: "(nat \<Rightarrow> nat) \<Rightarrow> (nat \<Rightarrow> nat option) \<Rightarrow> class_pool" where
  "mempool3_new chunks mem = \<lparr>blocks = (\<lambda>i. memblock_new (mempool3_elem i) (mempool3_count i) (chunks i) mem), stored = (\<lambda>a. 0)\<rparr>"

lemma mempool3_holds:
  "128 dvd bytes \<Longrightarrow> 0 < bytes \<Longrightarrow> bytes < 2 ^ 32 \<Longrightarrow> bytes \<le> mempool3_elem (mempool3_index bytes)"
proof -
  assume b: "128 dvd bytes" "0 < bytes" "bytes < 2 ^ 32"
  then obtain q where q: "bytes = 128 * q" by blast
  then have "0 < q" "q < 2 ^ 25" using b by simp_all
  then have "q + (2 ^ 32 - 1) = (q - 1) + 2 ^ 32" by simp
  then have "(q + (2 ^ 32 - 1)) mod 2 ^ 32 = (q - 1 + 2 ^ 32) mod 2 ^ 32" by (rule arg_cong)
  also have "\<dots> = (q - 1) mod 2 ^ 32" by (rule mod_add_self2)
  also have "\<dots> = q - 1" using \<open>q < 2 ^ 25\<close> by (intro mod_less) simp
  finally show ?thesis using q \<open>0 < q\<close> by (simp add: mempool3_index_def mempool3_elem_def)
qed

lemma bsr_bounds: "0 < w \<Longrightarrow> 2 ^ bsr w \<le> w \<and> w < 2 * 2 ^ bsr w"
proof (induction w rule: bsr.induct)
  case (1 w)
  show ?case
  proof (cases "w \<le> 1")
    case True
    then show ?thesis using 1(2) by (simp add: bsr.simps [of w])
  next
    case False
    then have "2 ^ bsr (w div 2) \<le> w div 2 \<and> w div 2 < 2 * 2 ^ bsr (w div 2)" using 1(1) by simp
    then show ?thesis using False by (simp add: bsr.simps [of w]) linarith
  qed
qed

lemma bit_highest: "2 ^ k \<le> x \<Longrightarrow> x < 2 * 2 ^ k \<Longrightarrow> bit (x :: nat) k"
proof -
  assume "2 ^ k \<le> x" "x < 2 * 2 ^ k"
  then have "x div 2 ^ k = 1" by (intro div_nat_eqI) simp_all
  then show ?thesis by (simp add: bit_iff_odd)
qed

lemma mempool2_class:
  assumes "64 dvd bytes" "0 < bytes"
  shows "bytes \<le> mempool2_elem (mempool2_index bytes) \<and> mempool2_elem (mempool2_index bytes) < 2 * bytes"
proof -
  obtain q where q: "bytes = 64 * q" "0 < q" using assms by auto
  let ?b = "bsr q"
  have b: "2 ^ ?b \<le> q" "q < 2 * 2 ^ ?b" using bsr_bounds [OF q(2)] by simp_all
  have d: "bytes div 64 = q" using q(1) by simp
  show ?thesis
  proof (cases "q = 2 ^ ?b")
    case True
    then have "bytes = 2 ^ (?b + 6)" using q(1) by (simp add: power_add)
    moreover have "mask n AND 2 ^ n = (0 :: nat)" for n
      by (rule bit_eqI) (auto simp: bit_and_iff bit_exp_iff bit_mask_iff)
    then have "(2 ^ n - 1) AND 2 ^ n = (0 :: nat)" for n by (simp add: mask_eq_exp_minus_1)
    ultimately have "(bytes - 1) AND bytes = 0" by simp
    then show ?thesis using True q by (simp add: mempool2_index_def mempool2_elem_def d)
  next
    case False
    have "64 * 2 ^ ?b = (2 :: nat) ^ (?b + 6)" by (simp add: power_add)
    moreover have "64 * 2 ^ ?b < bytes" "bytes < 2 * (64 * 2 ^ ?b)" using b False q(1) by simp_all
    ultimately have "2 ^ (?b + 6) \<le> bytes - 1" "bytes - 1 < 2 * 2 ^ (?b + 6)" "2 ^ (?b + 6) \<le> bytes" "bytes < 2 * 2 ^ (?b + 6)" by linarith+
    then have "bit (bytes - 1) (?b + 6)" "bit bytes (?b + 6)" by (simp_all only: bit_highest)
    then have "(bytes - 1) AND bytes \<noteq> 0" by (metis bit_0_eq bit_and_iff bot_apply bot_bool_def)
    then show ?thesis using b q(1) False by (simp add: mempool2_index_def mempool2_elem_def d)
  qed
qed

interpretation doubling: size_classes 64 mempool2_index 11 mempool2_elem
  by unfold_locales (simp_all add: mempool2_class)

interpretation linear: size_classes 128 mempool3_index 39 mempool3_elem
  by unfold_locales (simp_all add: mempool3_holds)

text \<open>Both are allocators in the sense of the contract.\<close>

lemma mempool2_small: "class_fits 64 mempool2_index 11 r m \<Longrightarrow> mempool2_allocate r m = class_allocate 64 mempool2_index 11 r m"
proof -
  assume f: "class_fits 64 mempool2_index 11 r m"
  have "64 dvd request_size 64 (fst r)" unfolding request_size_def by (simp add: dvd_mod)
  then have "request_size 64 (fst r) div 64 \<noteq> 0" using f by (auto simp: class_fits_def)
  then show ?thesis by (simp add: mempool2_allocate_def)
qed

interpretation pool2: allocator mempool2_allocate mempool2_deallocate "class_inv mempool2_index 11 mempool2_elem" "class_live 11" "class_fits 64 mempool2_index 11"
  by unfold_locales (simp_all add: mempool2_small doubling.allocate_law mempool2_deallocate_def doubling.deallocate_law)

interpretation pool3: allocator mempool3_allocate mempool3_deallocate "class_inv mempool3_index 39 mempool3_elem" "class_live 39" "class_fits 128 mempool3_index 39"
  by unfold_locales (simp_all add: mempool3_allocate_def linear.allocate_law mempool3_deallocate_def linear.deallocate_law)

lemma memblock_new_inv:
  "0 < es \<Longrightarrow> 0 < n \<Longrightarrow> mb_inv (memblock_new es n c mem) \<and> mb_live (memblock_new es n c mem) = {} \<and> mb_chunks (memblock_new es n c mem) = [c]"
  using new_inv [of es n c mem]
  by (simp add: mb_inv_def mb_live_def mb_chunks_def memblock_new_def pool_new_def enlarge_def Let_def)

lemma mempool2_new_inv:
  assumes "\<And>i j. i \<le> 11 \<Longrightarrow> j \<le> 11 \<Longrightarrow> i \<noteq> j \<Longrightarrow> ranges_apart (chunks i) 524288 (chunks j) 524288"
  shows "class_inv mempool2_index 11 mempool2_elem (mempool2_new chunks mem)"
proof -
  have p: "0 < mempool2_elem i \<and> 0 < mempool2_count i \<and> mempool2_count i * mempool2_elem i \<le> 524288" if "i \<le> 11" for i
  proof -
    have "(2 :: nat) ^ i \<le> 2 ^ 11" using that by (intro power_increasing) simp_all
    then show ?thesis by (simp add: mempool2_elem_def mempool2_count_def div_greater_zero_iff)
  qed
  have "ranges_apart (chunks i) (mempool2_count i * mempool2_elem i) (chunks j) (mempool2_count j * mempool2_elem j)"
    if "i \<le> 11" "j \<le> 11" "i \<noteq> j" for i j
    using assms [OF that] p [OF that(1)] p [OF that(2)] by (auto simp: ranges_apart_def)
  then show ?thesis using p memblock_new_inv
    by (simp add: class_inv_def mempool2_new_def chunks_apart_def mb_bytes_def) (simp add: memblock_new_def)
qed

section \<open>Allocations and the sizes asked for\<close>

lemma request_size_ge: "n \<le> 131068 \<Longrightarrow> n + 4 \<le> request_size 64 n \<and> request_size 64 n \<le> 131072"
proof -
  assume n: "n \<le> 131068"
  let ?t = "n + 67"
  have "?t mod 64 < 64" by simp
  then have le: "n + 4 \<le> ?t div 64 * 64" using div_mult_mod_eq [of ?t 64] by linarith
  have "?t div 64 \<le> 2048" using n by (simp add: div_le_mono [of ?t 131135 64, simplified])
  then have "?t div 64 * 64 \<le> 131072" by simp
  then show ?thesis using le n by (simp add: request_size_def add.commute [of n])
qed

lemma small_request: "n \<le> 131068 \<Longrightarrow> 0 < request_size 64 n \<and> mempool2_index (request_size 64 n) \<le> 11"
proof -
  assume n: "n \<le> 131068"
  let ?b = "request_size 64 n" and ?i = "mempool2_index (request_size 64 n)"
  have b: "0 < ?b" "?b \<le> 131072" using request_size_ge [OF n] by simp_all
  have "64 dvd ?b" unfolding request_size_def by (simp add: dvd_mod)
  then have "mempool2_elem ?i < 2 * ?b" using mempool2_class b(1) by blast
  then have "(2 :: nat) ^ ?i < 2 ^ 12" using b(2) by (simp add: mempool2_elem_def)
  then have "?i < 12" by (rule power_less_imp_less_exp [rotated]) simp
  then show ?thesis using b(1) by simp
qed

lemma fits_all_mono:
  "fits_all al P rs m \<Longrightarrow> (\<And>r m. r \<in> set rs \<Longrightarrow> P r m \<Longrightarrow> Q r m) \<Longrightarrow> fits_all al Q rs m"
proof (induction rs arbitrary: m)
  case (Cons r rs)
  then show ?case by (cases "al r m") auto
qed simp

lemma mempool2_stores:
  "class_inv mempool2_index 11 mempool2_elem m \<Longrightarrow> fits_all mempool2_allocate (class_fits 64 mempool2_index 11) rs m \<Longrightarrow>
    alloc_all mempool2_allocate rs m = Returns (ps, m') \<Longrightarrow>
    (\<forall>p \<in> class_live 11 m. stored m' (p - 4) = stored m (p - 4))
    \<and> list_all2 (\<lambda>r p. stored m' (p - 4) = request_size 64 (fst r)) rs ps"
proof (induction rs arbitrary: m ps)
  case (Cons r rs)
  have f: "class_fits 64 mempool2_index 11 r m" using Cons.prems(2) by simp
  obtain a m1 qs where a: "mempool2_allocate r m = Returns (a, m1)" and qs: "alloc_all mempool2_allocate rs m1 = Returns (qs, m')" "ps = a # qs"
    using Cons.prems(3) by (auto simp: bind_outcome_Returns_iff)
  have ca: "class_allocate 64 mempool2_index 11 r m = Returns (a, m1)" using a mempool2_small [OF f] by simp
  have inv: "class_inv mempool2_index 11 mempool2_elem m1" and l: "class_live 11 m1 = insert a (class_live 11 m)"
    using doubling.allocate_law [OF Cons.prems(1) f] ca by auto
  have ih: "(\<forall>p \<in> class_live 11 m1. stored m' (p - 4) = stored m1 (p - 4))
      \<and> list_all2 (\<lambda>r p. stored m' (p - 4) = request_size 64 (fst r)) rs qs"
    by (rule Cons.IH [OF inv _ qs(1)]) (use Cons.prems(2) a in simp)
  show ?case
    using ih l qs(2) doubling.allocate_stores [OF Cons.prems(1) f ca] by auto
qed simp

section \<open>Properties\<close>

text \<open>
  C27. A pool of doubling classes gives out memory that does not overlap: on a new pool whose chunks \<^verbatim>\<open>malloc\<close>
  keeps apart, any requests of up to 131068 bytes (128 kilobytes less the header) succeed with distinct pointers, and
  the bytes asked for, with the four bytes of the header before them, lie apart for every two of them.
\<close>

theorem mempool2_payloads_apart:
  assumes "\<And>i j. i \<le> 11 \<Longrightarrow> j \<le> 11 \<Longrightarrow> i \<noteq> j \<Longrightarrow> ranges_apart (chunks i) 524288 (chunks j) 524288"
    and "\<forall>r \<in> set rs. fst r \<le> 131068"
    and "fits_all mempool2_allocate (class_memory 64 mempool2_index 11) rs (mempool2_new chunks mem)"
  shows "\<exists>ps m. alloc_all mempool2_allocate rs (mempool2_new chunks mem) = Returns (ps, m) \<and> length ps = length rs \<and> distinct ps
    \<and> (\<forall>i < length rs. \<forall>j < length rs. i \<noteq> j \<longrightarrow> ranges_apart (ps ! i - 4) (fst (rs ! i) + 4) (ps ! j - 4) (fst (rs ! j) + 4))"
proof -
  let ?m0 = "mempool2_new chunks mem"
  have fits: "fits_all mempool2_allocate (class_fits 64 mempool2_index 11) rs ?m0"
    by (rule fits_all_mono [OF assms(3)]) (use assms(2) small_request in \<open>auto simp: class_fits_def\<close>)
  have inv: "class_inv mempool2_index 11 mempool2_elem ?m0" by (rule mempool2_new_inv [OF assms(1)])
  obtain ps m where m: "alloc_all mempool2_allocate rs ?m0 = Returns (ps, m)"
      "class_inv mempool2_index 11 mempool2_elem m" "length ps = length rs" "distinct ps" "set ps \<subseteq> class_live 11 m"
    using pool2.allocs_distinct [OF inv fits] by auto
  have st: "stored m (ps ! i - 4) = request_size 64 (fst (rs ! i))" if "i < length rs" for i
    using mempool2_stores [OF inv fits m(1)] that by (auto simp: list_all2_conv_all_nth)
  have "ranges_apart (ps ! i - 4) (fst (rs ! i) + 4) (ps ! j - 4) (fst (rs ! j) + 4)" if ij: "i < length rs" "j < length rs" "i \<noteq> j" for i j
  proof -
    have "ps ! i \<noteq> ps ! j" using m(3,4) ij by (simp add: nth_eq_iff_index_eq)
    then have "ranges_apart (ps ! i - 4) (request_size 64 (fst (rs ! i))) (ps ! j - 4) (request_size 64 (fst (rs ! j)))"
      using doubling.payloads_apart [OF m(2), of "ps ! i" "ps ! j"] m(3,5) ij by (simp add: st subset_iff)
    moreover have "fst (rs ! i) + 4 \<le> request_size 64 (fst (rs ! i))" "fst (rs ! j) + 4 \<le> request_size 64 (fst (rs ! j))"
      using request_size_ge assms(2) ij by auto
    ultimately show ?thesis by (auto simp: ranges_apart_def)
  qed
  then show ?thesis using m by blast
qed

theorem mempool2_payloads_apart_witness:
  "\<exists>p m. alloc_all mempool2_allocate [(100, 2 ^ 30)] (mempool2_new (\<lambda>i. 2 ^ 20 * (i + 1)) (\<lambda>a. None)) = Returns ([p], m)"
proof -
  let ?chunks = "\<lambda>i. 2 ^ 20 * (i + 1) :: nat"
  have apart: "ranges_apart (?chunks i) 524288 (?chunks j) 524288" if "i \<noteq> j" for i j
    using that unfolding ranges_apart_def by (cases "i < j") simp_all
  have "bsr 2 = 1" by (simp add: bsr.simps [of 2] bsr.simps [of "Suc 0"])
  moreover have "(127 :: nat) AND 128 = 0" by code_simp
  ultimately have n: "request_size 64 100 = 128" "mempool2_index 128 = 1" by (simp_all add: request_size_def mempool2_index_def)
  have far: "ranges_apart (2 ^ 30) a (?chunks i) b" if "i \<le> 11" "b \<le> 524288" for i a b
    using that by (simp add: ranges_apart_def)
  have le: "mempool2_count i * mempool2_elem i \<le> 524288" for i by (simp add: mempool2_count_def)
  have "mb_fresh (2 ^ 30) (blocks (mempool2_new ?chunks (\<lambda>a. None)) 1)"
    using far [of 1 "mempool2_count 1 * mempool2_elem 1" "mempool2_count 1 * mempool2_elem 1"] le [of 1]
    by (simp add: mb_fresh_def fresh_chunk_def mempool2_new_def memblock_new_def pool_new_def enlarge_def Let_def apart_def ranges_apart_def)
  then have "class_memory 64 mempool2_index 11 (100, 2 ^ 30) (mempool2_new ?chunks (\<lambda>a. None))"
    using far le by (simp add: class_memory_def n Let_def mempool2_new_def mb_chunks_def mb_bytes_def memblock_new_def pool_new_def enlarge_def)
  then have fits: "fits_all mempool2_allocate (class_memory 64 mempool2_index 11) [(100, 2 ^ 30)] (mempool2_new ?chunks (\<lambda>a. None))"
    by (simp only: fits_all.simps) (simp split: outcome.split)
  have sizes: "\<forall>r \<in> set [(100 :: nat, 2 ^ 30 :: nat)]. fst r \<le> 131068" by simp
  obtain ps m where ps: "alloc_all mempool2_allocate [(100, 2 ^ 30)] (mempool2_new ?chunks (\<lambda>a. None)) = Returns (ps, m)"
      "length ps = length [(100 :: nat, 2 ^ 30 :: nat)]"
    using mempool2_payloads_apart [OF apart sizes fits] by blast
  from ps(2) obtain p where "ps = [p]" by (cases ps) auto
  then show ?thesis using ps(1) by blast
qed

text \<open>
  Both pools keep the size of a request in 32 bits: a request of \<open>k\<close> times 4 gigabytes and \<open>n\<close> bytes is
  served as one of \<open>n\<close> bytes.
\<close>

theorem request_truncated:
  assumes "n + 4 + 128 \<le> 2 ^ 32" "k < 2 ^ 31"
  shows "mempool2_allocate (2 ^ 32 * k + n, c) m = mempool2_allocate (n, c) m
    \<and> mempool3_allocate (2 ^ 32 * k + n, c) m = mempool3_allocate (n, c) m"
proof -
  have r: "request_size B (2 ^ 32 * k + n) = request_size B n" if f: "B dvd 2 ^ 32" "0 < B" "B \<le> 128" for B
  proof -
    obtain u where u: "(2 :: nat) ^ 32 = B * u" using f(1) by (rule dvdE)
    let ?t = "n + 4 + (B - 1)"
    have small: "?t < 2 ^ 32" using assms(1) f by simp
    have "2 ^ 32 * k \<le> 2 ^ 32 * (2 ^ 31 - 1)" using assms(2) by (intro mult_le_mono2) simp
    then have "2 ^ 32 * k + ?t < 2 ^ 64" using small by simp
    moreover have "2 ^ 32 * k + n + 4 + (B - 1) = 2 ^ 32 * k + ?t" by simp
    ultimately have "request_size B (2 ^ 32 * k + n) = ((2 ^ 32 * k + ?t) div B * B) mod 2 ^ 32" by (simp only: request_size_def mod_less)
    also have "(2 ^ 32 * k + ?t) div B = u * k + ?t div B" unfolding u using f(2) by (simp add: mult.assoc)
    also have "(u * k + ?t div B) * B mod 2 ^ 32 = (2 ^ 32 * k + ?t div B * B) mod 2 ^ 32" unfolding u by (simp add: algebra_simps)
    also have "\<dots> = request_size B n" using small by (simp add: request_size_def)
    finally show ?thesis .
  qed
  have "request_size 64 (2 ^ 32 * k + n) = request_size 64 n" "request_size 128 (2 ^ 32 * k + n) = request_size 128 n"
    by (intro r; simp)+
  then show ?thesis by (simp only: mempool2_allocate_def mempool3_allocate_def class_allocate_def prod.case fst_conv)
qed

theorem request_truncated_witness:
  "mempool2_allocate (2 ^ 32 * 1 + 10, 5) (mempool2_new (\<lambda>i. i) (\<lambda>a. None)) = mempool2_allocate (10, 5) (mempool2_new (\<lambda>i. i) (\<lambda>a. None))"
  using conjunct1 [OF request_truncated [of 10 1 5]] by simp

end
