(* ===== verification/CsvParser.thy ===== *)
theory CsvParser
  imports GPS_Prelude
begin

text \<open>
  The reader of comma separated values, \<^verbatim>\<open>xxsocket/src/fastest_csv_parser.h\<close>. The text is scanned with two
  pointers; \<open>cur\<close> is what lies between them. The NUL behind the text is the end of the list.
\<close>

section \<open>A line\<close>

datatype csv_state = Normal_field | Explicit_string_start | Explicit_string_ending

definition DQUOTE :: char where "DQUOTE = CHR 0x22"

text \<open>The fields handed to the callback and the text from the next line on.\<close>

fun csv_parse_line :: "csv_state \<Rightarrow> string \<Rightarrow> string list \<Rightarrow> string \<Rightarrow> string list \<times> string" where
  "csv_parse_line state cur out [] = (if state = Normal_field then out @ [cur] else out, [])"
| "csv_parse_line state cur out (c # cs) =
     (if c = CHR '','' then
        (case state of
           Normal_field \<Rightarrow> csv_parse_line Normal_field [] (out @ [cur]) cs
         | Explicit_string_ending \<Rightarrow> csv_parse_line Normal_field [] out cs
         | Explicit_string_start \<Rightarrow> csv_parse_line state (cur @ [c]) out cs)
      else if c = DQUOTE then
        (if state = Normal_field then csv_parse_line Explicit_string_start (drop 1 (cur @ [c])) out cs
         else csv_parse_line Explicit_string_ending (cur @ [c]) (out @ [cur]) cs)
      else if c = CHR 0x0D \<or> c = CHR 0x0A \<or> c = CHR 0x00 then
        (if state = Normal_field then out @ [cur] else out, drop (if c = CHR 0x0D then 1 else 0) cs)
      else csv_parse_line state (cur @ [c]) out cs)"

section \<open>A file\<close>

lemma csv_line_rest: "length (snd (csv_parse_line st cur out s)) \<le> length s - 1"
proof (induction s arbitrary: st cur out)
  case (Cons c s)
  have "length (snd (csv_parse_line st cur out s)) \<le> length s" for st cur out
    using Cons [of st cur out] by linarith
  then show ?case by (simp split: csv_state.split)
qed simp

lemma csv_line_shorter: "s \<noteq> [] \<Longrightarrow> csv_parse_line st cur out s = (fs, rest) \<Longrightarrow> length rest < length s"
  using csv_line_rest [of st cur out s] by (cases s) simp_all

function csv_lines :: "string \<Rightarrow> string list list" where
  "csv_lines s =
     (if s = [] then []
      else case csv_parse_line Normal_field [] [] s of (fs, rest) \<Rightarrow> fs # csv_lines rest)"
  by pat_completeness auto

termination
  by (relation "measure length") (auto dest: csv_line_shorter [OF _ sym])

declare csv_lines.simps [simp del]

definition parse_csv :: "string \<Rightarrow> string list list" where
  "parse_csv buffer = csv_lines buffer"

section \<open>Files that are read back\<close>

text \<open>A field is written as it is or in quotes, a line ends with a newline, with a return before it or not.\<close>

definition plain_char :: "char \<Rightarrow> bool" where
  "plain_char c = (c \<noteq> DQUOTE \<and> c \<noteq> CHR 0x0D \<and> c \<noteq> CHR 0x0A \<and> c \<noteq> CHR 0x00)"

fun print_field :: "bool \<times> string \<Rightarrow> string" where
  "print_field (quoted, v) = (if quoted then DQUOTE # v @ [DQUOTE] else v)"

fun wf_field :: "bool \<times> string \<Rightarrow> bool" where
  "wf_field (quoted, v) = (list_all plain_char v \<and> (quoted \<or> CHR '','' \<notin> set v))"

fun print_row :: "(bool \<times> string) list \<Rightarrow> string" where
  "print_row [] = []"
| "print_row [f] = print_field f"
| "print_row (f # fs) = print_field f @ '','' @ print_row fs"

definition line_end :: "bool \<Rightarrow> string" where
  "line_end crlf = (if crlf then [CHR 0x0D, CHR 0x0A] else [CHR 0x0A])"

fun print_rows :: "(bool \<times> (bool \<times> string) list) list \<Rightarrow> string" where
  "print_rows [] = []"
| "print_rows ((crlf, r) # rs) = print_row r @ line_end crlf @ print_rows rs"

definition wf_row :: "(bool \<times> string) list \<Rightarrow> bool" where
  "wf_row r = (r \<noteq> [] \<and> list_all wf_field r)"

lemma specials: "CHR '','' \<noteq> DQUOTE" "DQUOTE \<noteq> CHR '',''" "CHR 0x0D \<noteq> DQUOTE" "CHR 0x0A \<noteq> DQUOTE"
  by (simp_all add: DQUOTE_def)

lemma scan_plain:
  "list_all plain_char v \<Longrightarrow> CHR '','' \<notin> set v \<Longrightarrow> csv_parse_line st cur out (v @ rest) = csv_parse_line st (cur @ v) out rest"
  by (induction v arbitrary: cur) (auto simp: plain_char_def)

lemma scan_quoted:
  "list_all plain_char v \<Longrightarrow>
    csv_parse_line Explicit_string_start cur out (v @ rest) = csv_parse_line Explicit_string_start (cur @ v) out rest"
  by (induction v arbitrary: cur) (simp_all add: plain_char_def)

lemma scan_quoted_field:
  assumes "list_all plain_char v"
  shows "csv_parse_line Normal_field [] out (DQUOTE # v @ DQUOTE # rest) = csv_parse_line Explicit_string_ending (v @ [DQUOTE]) (out @ [v]) rest"
proof -
  have "csv_parse_line Normal_field [] out (DQUOTE # v @ DQUOTE # rest) = csv_parse_line Explicit_string_start [] out (v @ DQUOTE # rest)"
    using specials by simp
  also have "\<dots> = csv_parse_line Explicit_string_start v out (DQUOTE # rest)" using scan_quoted [OF assms, of "[]"] by simp
  also have "\<dots> = csv_parse_line Explicit_string_ending (v @ [DQUOTE]) (out @ [v]) rest" using specials by simp
  finally show ?thesis .
qed

lemma scan_end:
  "csv_parse_line st cur out (line_end crlf @ rest) = (if st = Normal_field then out @ [cur] else out, rest)"
  using specials by (simp add: line_end_def)

lemma scan_field:
  assumes "wf_field f"
  shows "csv_parse_line Normal_field [] out (print_field f @ CHR '','' # rest) = csv_parse_line Normal_field [] (out @ [snd f]) rest"
    and "csv_parse_line Normal_field [] out (print_field f @ line_end crlf @ rest) = (out @ [snd f], rest)"
proof -
  obtain q v where f: "f = (q, v)" by (cases f)
  have "csv_parse_line Normal_field [] out (print_field f @ CHR '','' # rest) = csv_parse_line Normal_field [] (out @ [v]) rest
    \<and> csv_parse_line Normal_field [] out (print_field f @ line_end crlf @ rest) = (out @ [v], rest)"
  proof (cases q)
    case True
    then have "print_field f @ t = DQUOTE # v @ DQUOTE # t" "list_all plain_char v" for t using assms by (simp_all add: f)
    then show ?thesis by (simp only: scan_quoted_field scan_end) simp
  next
    case False
    then have "print_field f @ t = v @ t" "list_all plain_char v" "CHR '','' \<notin> set v" for t using assms by (simp_all add: f)
    then show ?thesis using scan_plain [of v Normal_field "[]" out] by (simp add: scan_end)
  qed
  then show "csv_parse_line Normal_field [] out (print_field f @ CHR '','' # rest) = csv_parse_line Normal_field [] (out @ [snd f]) rest"
    "csv_parse_line Normal_field [] out (print_field f @ line_end crlf @ rest) = (out @ [snd f], rest)" by (simp_all add: f)
qed

lemma scan_row:
  "wf_row r \<Longrightarrow> csv_parse_line Normal_field [] out (print_row r @ line_end crlf @ rest) = (out @ map snd r, rest)"
  by (induction r arbitrary: out rule: print_row.induct) (simp_all add: wf_row_def scan_field)

lemma read_rows: "list_all (\<lambda>(crlf, r). wf_row r) rs \<Longrightarrow> csv_lines (print_rows rs) = map (\<lambda>(crlf, r). map snd r) rs"
proof (induction rs rule: print_rows.induct)
  case 1
  then show ?case by (simp add: csv_lines.simps)
next
  case (2 crlf r rs)
  have "print_row r @ line_end crlf @ print_rows rs \<noteq> []" by (simp add: line_end_def)
  then show ?case using 2 scan_row [of r "[]" crlf "print_rows rs"] by (subst csv_lines.simps) simp
qed

section \<open>Properties\<close>

text \<open>
  C36. A file of rows is read back: fields with any characters but quotes, line ends and NUL, in quotes where they
  hold commas, on lines ended by a newline or a return and a newline, give the rows of their texts.
\<close>

theorem csv_roundtrip:
  assumes "list_all (\<lambda>(crlf, r). wf_row r) rs"
  shows "parse_csv (print_rows rs) = map (\<lambda>(crlf, r). map snd r) rs"
  using read_rows [OF assms] by (simp add: parse_csv_def)

theorem csv_roundtrip_witness:
  "parse_csv (print_rows [(True, [(False, ''id''), (True, ''a,b'')]), (False, [(False, [])])]) = [[''id'', ''a,b''], [[]]]"
  by (subst csv_roundtrip) (simp_all add: wf_row_def plain_char_def DQUOTE_def)

text \<open>
  A doubled quote inside quotes, the escape of a quote in such files, is not understood: the field is
  handed over twice, first up to the quotes and then with one of them behind it, and with the quote at the end
  of the field a third time.
\<close>

theorem doubled_quote_splits:
  assumes "list_all plain_char v" "list_all plain_char w" "CHR '','' \<notin> set w"
  shows "fst (csv_parse_line Normal_field [] [] ([DQUOTE] @ v @ [DQUOTE, DQUOTE] @ w @ [DQUOTE] @ [CHR 0x0A] @ rest))
    = [v, v @ [DQUOTE], v @ [DQUOTE, DQUOTE] @ w]"
proof -
  have "csv_parse_line Normal_field [] [] ([DQUOTE] @ v @ [DQUOTE, DQUOTE] @ w @ [DQUOTE] @ [CHR 0x0A] @ rest)
      = csv_parse_line Explicit_string_ending (v @ [DQUOTE]) [v] (DQUOTE # w @ DQUOTE # [CHR 0x0A] @ rest)"
    using scan_quoted_field [OF assms(1), of "[]" "DQUOTE # w @ DQUOTE # [CHR 0x0A] @ rest"] by simp
  also have "\<dots> = csv_parse_line Explicit_string_ending (v @ [DQUOTE, DQUOTE]) [v, v @ [DQUOTE]] (w @ DQUOTE # [CHR 0x0A] @ rest)"
    using specials by simp
  also have "\<dots> = csv_parse_line Explicit_string_ending (v @ [DQUOTE, DQUOTE] @ w) [v, v @ [DQUOTE]] (DQUOTE # [CHR 0x0A] @ rest)"
    using scan_plain [OF assms(2,3)] by simp
  finally show ?thesis using specials by simp
qed

theorem doubled_quote_splits_witness:
  "fst (csv_parse_line Normal_field [] [] ([DQUOTE] @ ''a'' @ [DQUOTE, DQUOTE] @ ''b'' @ [DQUOTE] @ [CHR 0x0A] @ []))
    = [''a'', ''a'' @ [DQUOTE], ''a'' @ [DQUOTE, DQUOTE] @ ''b'']"
  by (rule doubled_quote_splits) (simp_all add: plain_char_def DQUOTE_def)

end
