(* ===== verification/CJsonTree.thy ===== *)
theory CJsonTree
  imports CLib
begin

text \<open>
  The nodes of the JSON tree as the operations on arrays and objects see them, in
  \<^verbatim>\<open>refs/httpserver/thelib/utils/cjson.cpp\<close>: a heap of nodes linked by \<^verbatim>\<open>next\<close>, \<^verbatim>\<open>prev\<close>, \<^verbatim>\<open>child\<close> and \<^verbatim>\<open>parent\<close>.
  A read or write of a node that is not allocated is out of bounds, and a walk along links that never ends
  is \<open>None\<close>. New nodes get the addresses the pool answers.
\<close>

section \<open>Nodes\<close>

record 'v cnode =
  nxt :: "nat option"
  prv :: "nat option"
  child :: "nat option"
  parent :: "nat option"
  ctype :: nat
  cvalue :: 'v
  cname :: "string option"

type_synonym 'v cheap = "nat \<Rightarrow> 'v cnode option"

definition cnode_at :: "'v cheap \<Rightarrow> nat \<Rightarrow> 'v cnode outcome" where
  "cnode_at h x = (case h x of None \<Rightarrow> OutOfBounds | Some n \<Rightarrow> Returns n)"

definition put_node :: "nat \<Rightarrow> ('v cnode \<Rightarrow> 'v cnode) \<Rightarrow> 'v cheap \<Rightarrow> 'v cheap outcome" where
  "put_node x f h = (case h x of None \<Rightarrow> OutOfBounds | Some n \<Rightarrow> Returns (h(x \<mapsto> f n)))"

text \<open>A write through a pointer that is tested for null first.\<close>

definition put_opt :: "nat option \<Rightarrow> ('v cnode \<Rightarrow> 'v cnode) \<Rightarrow> 'v cheap \<Rightarrow> 'v cheap outcome" where
  "put_opt p f h = (case p of None \<Rightarrow> Returns h | Some x \<Rightarrow> put_node x f h)"

text \<open>\<^verbatim>\<open>cJSON_strcasecmp\<close>, whether the names differ.\<close>

definition names_differ :: "string option \<Rightarrow> string option \<Rightarrow> bool" where
  "names_differ s1 s2 =
     (case (s1, s2) of
        (None, None) \<Rightarrow> False | (None, Some _) \<Rightarrow> True | (Some _, None) \<Rightarrow> True
      | (Some a, Some b) \<Rightarrow> map c_tolower a \<noteq> map c_tolower b)"

section \<open>Walks\<close>

partial_function (option) size_from :: "'v cheap \<Rightarrow> nat option \<Rightarrow> nat \<Rightarrow> nat outcome option" where
  "size_from h c i =
     (case c of None \<Rightarrow> Some (Returns i)
      | Some x \<Rightarrow> (case h x of None \<Rightarrow> Some OutOfBounds | Some n \<Rightarrow> size_from h (nxt n) (i + 1)))"

definition cJSON_GetArraySize :: "'v cheap \<Rightarrow> nat \<Rightarrow> nat outcome option" where
  "cJSON_GetArraySize h array =
     (case h array of None \<Rightarrow> Some OutOfBounds | Some a \<Rightarrow> size_from h (child a) 0)"

fun item_from :: "'v cheap \<Rightarrow> nat option \<Rightarrow> nat \<Rightarrow> nat option outcome" where
  "item_from h None which = Returns None"
| "item_from h (Some x) 0 = Returns (Some x)"
| "item_from h (Some x) (Suc which) =
     (case h x of None \<Rightarrow> OutOfBounds | Some n \<Rightarrow> item_from h (nxt n) which)"

definition cJSON_GetArrayItem :: "'v cheap \<Rightarrow> nat \<Rightarrow> nat \<Rightarrow> nat option outcome" where
  "cJSON_GetArrayItem h array item = bind_outcome (cnode_at h array) (\<lambda>a. item_from h (child a) item)"

text \<open>The first node with a name, and its place.\<close>

partial_function (option) find_from ::
    "'v cheap \<Rightarrow> nat option \<Rightarrow> string option \<Rightarrow> nat \<Rightarrow> (nat option \<times> nat) outcome option" where
  "find_from h c name i =
     (case c of None \<Rightarrow> Some (Returns (None, i))
      | Some x \<Rightarrow> (case h x of None \<Rightarrow> Some OutOfBounds
          | Some n \<Rightarrow> if names_differ (cname n) name then find_from h (nxt n) name (i + 1) else Some (Returns (Some x, i))))"

definition cJSON_GetObjectItem :: "'v cheap \<Rightarrow> nat \<Rightarrow> string option \<Rightarrow> nat option outcome option" where
  "cJSON_GetObjectItem h object name =
     (case h object of None \<Rightarrow> Some OutOfBounds
      | Some n \<Rightarrow> map_option (\<lambda>r. bind_outcome r (\<lambda>(c, i). Returns c)) (find_from h (child n) name 0))"

partial_function (option) last_from :: "'v cheap \<Rightarrow> nat \<Rightarrow> nat outcome option" where
  "last_from h x =
     (case h x of None \<Rightarrow> Some OutOfBounds
      | Some n \<Rightarrow> (case nxt n of None \<Rightarrow> Some (Returns x) | Some y \<Rightarrow> last_from h y))"

section \<open>Adding\<close>

definition suffix_object :: "nat \<Rightarrow> nat \<Rightarrow> 'v cheap \<Rightarrow> 'v cheap outcome" where
  "suffix_object prev item h =
     bind_outcome (put_node prev (\<lambda>n. n\<lparr>nxt := Some item\<rparr>) h) (put_node item (\<lambda>n. n\<lparr>prv := Some prev\<rparr>))"

definition cJSON_AddItemToArray :: "'v cheap \<Rightarrow> nat \<Rightarrow> nat option \<Rightarrow> (nat option \<times> 'v cheap) outcome option" where
  "cJSON_AddItemToArray h array item =
     (case h array of None \<Rightarrow> Some OutOfBounds | Some a \<Rightarrow>
      (case item of None \<Rightarrow> Some (Returns (None, h)) | Some x \<Rightarrow>
       (case h x of None \<Rightarrow> Some OutOfBounds | Some n \<Rightarrow>
          if parent n \<noteq> None then Some (Returns (None, h))
          else
            map_option (\<lambda>linked. bind_outcome linked (\<lambda>h'.
                bind_outcome (put_node x (\<lambda>n. n\<lparr>parent := Some array\<rparr>) h') (\<lambda>h''. Returns (Some x, h''))))
              (case child a of
                 None \<Rightarrow> Some (put_node array (\<lambda>a. a\<lparr>child := Some x\<rparr>) h)
               | Some c \<Rightarrow> map_option (\<lambda>r. bind_outcome r (\<lambda>l. suffix_object l x h)) (last_from h c)))))"

definition cJSON_AddItemToObject :: "'v cheap \<Rightarrow> nat \<Rightarrow> string option \<Rightarrow> nat option \<Rightarrow> (nat option \<times> 'v cheap) outcome option" where
  "cJSON_AddItemToObject h object name item =
     (case item of None \<Rightarrow> Some (Returns (None, h)) | Some x \<Rightarrow>
      (case h x of None \<Rightarrow> Some OutOfBounds
       | Some n \<Rightarrow> cJSON_AddItemToArray (h(x \<mapsto> n\<lparr>cname := name\<rparr>)) object (Some x)))"

text \<open>A reference is a copy of the node at a new address, the pointer to the parent included.\<close>

definition cJSON_IsReference :: nat where
  "cJSON_IsReference = 256"

definition create_reference :: "'v cheap \<Rightarrow> nat \<Rightarrow> nat \<Rightarrow> 'v cheap outcome" where
  "create_reference h item new =
     bind_outcome (cnode_at h item) (\<lambda>n.
       Returns (h(new \<mapsto> n\<lparr>cname := None, ctype := ctype n OR cJSON_IsReference, nxt := None, prv := None\<rparr>)))"

definition cJSON_AddItemReferenceToArray :: "'v cheap \<Rightarrow> nat \<Rightarrow> nat \<Rightarrow> nat \<Rightarrow> 'v cheap outcome option" where
  "cJSON_AddItemReferenceToArray h array item new =
     (case create_reference h item new of
        Returns h' \<Rightarrow> map_option (\<lambda>r. bind_outcome r (\<lambda>(a, h''). Returns h'')) (cJSON_AddItemToArray h' array (Some new))
      | _ \<Rightarrow> Some OutOfBounds)"

section \<open>Detaching, replacing, deleting\<close>

definition cJson_detachItemFromArray :: "'v cheap \<Rightarrow> nat \<Rightarrow> nat \<Rightarrow> (nat option \<times> 'v cheap) outcome" where
  "cJson_detachItemFromArray h array which =
     bind_outcome (cJSON_GetArrayItem h array which) (\<lambda>found.
       case found of None \<Rightarrow> Returns (None, h)
       | Some c \<Rightarrow>
           bind_outcome (cnode_at h c) (\<lambda>n.
           bind_outcome (put_opt (prv n) (\<lambda>p. p\<lparr>nxt := nxt n\<rparr>) h) (\<lambda>h1.
           bind_outcome (put_opt (nxt n) (\<lambda>x. x\<lparr>prv := prv n\<rparr>) h1) (\<lambda>h2.
           bind_outcome (cnode_at h2 array) (\<lambda>a.
           bind_outcome (if child a = Some c then put_node array (\<lambda>a. a\<lparr>child := nxt n\<rparr>) h2 else Returns h2) (\<lambda>h3.
           bind_outcome (put_node c (\<lambda>c. c\<lparr>parent := None, prv := None, nxt := None\<rparr>) h3) (\<lambda>h4.
             Returns (Some c, h4))))))))"

text \<open>\<^verbatim>\<open>cJSON_Delete\<close>: the node, what is below it and what comes after it go back to the pool.\<close>

partial_function (option) cJSON_Delete :: "'v cheap \<Rightarrow> nat option \<Rightarrow> 'v cheap outcome option" where
  "cJSON_Delete h c =
     (case c of None \<Rightarrow> Some (Returns h)
      | Some x \<Rightarrow> (case h x of None \<Rightarrow> Some OutOfBounds
          | Some n \<Rightarrow> Option.bind (cJSON_Delete h (child n)) (\<lambda>r.
              case r of Returns h' \<Rightarrow> cJSON_Delete (h'(x := None)) (nxt n) | _ \<Rightarrow> Some OutOfBounds)))"

definition cJSON_DeleteItemFromArray :: "'v cheap \<Rightarrow> nat \<Rightarrow> nat \<Rightarrow> 'v cheap outcome option" where
  "cJSON_DeleteItemFromArray h array which =
     (case cJson_detachItemFromArray h array which of
        Returns (c, h') \<Rightarrow> cJSON_Delete h' c | _ \<Rightarrow> Some OutOfBounds)"

definition cJSON_AddItemReferenceToObject ::
    "'v cheap \<Rightarrow> nat \<Rightarrow> string option \<Rightarrow> nat \<Rightarrow> nat \<Rightarrow> 'v cheap outcome option" where
  "cJSON_AddItemReferenceToObject h object name item new =
     (case create_reference h item new of
        Returns h' \<Rightarrow> map_option (\<lambda>r. bind_outcome r (\<lambda>(a, h''). Returns h'')) (cJSON_AddItemToObject h' object name (Some new))
      | _ \<Rightarrow> Some OutOfBounds)"

definition cJSON_DetachItemFromObject :: "'v cheap \<Rightarrow> nat \<Rightarrow> string option \<Rightarrow> (nat option \<times> 'v cheap) outcome option" where
  "cJSON_DetachItemFromObject h object name =
     (case h object of None \<Rightarrow> Some OutOfBounds
      | Some n \<Rightarrow> map_option (\<lambda>r. bind_outcome r (\<lambda>(c, i).
          if c \<noteq> None then cJson_detachItemFromArray h object i else Returns (None, h))) (find_from h (child n) name 0))"

definition cJSON_DeleteItemFromObject :: "'v cheap \<Rightarrow> nat \<Rightarrow> string option \<Rightarrow> 'v cheap outcome option" where
  "cJSON_DeleteItemFromObject h object name =
     Option.bind (cJSON_DetachItemFromObject h object name) (\<lambda>r.
       case r of Returns (c, h') \<Rightarrow> cJSON_Delete h' c | _ \<Rightarrow> Some OutOfBounds)"

text \<open>The links of \<^verbatim>\<open>cJSON_ReplaceItemInArray\<close>, and the deletion of the item that was replaced.\<close>

definition replace_links :: "'v cheap \<Rightarrow> nat \<Rightarrow> nat \<Rightarrow> nat \<Rightarrow> (nat option \<times> 'v cheap) outcome" where
  "replace_links h array which newitem =
     bind_outcome (cJSON_GetArrayItem h array which) (\<lambda>found.
       case found of None \<Rightarrow> Returns (None, h)
       | Some c \<Rightarrow>
           bind_outcome (cnode_at h c) (\<lambda>n.
           bind_outcome (put_node newitem (\<lambda>x. x\<lparr>nxt := nxt n, prv := prv n\<rparr>) h) (\<lambda>h1.
           bind_outcome (put_opt (nxt n) (\<lambda>x. x\<lparr>prv := Some newitem\<rparr>) h1) (\<lambda>h2.
           bind_outcome (cnode_at h2 array) (\<lambda>a.
           bind_outcome (if child a = Some c then put_node array (\<lambda>a. a\<lparr>child := Some newitem\<rparr>) h2
                         else case prv n of None \<Rightarrow> OutOfBounds | Some p \<Rightarrow> put_node p (\<lambda>x. x\<lparr>nxt := Some newitem\<rparr>) h2) (\<lambda>h3.
           bind_outcome (put_node c (\<lambda>c. c\<lparr>prv := None, nxt := None\<rparr>) h3) (\<lambda>h4.
             Returns (Some c, h4))))))))"

definition cJSON_ReplaceItemInArray :: "'v cheap \<Rightarrow> nat \<Rightarrow> nat \<Rightarrow> nat \<Rightarrow> 'v cheap outcome option" where
  "cJSON_ReplaceItemInArray h array which newitem =
     (case replace_links h array which newitem of
        Returns (c, h') \<Rightarrow> cJSON_Delete h' c | _ \<Rightarrow> Some OutOfBounds)"

text \<open>The new item is given the name, and the one it had is not freed.\<close>

definition cJSON_ReplaceItemInObject :: "'v cheap \<Rightarrow> nat \<Rightarrow> string option \<Rightarrow> nat \<Rightarrow> 'v cheap outcome option" where
  "cJSON_ReplaceItemInObject h object name newitem =
     (case h object of None \<Rightarrow> Some OutOfBounds
      | Some n \<Rightarrow> Option.bind (find_from h (child n) name 0) (\<lambda>r.
          case r of Returns (Some c, i) \<Rightarrow>
              (case put_node newitem (\<lambda>x. x\<lparr>cname := name\<rparr>) h of
                 Returns h' \<Rightarrow> cJSON_ReplaceItemInArray h' object i newitem | _ \<Rightarrow> Some OutOfBounds)
            | Returns (None, i) \<Rightarrow> Some (Returns h) | _ \<Rightarrow> Some OutOfBounds))"

section \<open>New nodes\<close>

text \<open>A new node is all zeros; \<open>zero\<close> is the value read from such bytes.\<close>

definition cJSON_New_Item :: "'v \<Rightarrow> 'v cnode" where
  "cJSON_New_Item zero = \<lparr>nxt = None, prv = None, child = None, parent = None, ctype = 0, cvalue = zero, cname = None\<rparr>"

definition cJSON_CreateNode :: "nat \<Rightarrow> 'v \<Rightarrow> 'v cnode" where
  "cJSON_CreateNode type zero = (cJSON_New_Item zero)\<lparr>ctype := type\<rparr>"

definition cJSON_NULL :: nat where "cJSON_NULL = 0"
definition cJSON_Boolean :: nat where "cJSON_Boolean = 1"
definition cJSON_Integer :: nat where "cJSON_Integer = 2"
definition cJSON_Real :: nat where "cJSON_Real = 3"
definition cJSON_String :: nat where "cJSON_String = 4"
definition cJSON_Array :: nat where "cJSON_Array = 5"

text \<open>The scalars: a node of a type with a value.\<close>

definition create_scalar :: "nat \<Rightarrow> 'v \<Rightarrow> 'v \<Rightarrow> 'v cnode" where
  "create_scalar type v zero = (cJSON_New_Item zero)\<lparr>ctype := type, cvalue := v\<rparr>"

text \<open>The loop of the four functions that make an array: addresses and values of the new nodes.\<close>

fun create_loop :: "nat \<Rightarrow> 'v \<Rightarrow> nat \<Rightarrow> nat option \<Rightarrow> (nat \<times> 'v) list \<Rightarrow> 'v cheap \<Rightarrow> 'v cheap outcome" where
  "create_loop type zero a p [] h = Returns h"
| "create_loop type zero a p ((x, v) # xs) h =
     bind_outcome
       (case p of None \<Rightarrow> put_node a (\<lambda>a. a\<lparr>child := Some x\<rparr>) (h(x \<mapsto> create_scalar type v zero))
        | Some y \<Rightarrow> suffix_object y x (h(x \<mapsto> create_scalar type v zero)))
       (create_loop type zero a (Some x) xs)"

definition create_array :: "nat \<Rightarrow> 'v \<Rightarrow> nat \<Rightarrow> (nat \<times> 'v) list \<Rightarrow> 'v cheap \<Rightarrow> 'v cheap outcome" where
  "create_array type zero a xs h = create_loop type zero a None xs (h(a \<mapsto> cJSON_CreateNode cJSON_Array zero))"

section \<open>Lists of items\<close>

text \<open>
  A segment from \<open>a\<close> with \<open>p\<close> before it: its nodes are linked both ways, the last of them, or \<open>p\<close>, is \<open>q\<close>, and
  the link out of it is \<open>e\<close>.
\<close>

fun segment :: "'v cheap \<Rightarrow> nat option \<Rightarrow> nat option \<Rightarrow> nat list \<Rightarrow> nat option \<Rightarrow> nat option \<Rightarrow> bool" where
  "segment h p a [] q e = (a = e \<and> p = q)"
| "segment h p a (x # xs) q e = (a = Some x \<and> (\<exists>n. h x = Some n \<and> prv n = p \<and> segment h (Some x) (nxt n) xs q e))"

definition items :: "'v cheap \<Rightarrow> nat \<Rightarrow> nat list \<Rightarrow> bool" where
  "items h array xs = (distinct (array # xs) \<and> (\<exists>n q. h array = Some n \<and> segment h None (child n) xs q None))"

lemma segment_append:
  "segment h p a (xs @ ys) q e \<longleftrightarrow> (\<exists>r m. segment h p a xs r m \<and> segment h r m ys q e)"
  by (induction xs arbitrary: p a) auto

lemma segment_outside: "x \<notin> set xs \<Longrightarrow> segment (h(x := v)) p a xs q e = segment h p a xs q e"
  by (induction xs arbitrary: p a) auto

lemma segment_end: "segment h p a xs q e \<Longrightarrow> q = (if xs = [] then p else Some (last xs))"
  by (induction xs arbitrary: p a) auto

lemma segment_start: "segment h p a xs q e \<Longrightarrow> a = (if xs = [] then e else Some (hd xs))"
  by (cases xs) auto

text \<open>Changing the link out of a segment, and the link back out of it.\<close>

lemma segment_relink_end:
  assumes "segment h p a (xs @ [x]) q e" "h x = Some n" "distinct (xs @ [x])"
  shows "segment (h(x \<mapsto> n\<lparr>nxt := e'\<rparr>)) p a (xs @ [x]) (Some x) e'"
  using assms by (auto simp: segment_append segment_outside)

lemma segment_relink_start:
  assumes "segment h p a (x # xs) q e" "h x = Some n" "x \<notin> set xs"
  shows "segment (h(x \<mapsto> n\<lparr>prv := p'\<rparr>)) p' a (x # xs) q e"
  using assms by (auto simp: segment_outside)

lemma segment_node: "segment h p a xs q e \<Longrightarrow> x \<in> set xs \<Longrightarrow> \<exists>n. h x = Some n"
  by (induction xs arbitrary: p a) auto

text \<open>Fields that are not links do not matter.\<close>

definition same_links :: "'v cnode \<Rightarrow> 'v cnode \<Rightarrow> bool" where
  "same_links m n = (nxt m = nxt n \<and> prv m = prv n)"

lemma segment_same_links: "h x = Some n \<Longrightarrow> same_links m n \<Longrightarrow> segment (h(x \<mapsto> m)) p a xs q e = segment h p a xs q e"
  by (induction xs arbitrary: p a) (auto simp: same_links_def)

section \<open>Walks on lists\<close>

lemma size_of_segment: "segment h p a xs q None \<Longrightarrow> size_from h a i = Some (Returns (i + length xs))"
  by (induction xs arbitrary: p a i) (auto simp: size_from.simps)

lemma item_of_segment:
  "segment h p a xs q None \<Longrightarrow> item_from h a which = Returns (if which < length xs then Some (xs ! which) else None)"
proof (induction xs arbitrary: p a which)
  case (Cons x xs)
  then show ?case by (cases which) auto
qed simp

lemma last_of_segment: "segment h p a (xs @ [x]) q None \<Longrightarrow> last_from h (hd (xs @ [x])) = Some (Returns x)"
proof (induction xs arbitrary: p a)
  case Nil
  then show ?case by (auto simp: last_from.simps)
next
  case (Cons y ys)
  then obtain n where n: "h y = Some n" "segment h (Some y) (nxt n) (ys @ [x]) q None" by auto
  then have "nxt n = Some (hd (ys @ [x]))" using segment_start by fastforce
  then show ?case using n Cons.IH by (simp add: last_from.simps [of h y])
qed

lemma find_of_segment:
  "segment h p a xs q None \<Longrightarrow>
    \<exists>k \<le> length xs. find_from h a name i = Some (Returns (if k < length xs then Some (xs ! k) else None, i + k))
      \<and> (\<forall>j < k. \<forall>n. h (xs ! j) = Some n \<longrightarrow> names_differ (cname n) name)
      \<and> (k < length xs \<longrightarrow> (\<exists>n. h (xs ! k) = Some n \<and> \<not> names_differ (cname n) name))"
proof (induction xs arbitrary: p a i)
  case Nil
  then show ?case by (simp add: find_from.simps)
next
  case (Cons x xs)
  then obtain n where n: "a = Some x" "h x = Some n" "segment h (Some x) (nxt n) xs q None" by auto
  show ?case
  proof (cases "names_differ (cname n) name")
    case True
    obtain k where k: "k \<le> length xs" "find_from h (nxt n) name (i + 1) = Some (Returns (if k < length xs then Some (xs ! k) else None, i + 1 + k))"
      "\<forall>j < k. \<forall>n. h (xs ! j) = Some n \<longrightarrow> names_differ (cname n) name"
      "k < length xs \<longrightarrow> (\<exists>n. h (xs ! k) = Some n \<and> \<not> names_differ (cname n) name)"
      using Cons.IH [OF n(3)] by blast
    have "\<forall>j < Suc k. \<forall>n. h ((x # xs) ! j) = Some n \<longrightarrow> names_differ (cname n) name"
      using k(3) True n(2) by (auto simp: less_Suc_eq_0_disj)
    then show ?thesis using k n True by (intro exI [of _ "Suc k"]) (simp add: find_from.simps [of h "Some x"])
  next
    case False
    then show ?thesis using n by (intro exI [of _ 0]) (simp add: find_from.simps [of h "Some x"])
  qed
qed

section \<open>Adding at the end\<close>

lemma add_appends:
  assumes "items h array xs" and "h x = Some n" "parent n = None" "nxt n = None" "prv n = None" "x \<notin> set (array # xs)"
  shows "\<exists>h'. cJSON_AddItemToArray h array (Some x) = Some (Returns (Some x, h')) \<and> items h' array (xs @ [x])
    \<and> (\<exists>n'. h' x = Some n' \<and> parent n' = Some array)
    \<and> (\<forall>y. y \<notin> set (array # xs) \<longrightarrow> y \<noteq> x \<longrightarrow> h' y = h y)"
proof -
  obtain a q where a: "h array = Some a" "segment h None (child a) xs q None" "distinct (array # xs)"
    using assms(1) by (auto simp: items_def)
  show ?thesis
  proof (cases xs rule: rev_cases)
    case Nil
    then have "child a = None" using a by simp
    then show ?thesis using assms(2-6) a Nil
      by (intro exI [of _ "h(array \<mapsto> a\<lparr>child := Some x\<rparr>, x \<mapsto> n\<lparr>parent := Some array\<rparr>)"])
        (auto simp: cJSON_AddItemToArray_def put_node_def items_def)
  next
    case (snoc ys l)
    have c: "child a = Some (hd xs)" using segment_start [OF a(2)] snoc by simp
    have l: "last_from h (hd xs) = Some (Returns l)" using last_of_segment a(2) snoc by fastforce
    obtain m where m: "h l = Some m" using segment_node [OF a(2)] snoc by auto
    have ne: "l \<noteq> x" "l \<noteq> array" "array \<noteq> x" using assms(6) a(3) snoc by auto
    let ?h = "h(l \<mapsto> m\<lparr>nxt := Some x\<rparr>, x \<mapsto> n\<lparr>prv := Some l, parent := Some array\<rparr>)"
    have "cJSON_AddItemToArray h array (Some x) = Some (Returns (Some x, ?h))"
      using a(1) assms(2,3) c l m ne by (simp add: cJSON_AddItemToArray_def suffix_object_def put_node_def fun_upd_twist)
    moreover have "segment (h(l \<mapsto> m\<lparr>nxt := Some x\<rparr>)) None (child a) (ys @ [l]) (Some l) (Some x)"
      using segment_relink_end [of h None "child a" ys l q None m] a m snoc by simp
    then have "segment ?h None (child a) (ys @ [l]) (Some l) (Some x)" using assms(6) snoc by (subst segment_outside) auto
    then have "segment ?h None (child a) (xs @ [x]) (Some x) None"
      unfolding snoc segment_append [of _ _ _ "ys @ [l]"] using assms(4) by auto
    then have "items ?h array (xs @ [x])" using a assms(6) ne by (auto simp: items_def)
    ultimately show ?thesis using snoc by auto
  qed
qed

section \<open>Taking out and replacing\<close>

lemma segment_cong: "(\<And>x. x \<in> set xs \<Longrightarrow> h' x = h x) \<Longrightarrow> segment h' p a xs q e = segment h p a xs q e"
  by (induction xs arbitrary: p a) auto

text \<open>The write through \<^verbatim>\<open>prev\<close> gives the segment before a node another link out of it, the one through \<^verbatim>\<open>next\<close> the
  segment behind it another link back.\<close>

lemma put_before:
  assumes "segment h None a us p (Some c)" "distinct us"
  shows "\<exists>h'. put_opt p (\<lambda>n. n\<lparr>nxt := e\<rparr>) h = Returns h' \<and> segment h' None (if us = [] then e else a) us p e
    \<and> (\<forall>y. y \<notin> set us \<longrightarrow> h' y = h y)"
proof (cases us rule: rev_cases)
  case Nil
  then show ?thesis using assms by (simp add: put_opt_def)
next
  case (snoc vs u)
  have p: "p = Some u" using segment_end [OF assms(1)] snoc by simp
  obtain n where n: "h u = Some n" using segment_node [OF assms(1)] snoc by auto
  have "segment (h(u \<mapsto> n\<lparr>nxt := e\<rparr>)) None a (vs @ [u]) (Some u) e"
    using segment_relink_end assms n snoc by blast
  then show ?thesis using p n snoc by (intro exI [of _ "h(u \<mapsto> n\<lparr>nxt := e\<rparr>)"]) (simp add: put_opt_def put_node_def)
qed

lemma put_behind:
  assumes "segment h p e vs q None" "distinct vs"
  shows "\<exists>h' q'. put_opt e (\<lambda>n. n\<lparr>prv := p'\<rparr>) h = Returns h' \<and> segment h' p' e vs q' None
    \<and> (\<forall>y. y \<notin> set vs \<longrightarrow> h' y = h y)"
proof (cases vs)
  case Nil
  then show ?thesis using assms by (auto simp: put_opt_def)
next
  case (Cons v ws)
  then obtain n where n: "h v = Some n" "e = Some v" using assms(1) by auto
  have "segment (h(v \<mapsto> n\<lparr>prv := p'\<rparr>)) p' e (v # ws) q None"
    using segment_relink_start [of h p e v ws q None n p'] assms n Cons by simp
  then show ?thesis using n Cons by (intro exI [of _ "h(v \<mapsto> n\<lparr>prv := p'\<rparr>)"] exI [of _ q]) (simp add: put_opt_def put_node_def)
qed

lemma detach_removes:
  assumes "items h array (us @ c # vs)"
  shows "\<exists>h' n. cJson_detachItemFromArray h array (length us) = Returns (Some c, h') \<and> items h' array (us @ vs)
    \<and> h' c = Some n \<and> parent n = None \<and> prv n = None \<and> nxt n = None
    \<and> (\<forall>y. y \<notin> set (array # us @ c # vs) \<longrightarrow> h' y = h y)"
proof -
  obtain a q where a: "h array = Some a" "segment h None (child a) (us @ c # vs) q None" "distinct (array # us @ c # vs)"
    using assms by (auto simp: items_def)
  obtain n where n: "segment h None (child a) us (prv n) (Some c)" "h c = Some n" "segment h (Some c) (nxt n) vs q None"
    using a(2) by (auto simp: segment_append)
  obtain h1 where h1: "put_opt (prv n) (\<lambda>p. p\<lparr>nxt := nxt n\<rparr>) h = Returns h1"
      "segment h1 None (if us = [] then nxt n else child a) us (prv n) (nxt n)" "\<And>y. y \<notin> set us \<Longrightarrow> h1 y = h y"
    using put_before [OF n(1), of "nxt n"] a(3) by auto
  have "segment h1 (Some c) (nxt n) vs q None" using n(3) a(3) h1(3) by (subst segment_cong [of _ _ h]) auto
  then obtain h2 q2 where h2: "put_opt (nxt n) (\<lambda>x. x\<lparr>prv := prv n\<rparr>) h1 = Returns h2"
      "segment h2 (prv n) (nxt n) vs q2 None" "\<And>y. y \<notin> set vs \<Longrightarrow> h2 y = h1 y"
    using put_behind [of h1 "Some c" "nxt n" vs q "prv n"] a(3) by auto
  have u2: "segment h2 None (if us = [] then nxt n else child a) us (prv n) (nxt n)"
    using h1(2) a(3) h2(3) by (subst segment_cong [of _ _ h1]) auto
  have same: "h2 array = Some a" "h2 c = Some n" using a(1,3) n(2) h1(3) h2(3) by auto
  have first: "child a = Some c \<longleftrightarrow> us = []" using segment_start [OF a(2)] a(3) by (cases us) auto
  let ?a = "if us = [] then a\<lparr>child := nxt n\<rparr> else a"
  let ?h = "h2(array \<mapsto> ?a, c \<mapsto> n\<lparr>parent := None, prv := None, nxt := None\<rparr>)"
  have found: "cJSON_GetArrayItem h array (length us) = Returns (Some c)"
    using item_of_segment [OF a(2), of "length us"] a(1) by (simp add: cJSON_GetArrayItem_def cnode_at_def)
  have ne: "c \<noteq> array" using a(3) by auto
  have "cJson_detachItemFromArray h array (length us) = Returns (Some c, ?h)"
    using found n(2) h1(1) h2(1) same first ne
    by (cases "us = []") (simp_all add: cJson_detachItemFromArray_def cnode_at_def put_node_def fun_upd_idem)
  moreover have "segment h2 None (child ?a) (us @ vs) q2 None"
    using u2 h2(2) by (cases "us = []") (auto simp: segment_append)
  then have "segment ?h None (child ?a) (us @ vs) q2 None" using a(3) by (subst segment_cong [of _ _ h2]) auto
  then have "items ?h array (us @ vs)" using a(3) ne by (auto simp: items_def)
  moreover have "\<forall>y. y \<notin> set (array # us @ c # vs) \<longrightarrow> ?h y = h y" using h1(3) h2(3) by auto
  ultimately show ?thesis by (intro exI [of _ ?h]) auto
qed

lemma replace_puts:
  assumes "items h array (us @ c # vs)" and "h new = Some m" and "new \<notin> set (array # us @ c # vs)"
  shows "\<exists>h' m' n. replace_links h array (length us) new = Returns (Some c, h') \<and> items h' array (us @ new # vs)
    \<and> h' new = Some m' \<and> parent m' = parent m \<and> h' c = Some n \<and> prv n = None \<and> nxt n = None
    \<and> (\<forall>y. y \<notin> set (array # new # us @ c # vs) \<longrightarrow> h' y = h y)"
proof -
  obtain a q where a: "h array = Some a" "segment h None (child a) (us @ c # vs) q None" "distinct (array # us @ c # vs)"
    using assms by (auto simp: items_def)
  obtain n where n: "segment h None (child a) us (prv n) (Some c)" "h c = Some n" "segment h (Some c) (nxt n) vs q None"
    using a(2) by (auto simp: segment_append)
  let ?h0 = "h(new \<mapsto> m\<lparr>nxt := nxt n, prv := prv n\<rparr>)"
  have s0: "segment ?h0 (Some c) (nxt n) vs q None" "segment ?h0 None (child a) us (prv n) (Some c)"
    using n assms(3) by (simp_all add: segment_outside)
  obtain h1 q1 where h1: "put_opt (nxt n) (\<lambda>x. x\<lparr>prv := Some new\<rparr>) ?h0 = Returns h1"
      "segment h1 (Some new) (nxt n) vs q1 None" "\<And>y. y \<notin> set vs \<Longrightarrow> h1 y = ?h0 y"
    using put_behind [OF s0(1), of "Some new"] a(3) by auto
  have "h1 x = ?h0 x" if "x \<in> set us" for x
  proof -
    have "x \<notin> set vs" using that a(3) by auto
    then show ?thesis by (rule h1(3))
  qed
  then have "segment h1 None (child a) us (prv n) (Some c)" using s0(2) segment_cong [of us h1 ?h0] by simp
  then obtain h2 where h2: "put_opt (prv n) (\<lambda>p. p\<lparr>nxt := Some new\<rparr>) h1 = Returns h2"
      "segment h2 None (if us = [] then Some new else child a) us (prv n) (Some new)" "\<And>y. y \<notin> set us \<Longrightarrow> h2 y = h1 y"
    using put_before [of h1 "child a" us "prv n" c "Some new"] a(3) by auto
  have same: "h1 array = Some a" "h1 c = Some n" "h2 array = Some a" "h2 c = Some n"
      "h2 new = Some (m\<lparr>nxt := nxt n, prv := prv n\<rparr>)"
    using a(1,3) n(2) h1(3) h2(3) assms(3) by auto
  have first: "child a = Some c \<longleftrightarrow> us = []" using segment_start [OF a(2)] a(3) by (cases us) auto
  have before: "prv n = (if us = [] then None else Some (last us))" using segment_end [OF n(1)] by simp
  have link: "us = [] \<longrightarrow> h2 = h1" "us \<noteq> [] \<longrightarrow> put_node (last us) (\<lambda>p. p\<lparr>nxt := Some new\<rparr>) h1 = Returns h2"
    using h2(1) before by (auto simp: put_opt_def)
  let ?a = "if us = [] then a\<lparr>child := Some new\<rparr> else a"
  let ?h = "h2(array \<mapsto> ?a, c \<mapsto> n\<lparr>prv := None, nxt := None\<rparr>)"
  have found: "cJSON_GetArrayItem h array (length us) = Returns (Some c)"
    using item_of_segment [OF a(2), of "length us"] a(1) by (simp add: cJSON_GetArrayItem_def cnode_at_def)
  have ne: "c \<noteq> array" "new \<noteq> c" "new \<noteq> array" using a(3) assms(3) by auto
  have "replace_links h array (length us) new = Returns (Some c, ?h)"
    using found n(2) assms(2) h1(1) link same first before ne
    by (cases "us = []") (simp_all add: replace_links_def cnode_at_def put_node_def fun_upd_idem)
  moreover have "segment h2 (Some new) (nxt n) vs q1 None" using h1(2) a(3) h2(3) by (subst segment_cong [of _ _ h1]) auto
  then have "segment h2 None (child ?a) (us @ new # vs) q1 None"
    using h2(2) same(5) before by (cases "us = []") (auto simp: segment_append)
  then have "segment ?h None (child ?a) (us @ new # vs) q1 None" using a(3) ne assms(3) by (subst segment_cong [of _ _ h2]) auto
  then have "items ?h array (us @ new # vs)" using a(3) ne assms(3) by (auto simp: items_def)
  moreover have "\<forall>y. y \<notin> set (array # new # us @ c # vs) \<longrightarrow> ?h y = h y" using h1(3) h2(3) by auto
  ultimately show ?thesis using same(5) ne by (intro exI [of _ ?h]) auto
qed

section \<open>Arrays made at once\<close>

lemma suffix_links:
  assumes "items h array (ys @ [l])" "h x = Some n" "nxt n = None" "x \<notin> set (array # ys @ [l])"
  shows "\<exists>h'. suffix_object l x h = Returns h' \<and> items h' array (ys @ [l, x])
    \<and> h' x = Some (n\<lparr>prv := Some l\<rparr>) \<and> (\<forall>y. y \<notin> {l, x} \<longrightarrow> h' y = h y)
    \<and> (\<forall>m. h l = Some m \<longrightarrow> h' l = Some (m\<lparr>nxt := Some x\<rparr>))"
proof -
  obtain a q where a: "h array = Some a" "segment h None (child a) (ys @ [l]) q None" "distinct (array # ys @ [l])"
    using assms(1) by (auto simp: items_def)
  obtain m where m: "h l = Some m" using segment_node [OF a(2)] by auto
  have ne: "l \<noteq> x" "l \<noteq> array" "array \<noteq> x" using assms(4) a(3) by auto
  let ?h = "h(l \<mapsto> m\<lparr>nxt := Some x\<rparr>, x \<mapsto> n\<lparr>prv := Some l\<rparr>)"
  have "suffix_object l x h = Returns ?h" using assms(2) m ne by (simp add: suffix_object_def put_node_def)
  moreover have "segment (h(l \<mapsto> m\<lparr>nxt := Some x\<rparr>)) None (child a) (ys @ [l]) (Some l) (Some x)"
    using segment_relink_end [of h None "child a" ys l q None m] a m by simp
  then have "segment ?h None (child a) (ys @ [l]) (Some l) (Some x)" using assms(4) by (subst segment_outside) auto
  then have "segment ?h None (child a) ((ys @ [l]) @ [x]) (Some x) None"
    unfolding segment_append [of _ _ _ "ys @ [l]"] using assms(3) by auto
  then have "items ?h array (ys @ [l, x])" using a assms(4) ne by (auto simp: items_def)
  ultimately show ?thesis using m ne by (intro exI [of _ ?h]) auto
qed

lemma create_loop_links:
  "items h a (ys @ [l]) \<Longrightarrow> distinct (a # ys @ [l] @ map fst xs) \<Longrightarrow>
    \<forall>y \<in> set (ys @ [l]). \<exists>n. h y = Some n \<and> parent n = None \<Longrightarrow>
    \<exists>h'. create_loop type zero a (Some l) xs h = Returns h' \<and> items h' a (ys @ [l] @ map fst xs)
      \<and> (\<forall>y \<in> set (ys @ [l] @ map fst xs). \<exists>n. h' y = Some n \<and> parent n = None)"
proof (induction xs arbitrary: h ys l)
  case Nil
  then show ?case by simp
next
  case (Cons p xs)
  obtain x v where p: "p = (x, v)" by (cases p)
  let ?n = "create_scalar type v zero" and ?h = "h(x \<mapsto> create_scalar type v zero)"
  have x: "x \<notin> set (a # ys @ [l])" using Cons.prems(2) p by auto
  have "items ?h a (ys @ [l])" using Cons.prems(1) x by (auto simp: items_def segment_outside)
  moreover have n: "nxt ?n = None" "parent ?n = None" by (simp_all add: create_scalar_def cJSON_New_Item_def)
  ultimately obtain h' where h': "suffix_object l x ?h = Returns h'" "items h' a ((ys @ [l]) @ [x])"
      "h' x = Some (?n\<lparr>prv := Some l\<rparr>)" "\<forall>y. y \<notin> {l, x} \<longrightarrow> h' y = ?h y"
      "\<forall>m. ?h l = Some m \<longrightarrow> h' l = Some (m\<lparr>nxt := Some x\<rparr>)"
    using suffix_links [of ?h a ys l x ?n] x by auto
  have "\<exists>n. h' y = Some n \<and> parent n = None" if y: "y \<in> set ((ys @ [l]) @ [x])" for y
  proof -
    consider "y = x" | "y = l" "y \<noteq> x" | "y \<in> set ys" "y \<noteq> x" "y \<noteq> l" using y by auto
    then show ?thesis
    proof cases
      case 1
      then show ?thesis using h'(3) n by simp
    next
      case 2
      then obtain m where "?h l = Some m" "parent m = None" using Cons.prems(3) x by auto
      then show ?thesis using h'(5) 2 by simp
    next
      case 3
      then show ?thesis using h'(4) Cons.prems(3) by simp
    qed
  qed
  then show ?case using Cons.IH [of h' "ys @ [l]" x] h'(1,2) Cons.prems(2) p by auto
qed

lemma create_array_items:
  assumes "distinct (a # map fst xs)"
  shows "\<exists>h'. create_array type zero a xs h = Returns h' \<and> items h' a (map fst xs)
    \<and> (\<forall>y \<in> set (map fst xs). \<exists>n. h' y = Some n \<and> parent n = None)"
proof (cases xs)
  case Nil
  then show ?thesis by (simp add: create_array_def items_def cJSON_CreateNode_def cJSON_New_Item_def)
next
  case (Cons p xs')
  obtain x v where p: "p = (x, v)" by (cases p)
  let ?n = "create_scalar type v zero" and ?a = "cJSON_CreateNode cJSON_Array zero"
  let ?h = "h(x \<mapsto> ?n, a \<mapsto> ?a\<lparr>child := Some x\<rparr>)"
  have ne: "x \<noteq> a" using assms Cons p by auto
  have n: "nxt ?n = None" "prv ?n = None" "parent ?n = None" by (simp_all add: create_scalar_def cJSON_New_Item_def)
  have "items ?h a ([] @ [x])" using ne n by (simp add: items_def)
  then obtain h' where "create_loop type zero a (Some x) xs' ?h = Returns h'" "items h' a (x # map fst xs')"
      "\<forall>y \<in> set (x # map fst xs'). \<exists>n. h' y = Some n \<and> parent n = None"
    using create_loop_links [of ?h a "[]" x xs' type zero] assms Cons p n ne by auto
  moreover have "create_array type zero a xs h = create_loop type zero a (Some x) xs' ?h"
    using Cons p ne by (simp add: create_array_def put_node_def fun_upd_twist)
  ultimately show ?thesis using Cons p by auto
qed

section \<open>Members by name\<close>

lemma detach_member:
  assumes "items h object xs"
  shows "\<exists>k \<le> length xs. (\<forall>j < k. \<forall>n. h (xs ! j) = Some n \<longrightarrow> names_differ (cname n) name)
    \<and> (k < length xs \<longrightarrow> (\<exists>n. h (xs ! k) = Some n \<and> \<not> names_differ (cname n) name))
    \<and> cJSON_GetObjectItem h object name = Some (Returns (if k < length xs then Some (xs ! k) else None))
    \<and> (\<exists>h'. cJSON_DetachItemFromObject h object name = Some (Returns (if k < length xs then Some (xs ! k) else None, h'))
          \<and> items h' object (take k xs @ drop (Suc k) xs))"
proof -
  obtain a q where a: "h object = Some a" "segment h None (child a) xs q None" using assms by (auto simp: items_def)
  obtain k where k: "k \<le> length xs" "find_from h (child a) name 0 = Some (Returns (if k < length xs then Some (xs ! k) else None, k))"
      "\<forall>j < k. \<forall>n. h (xs ! j) = Some n \<longrightarrow> names_differ (cname n) name"
      "k < length xs \<longrightarrow> (\<exists>n. h (xs ! k) = Some n \<and> \<not> names_differ (cname n) name)"
    using find_of_segment [OF a(2), of name 0] by auto
  have "\<exists>h'. cJSON_DetachItemFromObject h object name = Some (Returns (if k < length xs then Some (xs ! k) else None, h'))
      \<and> items h' object (take k xs @ drop (Suc k) xs)"
  proof (cases "k < length xs")
    case True
    then have split: "xs = take k xs @ xs ! k # drop (Suc k) xs" "length (take k xs) = k" by (simp_all add: id_take_nth_drop)
    then obtain h' where "cJson_detachItemFromArray h object k = Returns (Some (xs ! k), h')" "items h' object (take k xs @ drop (Suc k) xs)"
      using detach_removes [of h object "take k xs" "xs ! k" "drop (Suc k) xs"] assms by auto
    then show ?thesis using True a(1) k(2) by (simp add: cJSON_DetachItemFromObject_def)
  next
    case False
    then show ?thesis using a(1) k(1,2) assms by (simp add: cJSON_DetachItemFromObject_def)
  qed
  then show ?thesis using a(1) k by (intro exI [of _ k]) (auto simp: cJSON_GetObjectItem_def)
qed

section \<open>References and replaced items\<close>

text \<open>A reference to an item that is in a tree keeps the copied parent, so the array refuses it and the copy is lost.\<close>

lemma reference_refused:
  assumes "h item = Some n" "parent n \<noteq> None" "h array = Some a" "h new = None"
  shows "cJSON_AddItemReferenceToArray h array item new
    = Some (Returns (h(new \<mapsto> n\<lparr>cname := None, ctype := ctype n OR cJSON_IsReference, nxt := None, prv := None\<rparr>)))"
proof -
  have "new \<noteq> array" using assms by auto
  then show ?thesis using assms by (simp add: cJSON_AddItemReferenceToArray_def create_reference_def cnode_at_def cJSON_AddItemToArray_def)
qed

text \<open>A new item that was put into an array by replacing has no parent: a second array takes it as well.\<close>

lemma replaced_added_again:
  assumes "items h array (us @ c # vs)" "h new = Some m" "parent m = None" "new \<notin> set (array # us @ c # vs)"
    and "h other = Some b" "child b = None" "other \<notin> set (array # new # us @ c # vs)"
    and "replace_links h array (length us) new = Returns (Some c, h')"
  shows "\<exists>h''. cJSON_AddItemToArray h' other (Some new) = Some (Returns (Some new, h'')) \<and> items h' array (us @ new # vs)
    \<and> items h'' array (us @ new # vs) \<and> (\<exists>b'. h'' other = Some b' \<and> child b' = Some new)"
proof -
  obtain m' where r: "items h' array (us @ new # vs)" "h' new = Some m'" "parent m' = None" "h' other = Some b"
    using replace_puts [OF assms(1,2,4)] assms(3,5,7,8) by auto
  let ?h = "h'(other \<mapsto> b\<lparr>child := Some new\<rparr>, new \<mapsto> m'\<lparr>parent := Some other\<rparr>)"
  have ne: "new \<noteq> other" "array \<noteq> other" "array \<noteq> new" using assms(4,7) by auto
  have "cJSON_AddItemToArray h' other (Some new) = Some (Returns (Some new, ?h))"
    using r assms(6) ne by (simp add: cJSON_AddItemToArray_def put_node_def)
  moreover obtain a q where a: "h' array = Some a" "segment h' None (child a) (us @ new # vs) q None" "distinct (array # us @ new # vs)"
    using r(1) by (auto simp: items_def)
  have "segment (h'(other \<mapsto> b\<lparr>child := Some new\<rparr>)) None (child a) (us @ new # vs) q None"
    using a(2) assms(7) by (subst segment_outside) auto
  then have "segment ?h None (child a) (us @ new # vs) q None"
    using r(2) ne by (subst segment_same_links) (simp_all add: same_links_def)
  then have "items ?h array (us @ new # vs)" using a(1,3) ne by (auto simp: items_def)
  ultimately show ?thesis using r(1) ne by auto
qed

section \<open>Properties\<close>

text \<open>
  C19. The operations on an array are those on the list of its items: the size is the length, the item at a
  place is the element, adding a node that is nowhere appends it, detaching gives the item and the list without
  it, replacing puts the new node in its place. No operation leaves the allocated nodes or fails to return.
\<close>

theorem array_operations:
  assumes "items h array xs"
  shows "cJSON_GetArraySize h array = Some (Returns (length xs))
    \<and> cJSON_GetArrayItem h array i = Returns (if i < length xs then Some (xs ! i) else None)
    \<and> (\<forall>x n. h x = Some n \<and> parent n = None \<and> nxt n = None \<and> prv n = None \<and> x \<notin> set (array # xs) \<longrightarrow>
         (\<exists>h'. cJSON_AddItemToArray h array (Some x) = Some (Returns (Some x, h')) \<and> items h' array (xs @ [x])))
    \<and> (i < length xs \<longrightarrow> (\<exists>h'. cJson_detachItemFromArray h array i = Returns (Some (xs ! i), h') \<and> items h' array (take i xs @ drop (Suc i) xs)))
    \<and> (\<forall>x n. i < length xs \<and> h x = Some n \<and> x \<notin> set (array # xs) \<longrightarrow>
         (\<exists>h'. replace_links h array i x = Returns (Some (xs ! i), h') \<and> items h' array (xs[i := x])))"
proof -
  obtain a q where a: "h array = Some a" "segment h None (child a) xs q None" using assms by (auto simp: items_def)
  have split: "xs = take i xs @ xs ! i # drop (Suc i) xs" "length (take i xs) = i" if "i < length xs"
    using that by (simp_all add: id_take_nth_drop)
  have detach: "\<exists>h'. cJson_detachItemFromArray h array i = Returns (Some (xs ! i), h') \<and> items h' array (take i xs @ drop (Suc i) xs)"
    if i: "i < length xs"
    using detach_removes [of h array "take i xs" "xs ! i" "drop (Suc i) xs"] assms split [OF i] by auto
  have replace: "\<exists>h'. replace_links h array i x = Returns (Some (xs ! i), h') \<and> items h' array (xs[i := x])"
    if i: "i < length xs" and x: "h x = Some n" "x \<notin> set (array # xs)" for x n
    using replace_puts [of h array "take i xs" "xs ! i" "drop (Suc i) xs" x n] assms split [OF i] x
    by (auto simp: upd_conv_take_nth_drop [OF i])
  have "cJSON_GetArraySize h array = Some (Returns (length xs))"
    using size_of_segment [OF a(2), of 0] a(1) by (simp add: cJSON_GetArraySize_def)
  moreover have "cJSON_GetArrayItem h array i = Returns (if i < length xs then Some (xs ! i) else None)"
    using item_of_segment [OF a(2)] a(1) by (simp add: cJSON_GetArrayItem_def cnode_at_def)
  ultimately show ?thesis using add_appends [OF assms] detach replace by blast
qed

text \<open>An array of two items at 0, with a third node at 3 that belongs to nothing.\<close>

definition example_node :: "nat cnode" where
  "example_node = \<lparr>nxt = None, prv = None, child = None, parent = None, ctype = 0, cvalue = 0, cname = None\<rparr>"

definition example_heap :: "nat cheap" where
  "example_heap =
     [0 \<mapsto> example_node\<lparr>child := Some 1\<rparr>, 1 \<mapsto> example_node\<lparr>nxt := Some 2, parent := Some 0\<rparr>,
      2 \<mapsto> example_node\<lparr>prv := Some 1, parent := Some 0\<rparr>, 3 \<mapsto> example_node]"

lemma example_items: "items example_heap 0 [1, 2]"
  by (simp add: items_def example_heap_def example_node_def)

theorem array_operations_witness:
  "cJSON_GetArraySize example_heap 0 = Some (Returns 2)
    \<and> (\<exists>h'. cJSON_AddItemToArray example_heap 0 (Some 3) = Some (Returns (Some 3, h')) \<and> items h' 0 [1, 2, 3])
    \<and> (\<exists>h'. cJson_detachItemFromArray example_heap 0 1 = Returns (Some 2, h') \<and> items h' 0 [1])
    \<and> (\<exists>h'. replace_links example_heap 0 1 3 = Returns (Some 2, h') \<and> items h' 0 [1, 3])"
proof -
  note ops = array_operations [OF example_items, of 1]
  have n: "example_heap 3 = Some example_node" by (simp add: example_heap_def)
  have size: "cJSON_GetArraySize example_heap 0 = Some (Returns 2)" using conjunct1 [OF ops] by (simp add: numeral_2_eq_2)
  have "\<exists>h'. cJSON_AddItemToArray example_heap 0 (Some 3) = Some (Returns (Some 3, h')) \<and> items h' 0 ([1, 2] @ [3])"
    using conjunct1 [OF conjunct2 [OF conjunct2 [OF ops]]] n by (force simp: example_node_def)
  moreover have "\<exists>h'. replace_links example_heap 0 1 3 = Returns (Some ([1, 2] ! 1), h') \<and> items h' 0 ([1, 2][1 := 3])"
    using conjunct2 [OF conjunct2 [OF conjunct2 [OF conjunct2 [OF ops]]]] n by fastforce
  moreover have "\<exists>h'. cJson_detachItemFromArray example_heap 0 1 = Returns (Some ([1, 2] ! 1), h')
      \<and> items h' 0 (take 1 [1, 2] @ drop (Suc 1) [1, 2])"
    using conjunct1 [OF conjunct2 [OF conjunct2 [OF conjunct2 [OF ops]]]] by simp
  ultimately show ?thesis using size by simp
qed

text \<open>
  A node put into an array by replacing an item keeps no pointer to the array as its parent, so adding it
  to a second array is not refused: the node is then an item of both.
\<close>

theorem replaced_item_in_two_arrays:
  assumes "items h array (us @ c # vs)" "h new = Some m" "parent m = None" "new \<notin> set (array # us @ c # vs)"
    and "h other = Some b" "child b = None" "other \<notin> set (array # new # us @ c # vs)"
  shows "\<exists>h' h''. replace_links h array (length us) new = Returns (Some c, h')
    \<and> cJSON_AddItemToArray h' other (Some new) = Some (Returns (Some new, h''))
    \<and> items h'' array (us @ new # vs) \<and> (\<exists>b'. h'' other = Some b' \<and> child b' = Some new)"
proof -
  obtain h' where h': "replace_links h array (length us) new = Returns (Some c, h')"
    using replace_puts [OF assms(1,2,4)] by blast
  show ?thesis using replaced_added_again [OF assms h'] h' by blast
qed

theorem replaced_item_in_two_arrays_witness:
  "\<exists>h' h''. replace_links (example_heap(4 \<mapsto> example_node)) 0 0 3 = Returns (Some 1, h')
    \<and> cJSON_AddItemToArray h' 4 (Some 3) = Some (Returns (Some 3, h''))
    \<and> items h'' 0 [3, 2] \<and> (\<exists>b'. h'' 4 = Some b' \<and> child b' = Some 3)"
proof -
  let ?h = "example_heap(4 \<mapsto> example_node)"
  have "items ?h 0 ([] @ 1 # [2])" by (simp add: items_def example_heap_def example_node_def)
  moreover have "?h 3 = Some example_node" "?h 4 = Some example_node" "parent example_node = None" "child example_node = None"
    by (simp_all add: example_heap_def example_node_def)
  ultimately show ?thesis using replaced_item_in_two_arrays [of ?h 0 "[]" 1 "[2]" 3 example_node 4 example_node] by simp
qed

end
