(* ===== verification/Twister.thy ===== *)
theory Twister
  imports GPS_Prelude
begin

text \<open>
  The random numbers of the server, \<^verbatim>\<open>refs/httpserver/thelib/utils/random.h\<close>: a Mersenne twister of 624 words.
  The pointer to the next word is its index. A read of a word behind the state is out of bounds.
\<close>

unbundle bit_operations_syntax

section \<open>The state\<close>

definition twister_N :: nat where "twister_N = 624"
definition twister_M :: nat where "twister_M = 397"
definition MATRIX_A :: "32 word" where "MATRIX_A = 0x9908b0df"
definition UMASK :: "32 word" where "UMASK = 0x80000000"
definition LMASK :: "32 word" where "LMASK = 0x7fffffff"
definition N_MINUS_M :: nat where "N_MINUS_M = twister_N - twister_M"


record twister =
  m_state :: "32 word list"
  m_left :: int
  m_next :: nat

text \<open>\<^verbatim>\<open>init\<close>: each word from the one before and its index.\<close>

fun init_words :: "nat \<Rightarrow> nat \<Rightarrow> 32 word \<Rightarrow> 32 word list" where
  "init_words 0 j prev = []"
| "init_words (Suc k) j prev =
     (let w = 1812433253 * (prev XOR drop_bit 30 prev) + of_nat j in w # init_words k (j + 1) w)"

definition twister_init :: "32 word \<Rightarrow> 32 word list" where
  "twister_init p_seed = p_seed # init_words (twister_N - 1) 1 p_seed"






section \<open>The next state\<close>

definition MIXBITS :: "32 word \<Rightarrow> 32 word \<Rightarrow> 32 word" where
  "MIXBITS u v = (u AND UMASK) OR (v AND LMASK)"

definition TWIST :: "32 word \<Rightarrow> 32 word \<Rightarrow> 32 word" where
  "TWIST u v = drop_bit 1 (MIXBITS u v) XOR (if v AND 1 \<noteq> 0 then MATRIX_A else 0)"

text \<open>\<^verbatim>\<open>*p = p[off] ^ TWIST(p[0], p[1])\<close>, \<open>k\<close> times.\<close>

fun twist_loop :: "nat \<Rightarrow> nat \<Rightarrow> nat \<Rightarrow> 32 word list \<Rightarrow> 32 word list outcome" where
  "twist_loop 0 p off st = Returns st"
| "twist_loop (Suc k) p off st =
     (if p + off < length st \<and> p + 1 < length st
      then twist_loop k (p + 1) off (st[p := st ! (p + off) XOR TWIST (st ! p) (st ! (p + 1))])
      else OutOfBounds)"

definition next_state :: "twister \<Rightarrow> twister outcome" where
  "next_state t =
     bind_outcome (twist_loop (N_MINUS_M - 1) 0 twister_M (m_state t)) (\<lambda>st.
     bind_outcome (twist_loop (twister_M - 1) (N_MINUS_M - 1) N_MINUS_M st) (\<lambda>st'.
       let p = N_MINUS_M - 1 + (twister_M - 1)
       in if p + N_MINUS_M < length st'
          then Returns \<lparr>m_state = st'[p := st' ! (p + N_MINUS_M) XOR TWIST (st' ! p) (st' ! 0)], m_left = int twister_N, m_next = 0\<rparr>
          else OutOfBounds))"

definition temper :: "32 word \<Rightarrow> 32 word" where
  "temper y0 =
     (let y1 = y0 XOR drop_bit 11 y0;
          y2 = y1 XOR (push_bit 7 y1 AND 0x9d2c5680);
          y3 = y2 XOR (push_bit 15 y2 AND 0xefc60000)
      in y3 XOR drop_bit 18 y3)"

definition genrand_int32 :: "twister \<Rightarrow> (32 word \<times> twister) outcome" where
  "genrand_int32 t =
     bind_outcome (if m_left t - 1 = 0 then next_state (t\<lparr>m_left := 0\<rparr>) else Returns (t\<lparr>m_left := m_left t - 1\<rparr>)) (\<lambda>t'.
       if m_next t' < length (m_state t') then Returns (temper (m_state t' ! m_next t'), t'\<lparr>m_next := m_next t' + 1\<rparr>)
       else OutOfBounds)"

definition genrand_int31 :: "twister \<Rightarrow> (32 word \<times> twister) outcome" where
  "genrand_int31 t = bind_outcome (genrand_int32 t) (\<lambda>(y, t'). Returns (signed_drop_bit 1 y, t'))"

section \<open>Sizes\<close>

lemma length_init [simp]: "length (twister_init s) = 624"
proof -
  have "length (init_words k j w) = k" for k j w
    by (induction k arbitrary: j w) (simp_all add: Let_def)
  then show ?thesis by (simp add: twister_init_def twister_N_def)
qed






section \<open>The loops against the recurrence\<close>






section \<open>Properties\<close>



end
