(* ===== verification/AesModes.thy ===== *)
theory AesModes
  imports CryptoWrapper
begin

text \<open>
  The other modes of \<^verbatim>\<open>refs/httpserver/thelib/utils/aes_wrapper.cpp\<close>: blocks on their own (\<^verbatim>\<open>ecb\<close>) and the chaining
  that appends to a string (\<^verbatim>\<open>_v2\<close>), and the functions of \<^verbatim>\<open>crypto_wrapper.cpp\<close> over them without compression. The
  block functions of AES under a key are arguments.
\<close>

section \<open>Blocks on their own\<close>

function aes_ecb_encrypt :: "(string \<Rightarrow> string) \<Rightarrow> string \<Rightarrow> string outcome" where
  "aes_ecb_encrypt aes_encrypt inp =
     (if inp = [] then Returns []
      else if length inp < AES_BLOCK_SIZE then OutOfBounds
      else bind_outcome (aes_ecb_encrypt aes_encrypt (drop AES_BLOCK_SIZE inp)) (\<lambda>rest.
             Returns (aes_encrypt (take AES_BLOCK_SIZE inp) @ rest)))"
  by pat_completeness auto

termination
  by (relation "measure (\<lambda>(block, inp). length inp)") (auto simp: AES_BLOCK_SIZE_def)

text \<open>The output and its length: the last byte of the last block is taken off it, as a signed \<^verbatim>\<open>char\<close> in \<^verbatim>\<open>size_t\<close>.\<close>

definition padding_of :: "string \<Rightarrow> int" where
  "padding_of out = schar (last out)"

function ecb_decrypt_from :: "(string \<Rightarrow> string) \<Rightarrow> string \<Rightarrow> int \<Rightarrow> (string \<times> int) outcome" where
  "ecb_decrypt_from aes_decrypt inp outlen =
     (if inp = [] then Returns ([], outlen)
      else if length inp < AES_BLOCK_SIZE then OutOfBounds
      else
        let out = aes_decrypt (take AES_BLOCK_SIZE inp);
            outlen' = (if length inp > AES_BLOCK_SIZE then (outlen + int AES_BLOCK_SIZE) mod 2 ^ 64
                       else (outlen + (int AES_BLOCK_SIZE - padding_of out)) mod 2 ^ 64)
        in bind_outcome (ecb_decrypt_from aes_decrypt (drop AES_BLOCK_SIZE inp) outlen') (\<lambda>(rest, n). Returns (out @ rest, n)))"
  by pat_completeness auto

termination
  by (relation "measure (\<lambda>(block, inp, outlen). length inp)") (auto simp: AES_BLOCK_SIZE_def)

declare aes_ecb_encrypt.simps [simp del] ecb_decrypt_from.simps [simp del]

definition aes_ecb_decrypt :: "(string \<Rightarrow> string) \<Rightarrow> string \<Rightarrow> (string \<times> int) outcome" where
  "aes_ecb_decrypt aes_decrypt inp = ecb_decrypt_from aes_decrypt inp 0"

section \<open>Chaining into a string\<close>

text \<open>
  A last block that is not whole is encrypted, but the loop ends before it is appended; decryption reads sixteen
  bytes of it.
\<close>

function aes_cbc128_encrypt_v2 :: "(string \<Rightarrow> string) \<Rightarrow> string \<Rightarrow> string \<Rightarrow> string \<Rightarrow> string" where
  "aes_cbc128_encrypt_v2 block inp outp iv =
     (if length inp < AES_BLOCK_SIZE then outp
      else
        let out = block (map2 xor_char (take AES_BLOCK_SIZE inp) iv)
        in aes_cbc128_encrypt_v2 block (drop AES_BLOCK_SIZE inp) (outp @ out) out)"
  by pat_completeness auto

termination
  by (relation "measure (\<lambda>(block, inp, outp, iv). length inp)") (auto simp: AES_BLOCK_SIZE_def)

function aes_cbc128_decrypt_v2 :: "(string \<Rightarrow> string) \<Rightarrow> string \<Rightarrow> string \<Rightarrow> string \<Rightarrow> string outcome" where
  "aes_cbc128_decrypt_v2 block inp outp iv =
     (if inp = [] then Returns outp
      else if length inp < AES_BLOCK_SIZE then OutOfBounds
      else
        let c = take AES_BLOCK_SIZE inp
        in aes_cbc128_decrypt_v2 block (drop AES_BLOCK_SIZE inp) (outp @ map2 xor_char (block c) iv) c)"
  by pat_completeness auto

termination
  by (relation "measure (\<lambda>(block, inp, outp, iv). length inp)") (auto simp: AES_BLOCK_SIZE_def)

declare aes_cbc128_encrypt_v2.simps [simp del] aes_cbc128_decrypt_v2.simps [simp del]

definition max_data_len :: nat where
  "max_data_len = 65536"

definition aes_cbc_encrypt_v2 :: "(string \<Rightarrow> string) \<Rightarrow> string \<Rightarrow> string \<Rightarrow> string" where
  "aes_cbc_encrypt_v2 aes_encrypt inp outp =
     (if length inp > max_data_len then outp else aes_cbc128_encrypt_v2 aes_encrypt inp outp ivec)"

text \<open>The string is cut to the length of the input without padding, whatever it held before.\<close>

definition aes_cbc_decrypt_v2 :: "(string \<Rightarrow> string) \<Rightarrow> string \<Rightarrow> string \<Rightarrow> string outcome" where
  "aes_cbc_decrypt_v2 aes_decrypt inp outp =
     (if length inp > max_data_len then Returns outp
      else bind_outcome (aes_cbc128_decrypt_v2 aes_decrypt inp outp ivec) (\<lambda>out.
        if out = [] then OutOfBounds
        else
          let padding_size = nat (schar (last out) mod 2 ^ 64)
          in Returns (if length inp > padding_size
                      then take (length inp - padding_size) out @ replicate (length inp - padding_size - length out) (CHR 0x00)
                      else out)))"

section \<open>The wrappers\<close>

definition aes_encrypt_string :: "(string \<Rightarrow> string) \<Rightarrow> string \<Rightarrow> string outcome" where
  "aes_encrypt_string enc inp = (if length inp mod AES_BLOCK_SIZE = 0 then aes_cbc_encrypt enc inp else Aborts)"

definition aes_decrypt_string :: "(string \<Rightarrow> string) \<Rightarrow> string \<Rightarrow> string outcome" where
  "aes_decrypt_string dec inp =
     bind_outcome (aes_cbc_decrypt dec inp (length inp)) (\<lambda>(buffer, bufferlen). Returns (take bufferlen buffer))"

section \<open>The two ways of chaining\<close>

lemma cbc_v2_whole:
  "cbc128_encrypt block iv inp = Returns out \<Longrightarrow> aes_cbc128_encrypt_v2 block inp outp iv = outp @ out"
proof (induction "length inp" arbitrary: inp outp iv out rule: less_induct)
  case less
  show ?case
  proof (cases "inp = []")
    case True
    then show ?thesis using less.prems by (simp add: cbc128_encrypt.simps aes_cbc128_encrypt_v2.simps AES_BLOCK_SIZE_def)
  next
    case False
    let ?o = "block (map2 xor_char (take AES_BLOCK_SIZE inp) iv)"
    have n: "\<not> length inp < AES_BLOCK_SIZE" using less.prems False by (subst (asm) cbc128_encrypt.simps) (auto split: if_splits)
    then obtain rest where r: "cbc128_encrypt block ?o (drop AES_BLOCK_SIZE inp) = Returns rest" "out = ?o @ rest"
      using less.prems False by (subst (asm) cbc128_encrypt.simps) (auto simp: bind_outcome_Returns_iff Let_def)
    have "length (drop AES_BLOCK_SIZE inp) < length inp" using False by (cases inp) (simp_all add: AES_BLOCK_SIZE_def)
    then show ?thesis using less.hyps [OF _ r(1)] r(2) n by (subst aes_cbc128_encrypt_v2.simps) (simp add: Let_def)
  qed
qed

lemma cbc_v2_decrypt:
  "cbc128_decrypt block iv inp = Returns out \<Longrightarrow> aes_cbc128_decrypt_v2 block inp outp iv = Returns (outp @ out)"
proof (induction "length inp" arbitrary: inp outp iv out rule: less_induct)
  case less
  show ?case
  proof (cases "inp = []")
    case True
    then show ?thesis using less.prems by (simp add: cbc128_decrypt.simps aes_cbc128_decrypt_v2.simps)
  next
    case False
    let ?c = "take AES_BLOCK_SIZE inp"
    have n: "\<not> length inp < AES_BLOCK_SIZE" using less.prems False by (subst (asm) cbc128_decrypt.simps) (auto split: if_splits)
    then obtain rest where r: "cbc128_decrypt block ?c (drop AES_BLOCK_SIZE inp) = Returns rest" "out = map2 xor_char (block ?c) iv @ rest"
      using less.prems False by (subst (asm) cbc128_decrypt.simps) (auto simp: bind_outcome_Returns_iff Let_def)
    have "length (drop AES_BLOCK_SIZE inp) < length inp" using False by (cases inp) (simp_all add: AES_BLOCK_SIZE_def)
    then show ?thesis using less.hyps [OF _ r(1)] r(2) False n by (subst aes_cbc128_decrypt_v2.simps) (simp add: Let_def)
  qed
qed

lemma cbc_v2_tail:
  "length tail < AES_BLOCK_SIZE \<Longrightarrow> length inp mod AES_BLOCK_SIZE = 0 \<Longrightarrow>
    aes_cbc128_encrypt_v2 block (inp @ tail) outp iv = aes_cbc128_encrypt_v2 block inp outp iv"
proof (induction "length inp" arbitrary: inp outp iv rule: less_induct)
  case less
  show ?case
  proof (cases "inp = []")
    case True
    then show ?thesis using less.prems by (simp add: aes_cbc128_encrypt_v2.simps)
  next
    case False
    then have n: "AES_BLOCK_SIZE \<le> length inp" using less.prems(2) by (cases "length inp < AES_BLOCK_SIZE") auto
    then have "length (drop AES_BLOCK_SIZE inp) < length inp" "length (drop AES_BLOCK_SIZE inp) mod AES_BLOCK_SIZE = 0"
      using less.prems(2) False by (auto simp: le_mod_geq AES_BLOCK_SIZE_def)
    then show ?thesis using less.hyps [of "drop AES_BLOCK_SIZE inp"] less.prems(1) n
      by (simp add: aes_cbc128_encrypt_v2.simps [of block "inp @ tail"] aes_cbc128_encrypt_v2.simps [of block inp] Let_def)
  qed
qed

text \<open>The block functions as the properties use them.\<close>

definition block_cipher :: "(string \<Rightarrow> string) \<Rightarrow> (string \<Rightarrow> string) \<Rightarrow> bool" where
  "block_cipher enc dec = (\<forall>b. length b = 16 \<longrightarrow> length (enc b) = 16 \<and> dec (enc b) = b)"

lemma padded_last: "schar (last (pkcs s)) = int (length (pkcs s) - length s)"
proof -
  have "pkcs s \<noteq> []" using length_pkcs(2) [of s] by auto
  then show ?thesis using last_pkcs [of s] by (simp add: last_conv_nth)
qed

lemma padding_le: "length (pkcs s) - length s \<le> 16"
  by (simp add: pkcs_def AES_BLOCK_SIZE_def Let_def)

lemma ecb_roundtrip:
  assumes "block_cipher enc dec"
  shows "length inp mod 16 = 0 \<Longrightarrow> inp \<noteq> [] \<Longrightarrow> 0 \<le> n \<Longrightarrow> n + int (length inp) + 128 < 2 ^ 64 \<Longrightarrow> 0 \<le> schar (last inp) \<Longrightarrow>
    schar (last inp) \<le> 16 \<Longrightarrow>
    \<exists>out. aes_ecb_encrypt enc inp = Returns out \<and> length out = length inp
      \<and> ecb_decrypt_from dec out n = Returns (inp, n + int (length inp) - schar (last inp))"
proof (induction "length inp" arbitrary: inp n rule: less_induct)
  case less
  let ?b = "take 16 inp" and ?r = "drop 16 inp"
  have n: "16 \<le> length inp" using less.prems(1,2) by (cases "length inp < 16") auto
  then have e: "length (enc ?b) = 16" "dec (enc ?b) = ?b" using assms by (auto simp: block_cipher_def)
  then have e3: "enc ?b \<noteq> []" by auto
  show ?case
  proof (cases "?r = []")
    case True
    then have i: "?b = inp" "length inp = 16" using n by simp_all
    have "aes_ecb_encrypt enc inp = Returns (enc inp)"
      using i less.prems(2) by (simp add: aes_ecb_encrypt.simps [of enc inp] aes_ecb_encrypt.simps [of enc "[]"] AES_BLOCK_SIZE_def)
    moreover have "ecb_decrypt_from dec (enc inp) n = Returns (inp, n + int (length inp) - schar (last inp))"
      using e e3 i less.prems by (simp add: ecb_decrypt_from.simps [of dec "enc inp"] ecb_decrypt_from.simps [of dec "[]"] AES_BLOCK_SIZE_def padding_of_def)
    ultimately show ?thesis using e(1) i by simp
  next
    case False
    have d: "length ?r < length inp" "length ?r mod 16 = 0" "last ?r = last inp" "16 < length inp"
      using n less.prems(1,2) False by (auto simp: le_mod_geq)
    obtain out where out: "aes_ecb_encrypt enc ?r = Returns out" "length out = length ?r"
        "ecb_decrypt_from dec out (n + 16) = Returns (?r, n + 16 + int (length ?r) - schar (last ?r))"
      using less.hyps [OF d(1,2) False, of "n + 16"] less.prems d by auto
    have "aes_ecb_encrypt enc inp = Returns (enc ?b @ out)"
      using out(1) n less.prems(2) by (simp add: aes_ecb_encrypt.simps [of enc inp] AES_BLOCK_SIZE_def)
    moreover have "(n + 16) mod 2 ^ 64 = n + 16" using less.prems(3,4) n by simp
    then have "ecb_decrypt_from dec (enc ?b @ out) n = Returns (inp, n + int (length inp) - schar (last inp))"
      using e e3 out d n by (simp add: ecb_decrypt_from.simps [of dec "enc ?b @ out"] AES_BLOCK_SIZE_def Let_def)
    ultimately show ?thesis using e(1) out(2) n by simp
  qed
qed

lemma ecb_padded:
  assumes "block_cipher enc dec" "length (pkcs s) \<le> max_data_len"
  shows "\<exists>d. aes_ecb_encrypt enc (pkcs s) = Returns d \<and> aes_ecb_decrypt dec d = Returns (pkcs s, int (length s))"
proof -
  have p: "pkcs s \<noteq> []" "length s < length (pkcs s)" using length_pkcs(2) [of s] by auto
  obtain d where "aes_ecb_encrypt enc (pkcs s) = Returns d"
      "ecb_decrypt_from dec d 0 = Returns (pkcs s, 0 + int (length (pkcs s)) - schar (last (pkcs s)))"
    using ecb_roundtrip [OF assms(1) length_pkcs(1) p(1), of 0] assms(2) padding_le [of s] by (auto simp: padded_last max_data_len_def)
  then show ?thesis using p by (simp add: aes_ecb_decrypt_def padded_last)
qed

lemma pkcs_padding: "\<exists>m. length (pkcs s) = length s + m \<and> 0 < m \<and> m \<le> 16 \<and> schar (last (pkcs s)) = int m"
  using length_pkcs(2) [of s] padding_le [of s] padded_last [of s] by (intro exI [of _ "length (pkcs s) - length s"]) simp

lemma decrypt_v2_padded:
  assumes "cbc128_decrypt dec ivec c = Returns (pkcs s)" "length c = length (pkcs s)" "length (pkcs s) \<le> max_data_len"
  shows "aes_cbc_decrypt_v2 dec c old = Returns (if s = [] then old @ pkcs s else take (length s) (old @ s))"
proof -
  obtain m where m: "length (pkcs s) = length s + m" "0 < m" "m \<le> 16" "schar (last (pkcs s)) = int m"
    using pkcs_padding by blast
  have n: "pkcs s \<noteq> []" using m(1,2) by auto
  have k: "nat (schar (last (old @ pkcs s)) mod 2 ^ 64) = m" using m n by simp
  have "aes_cbc128_decrypt_v2 dec c old ivec = Returns (old @ pkcs s)" using cbc_v2_decrypt [OF assms(1)] .
  then have "aes_cbc_decrypt_v2 dec c old = Returns (if length c > m
      then take (length c - m) (old @ pkcs s) @ replicate (length c - m - length (old @ pkcs s)) (CHR 0x00) else old @ pkcs s)"
    using n assms(2,3) k by (simp add: aes_cbc_decrypt_v2_def Let_def)
  moreover have "take (length s) (old @ pkcs s) = take (length s) (old @ s)" by (simp add: pkcs_def Let_def)
  ultimately show ?thesis using assms(2) m by simp
qed

lemma decrypt_string_padded:
  assumes "cbc128_decrypt dec ivec c = Returns (pkcs s)" "length c = length (pkcs s)"
  shows "aes_decrypt_string dec c = Returns (if s = [] then pkcs s else s)"
proof -
  obtain m where m: "length (pkcs s) = length s + m" "0 < m" "m \<le> 16" "schar (last (pkcs s)) = int m"
    using pkcs_padding by blast
  have n: "pkcs s \<noteq> []" "c \<noteq> []" using m(1,2) assms(2) by auto
  have "schar (pkcs s ! (length c - 1)) = int m" using m(4) n(1) assms(2) by (simp add: last_conv_nth)
  then have "aes_decrypt_string dec c = Returns (take (if length c > m then length c - m else length c) (pkcs s))"
    using assms(1) n m(3) by (simp add: aes_decrypt_string_def aes_cbc_decrypt_def Let_def)
  then show ?thesis using assms(2) m by (cases "s = []") simp_all
qed

section \<open>Properties\<close>

text \<open>
  C38. The modes against each other: whole blocks chained into a string are what the first version gives for them,
  a last block that is not whole is dropped without an error, and decrypting gives a text that was padded back
  without its padding in every mode, cut by what the string held before. Of the block functions it is used that
  decryption inverts encryption. The padding of an empty text stays.
\<close>

theorem modes_roundtrip:
  assumes "block_cipher enc dec" and "length (pkcs s) \<le> max_data_len"
  shows "\<exists>c d. aes_cbc_encrypt enc (pkcs s) = Returns c \<and> aes_cbc_encrypt_v2 enc (pkcs s) [] = c
    \<and> (\<forall>tail. length tail < 16 \<longrightarrow> length (pkcs s @ tail) \<le> max_data_len \<longrightarrow> aes_cbc_encrypt_v2 enc (pkcs s @ tail) [] = c)
    \<and> (\<forall>old. aes_cbc_decrypt_v2 dec c old = Returns (if s = [] then old @ pkcs s else take (length s) (old @ s)))
    \<and> aes_encrypt_string enc (pkcs s) = Returns c \<and> aes_decrypt_string dec c = Returns (if s = [] then pkcs s else s)
    \<and> aes_ecb_encrypt enc (pkcs s) = Returns d \<and> aes_ecb_decrypt dec d = Returns (pkcs s, int (length s))"
proof -
  have c16: "\<forall>b. length b = 16 \<longrightarrow> length (enc b) = 16 \<and> dec (enc b) = b" using assms(1) by (simp add: block_cipher_def)
  have "length ivec = 16" by (simp add: ivec_def)
  then obtain c where c: "cbc128_encrypt enc ivec (pkcs s) = Returns c" "length c = length (pkcs s)" "cbc128_decrypt dec ivec c = Returns (pkcs s)"
    using cbc_roundtrip [OF c16 _ length_pkcs(1)] by blast
  have v2: "aes_cbc_encrypt_v2 enc (pkcs s) [] = c"
    using cbc_v2_whole [OF c(1)] assms(2) by (simp add: aes_cbc_encrypt_v2_def)
  have tail: "aes_cbc_encrypt_v2 enc (pkcs s @ tail) [] = c" if "length tail < 16" "length (pkcs s @ tail) \<le> max_data_len" for tail
    using that v2 cbc_v2_tail [of tail "pkcs s"] length_pkcs(1) [of s] assms(2) by (simp add: aes_cbc_encrypt_v2_def AES_BLOCK_SIZE_def)
  obtain d where d: "aes_ecb_encrypt enc (pkcs s) = Returns d" "aes_ecb_decrypt dec d = Returns (pkcs s, int (length s))"
    using ecb_padded [OF assms] by blast
  show ?thesis
    using c v2 tail d decrypt_v2_padded [OF c(3,2) assms(2)] decrypt_string_padded [OF c(3,2)] length_pkcs(1) [of s]
    by (intro exI [of _ c] exI [of _ d]) (simp add: aes_cbc_encrypt_def aes_encrypt_string_def AES_BLOCK_SIZE_def)
qed

theorem modes_roundtrip_witness:
  "\<exists>c. aes_cbc_encrypt_v2 rev (pkcs ''secret'') [] = c \<and> aes_cbc_decrypt_v2 rev c [] = Returns ''secret''"
proof -
  have "block_cipher rev rev" by (simp add: block_cipher_def)
  moreover have "length (pkcs ''secret'') \<le> max_data_len" by (simp add: pkcs_def AES_BLOCK_SIZE_def max_data_len_def)
  ultimately obtain c where "aes_cbc_encrypt_v2 rev (pkcs ''secret'') [] = c"
      "\<forall>old. aes_cbc_decrypt_v2 rev c old
        = Returns (if ''secret'' = [] then old @ pkcs ''secret'' else take (length ''secret'') (old @ ''secret''))"
    using modes_roundtrip [of rev rev "''secret''"] by blast
  then show ?thesis by (intro exI [of _ c]) simp
qed

end
