(* ===== verification/JsonDocument.thy ===== *)
theory JsonDocument
  imports JsonRoundtrip JsonObject
begin

text \<open>
  The document class of \<^verbatim>\<open>refs/httpserver/thelib/utils/cjson_wrapper.cpp\<close>: named values under a root object that are
  written to a file with every change, and the accessors of its \<^verbatim>\<open>object\<close> class the server's handlers leave
  aside. The file system is a map from names to contents, and \<open>W\<close> the names that can be opened for writing.
\<close>

section \<open>More accessors\<close>

text \<open>Arithmetic of \<^verbatim>\<open>float\<close> is a parameter.\<close>

record 'd floats =
  to_float :: "'d \<Rightarrow> 'd"
  float_of_int :: "int \<Rightarrow> 'd"
  float_atof :: "string \<Rightarrow> 'd"

definition as_largest_int :: "('d \<Rightarrow> int) \<Rightarrow> (string \<Rightarrow> int) \<Rightarrow> int \<Rightarrow> 'd obj \<Rightarrow> int" where
  "as_largest_int to_longlong c_atoll dflt obj =
     (case obj of
        Some (Integer n) \<Rightarrow> n
      | Some (Real d) \<Rightarrow> to_longlong d
      | Some (String s) \<Rightarrow> c_atoll s
      | _ \<Rightarrow> dflt)"

definition as_float :: "'d floats \<Rightarrow> 'd \<Rightarrow> 'd obj \<Rightarrow> 'd" where
  "as_float F dflt obj =
     (case obj of
        Some (Real d) \<Rightarrow> to_float F d
      | Some (Integer n) \<Rightarrow> float_of_int F (c_int n)
      | Some (String s) \<Rightarrow> float_atof F s
      | _ \<Rightarrow> dflt)"

text \<open>An item by its place: of an array or an object, any place below 0 is the first.\<close>

definition get_item :: "'d obj \<Rightarrow> int \<Rightarrow> 'd obj" where
  "get_item obj index =
     (case obj of
        Some (Array xs) \<Rightarrow> GetArrayItem xs index
      | Some (Object ms) \<Rightarrow> GetArrayItem (map snd ms) index
      | _ \<Rightarrow> None)"

text \<open>
  On an array, \<^verbatim>\<open>obj = child\<close> with a constant \<^verbatim>\<open>child\<close> fits \<^verbatim>\<open>operator=(bool)\<close> only, which leaves the nil
  object as it is: no child is ever found.
\<close>

definition getObjectByValue :: "'d obj \<Rightarrow> string \<Rightarrow> int \<Rightarrow> 'd obj" where
  "getObjectByValue obj key v = (case obj of Some (Object ms) \<Rightarrow> GetObjectItem ms key | _ \<Rightarrow> None)"

text \<open>\<^verbatim>\<open>insert\<close> adds behind the members there are, of the same name or not; the object is nowhere else in a tree.\<close>

definition insert_object :: "string \<Rightarrow> 'd obj \<Rightarrow> 'd obj \<Rightarrow> bool \<times> 'd obj" where
  "insert_object key v obj =
     (case (obj, v) of
        (Some Null, Some x) \<Rightarrow> (True, Some (Object [(key, x)]))
      | (Some Null, None) \<Rightarrow> (False, Some (Object []))
      | (Some (Object ms), Some x) \<Rightarrow> (True, Some (Object (ms @ [(key, x)])))
      | _ \<Rightarrow> (False, obj))"

definition object_empty :: "'d obj \<Rightarrow> bool" where
  "object_empty obj =
     (case obj of None \<Rightarrow> True | Some Null \<Rightarrow> True | Some (Array xs) \<Rightarrow> xs = [] | Some (Object ms) \<Rightarrow> ms = [] | _ \<Rightarrow> False)"

text \<open>\<^verbatim>\<open>clone\<close> drops the duplicate it makes.\<close>

definition object_clone :: "'d obj \<Rightarrow> 'd obj" where
  "object_clone obj = None"

fun remove_member :: "string \<Rightarrow> (string \<times> 'd json) list \<Rightarrow> (string \<times> 'd json) list" where
  "remove_member key [] = []"
| "remove_member key ((name, v) # ms) = (if stricmp_eq name key then ms else (name, v) # remove_member key ms)"

definition object_remove :: "string \<Rightarrow> 'd obj \<Rightarrow> 'd obj" where
  "object_remove key obj = (case obj of Some (Object ms) \<Rightarrow> Some (Object (remove_member key ms)) | _ \<Rightarrow> obj)"

section \<open>The document\<close>

record 'd document =
  doc_root :: "'d obj"
  doc_filename :: string

type_synonym disk = "string \<Rightarrow> string option"


definition isOpen :: "'d document \<Rightarrow> bool" where
  "isOpen d = (doc_root d \<noteq> None)"

definition doc_toString :: "'d doubles \<Rightarrow> bool \<Rightarrow> 'd document \<Rightarrow> string outcome" where
  "doc_toString D formatted d = (case doc_root d of None \<Rightarrow> Returns [] | Some j \<Rightarrow> cJSON_Print D formatted j)"

definition doc_flush :: "'d doubles \<Rightarrow> string set \<Rightarrow> string option \<Rightarrow> 'd document \<Rightarrow> disk \<Rightarrow> disk outcome" where
  "doc_flush D W file d disk =
     (if \<not> isOpen d then Returns disk
      else bind_outcome (doc_toString D True d) (\<lambda>data.
        let target = (case file of None \<Rightarrow> doc_filename d | Some f \<Rightarrow> f)
        in Returns (if target \<in> W then disk(target \<mapsto> data) else disk)))"


definition doc_close :: "'d doubles \<Rightarrow> string set \<Rightarrow> 'd document \<Rightarrow> disk \<Rightarrow> disk outcome" where
  "doc_close D W d disk = (if isOpen d then doc_flush D W None d disk else Returns disk)"

text \<open>
  The four \<^verbatim>\<open>insert\<close>s: a member of that name, or a new one of a type, takes the value. On a root that is no
  object nothing is added.
\<close>

definition insert_member :: "string \<Rightarrow> 'd json \<Rightarrow> ('d json \<Rightarrow> 'd json) \<Rightarrow> 'd obj \<Rightarrow> 'd obj" where
  "insert_member key zero f obj =
     (if hasMember obj key then put key f obj else put key (\<lambda>x. f zero) obj)"

definition doc_insert :: "'d doubles \<Rightarrow> string set \<Rightarrow> string \<Rightarrow> 'd json \<Rightarrow> ('d json \<Rightarrow> 'd json) \<Rightarrow> 'd document \<times> disk
    \<Rightarrow> ('d document \<times> disk) outcome" where
  "doc_insert D W key zero f = (\<lambda>(d, disk).
     let d' = d\<lparr>doc_root := insert_member key zero f (doc_root d)\<rparr>
     in bind_outcome (doc_flush D W None d' disk) (\<lambda>disk'. Returns (d', disk')))"

definition insert_int :: "'d doubles \<Rightarrow> string set \<Rightarrow> string \<Rightarrow> int \<Rightarrow> 'd document \<times> disk \<Rightarrow> ('d document \<times> disk) outcome" where
  "insert_int D W key v = doc_insert D W key (Integer 0) (set_int v)"

definition insert_bool :: "'d doubles \<Rightarrow> string set \<Rightarrow> string \<Rightarrow> bool \<Rightarrow> 'd document \<times> disk \<Rightarrow> ('d document \<times> disk) outcome" where
  "insert_bool D W key v = doc_insert D W key (Boolean False) (set_bool v)"

definition insert_float :: "'d doubles \<Rightarrow> string set \<Rightarrow> string \<Rightarrow> 'd \<Rightarrow> 'd document \<times> disk \<Rightarrow> ('d document \<times> disk) outcome" where
  "insert_float D W key v = doc_insert D W key (Integer 0) (set_real v)"


text \<open>The four \<^verbatim>\<open>get\<close>s go through the index operator that makes a null member of a name that is missing.\<close>

definition doc_touch :: "string \<Rightarrow> 'd document \<Rightarrow> 'd document" where
  "doc_touch key d = d\<lparr>doc_root := put key (\<lambda>x. x) (doc_root d)\<rparr>"

definition doc_get :: "('v \<Rightarrow> 'd obj \<Rightarrow> 'v) \<Rightarrow> string \<Rightarrow> 'v \<Rightarrow> 'd document \<Rightarrow> 'v \<times> 'd document" where
  "doc_get as key dflt d = (as dflt (get_object (doc_root (doc_touch key d)) key), doc_touch key d)"


definition doc_contains :: "string \<Rightarrow> 'd document \<Rightarrow> bool" where
  "doc_contains key d = hasMember (doc_root d) key"

section \<open>Named values\<close>

text \<open>
  What a client expects of named values: names are compared without case, a value stored under a name is found
  under it, and erasing takes it away.
\<close>

datatype 'v edit = Store string 'v | Erase string

fun edit_map :: "'v edit \<Rightarrow> (string \<Rightarrow> 'v option) \<Rightarrow> string \<Rightarrow> 'v option" where
  "edit_map (Store k v) m j = (if stricmp_eq j k then Some v else m j)"
| "edit_map (Erase k) m j = (if stricmp_eq j k then None else m j)"

locale named_values =
  fixes lookup :: "'s \<Rightarrow> string \<Rightarrow> 'v option" and store :: "string \<Rightarrow> 'v \<Rightarrow> 's \<Rightarrow> 's"
    and erase :: "string \<Rightarrow> 's \<Rightarrow> 's" and inv :: "'s \<Rightarrow> bool" and allowed :: "'v edit \<Rightarrow> bool"
  assumes lookup_store: "inv s \<Longrightarrow> allowed (Store k v) \<Longrightarrow> lookup (store k v s) j = (if stricmp_eq j k then Some v else lookup s j)"
    and lookup_erase: "inv s \<Longrightarrow> lookup (erase k s) j = (if stricmp_eq j k then None else lookup s j)"
    and inv_store: "inv s \<Longrightarrow> allowed (Store k v) \<Longrightarrow> inv (store k v s)"
    and inv_erase: "inv s \<Longrightarrow> inv (erase k s)"
begin

definition apply_edit :: "'v edit \<Rightarrow> 's \<Rightarrow> 's" where
  "apply_edit e s = (case e of Store k v \<Rightarrow> store k v s | Erase k \<Rightarrow> erase k s)"

lemma edits_refine:
  "inv s \<Longrightarrow> list_all allowed es \<Longrightarrow>
    inv (fold apply_edit es s) \<and> lookup (fold apply_edit es s) = fold edit_map es (lookup s)"
proof (induction es arbitrary: s)
  case (Cons e es)
  have "inv (apply_edit e s)" using Cons.prems by (cases e) (simp_all add: apply_edit_def inv_store inv_erase)
  moreover have "lookup (apply_edit e s) = edit_map e (lookup s)"
    using Cons.prems by (cases e) (simp_all add: apply_edit_def lookup_store lookup_erase fun_eq_iff)
  ultimately show ?case using Cons by simp
qed simp

end

section \<open>Documents of texts\<close>

definition text_value :: "'d json \<Rightarrow> bool" where
  "text_value x = (\<exists>s. x = String s \<and> CHR 0x00 \<notin> set s)"

definition texts :: "(string \<times> 'd json) list \<Rightarrow> bool" where
  "texts ms = list_all (\<lambda>(name, x). CHR 0x00 \<notin> set name \<and> text_value x) ms"

definition names_of :: "(string \<times> 'd json) list \<Rightarrow> string list" where
  "names_of ms = map (\<lambda>m. map c_tolower (fst m)) ms"

definition names_distinct :: "(string \<times> 'd json) list \<Rightarrow> bool" where
  "names_distinct ms = distinct (names_of ms)"

lemma names_of_simps [simp]: "names_of [] = []" "names_of ((name, x) # ms) = map c_tolower name # names_of ms"
  by (simp_all add: names_of_def)

definition text_root :: "'d obj \<Rightarrow> bool" where
  "text_root r = (\<exists>ms. r = Some (Object ms) \<and> texts ms \<and> names_distinct ms)"

definition text_of :: "'d obj \<Rightarrow> string \<Rightarrow> string option" where
  "text_of r k = (case get_object r k of Some (String s) \<Rightarrow> Some s | _ \<Rightarrow> None)"

definition store_text :: "string \<Rightarrow> string \<Rightarrow> 'd obj \<Rightarrow> 'd obj" where
  "store_text key v = insert_member key (String []) (set_string v)"

fun plain_edit :: "string edit \<Rightarrow> bool" where
  "plain_edit (Store k v) = (CHR 0x00 \<notin> set k \<and> CHR 0x00 \<notin> set v)"
| "plain_edit (Erase k) = True"

lemma texts_found: "texts ms \<Longrightarrow> GetObjectItem ms key = Some x \<Longrightarrow> text_value x"
  by (induction ms key rule: GetObjectItem.induct) (auto simp: texts_def split: if_splits)

lemma texts_set_member:
  "texts ms \<Longrightarrow> CHR 0x00 \<notin> set key \<Longrightarrow> (\<And>x. x = Null \<or> text_value x \<Longrightarrow> text_value (f x)) \<Longrightarrow> texts (set_member key f ms)"
proof (induction ms)
  case Nil
  then show ?case by (simp add: texts_def)
next
  case (Cons m ms)
  obtain name x where "m = (name, x)" by (cases m)
  then show ?case using Cons by (cases "stricmp_eq name key") (simp_all add: texts_def)
qed

lemma names_set_member:
  "names_of (set_member key f ms) = (if GetObjectItem ms key = None then names_of ms @ [map c_tolower key] else names_of ms)"
proof (induction ms)
  case (Cons m ms)
  obtain name x where "m = (name, x)" by (cases m)
  then show ?case using Cons by (cases "stricmp_eq name key") simp_all
qed simp

lemma found_iff: "GetObjectItem ms key = None \<longleftrightarrow> map c_tolower key \<notin> set (names_of ms)"
  by (induction ms) (auto simp: stricmp_eq_def split: if_splits)

lemma names_distinct_set_member: "names_distinct ms \<Longrightarrow> names_distinct (set_member key f ms)"
  unfolding names_distinct_def names_set_member using found_iff [of ms key] by simp

lemma set_remove_member: "set (names_of (remove_member key ms)) \<subseteq> set (names_of ms)"
  by (induction ms) (auto split: if_splits)

lemma remove_member_inv: "texts ms \<Longrightarrow> names_distinct ms \<Longrightarrow> texts (remove_member key ms) \<and> names_distinct (remove_member key ms)"
proof (induction ms)
  case (Cons m ms)
  obtain name x where m: "m = (name, x)" by (cases m)
  have "map c_tolower name \<notin> set (names_of (remove_member key ms))"
    using Cons.prems(2) set_remove_member [of key ms] by (auto simp: names_distinct_def m)
  then show ?case using Cons m by (simp add: texts_def names_distinct_def)
qed simp

lemma GetObjectItem_remove:
  "names_distinct ms \<Longrightarrow> GetObjectItem (remove_member key ms) k = (if stricmp_eq k key then None else GetObjectItem ms k)"
proof (induction ms)
  case (Cons m ms)
  obtain name x where m: "m = (name, x)" by (cases m)
  have d: "names_distinct ms" "GetObjectItem ms name = None" using Cons.prems m found_iff [of ms name] by (simp_all add: names_distinct_def)
  have same: "GetObjectItem ms k = GetObjectItem ms name" if "stricmp_eq k name" for k
  proof -
    have "stricmp_eq a k \<longleftrightarrow> stricmp_eq a name" for a using that by (simp add: stricmp_eq_def)
    then show ?thesis by (induction ms) auto
  qed
  show ?case
  proof (cases "stricmp_eq name key")
    case True
    then have "stricmp_eq k key \<longleftrightarrow> stricmp_eq name k" by (auto simp: stricmp_eq_def)
    then show ?thesis using True m d same [of k] by (auto simp: stricmp_eq_def)
  next
    case False
    then have "stricmp_eq name k \<Longrightarrow> \<not> stricmp_eq k key" by (auto simp: stricmp_eq_def)
    then show ?thesis using False Cons.IH [OF d(1)] m by auto
  qed
qed simp

lemma insert_member_Object: "insert_member key zero f (Some (Object ms)) =
    Some (Object (set_member key (if GetObjectItem ms key = None then \<lambda>x. f zero else f) ms))"
  by (simp add: insert_member_def hasMember_def get_object_def put_def)

lemma get_object_Object: "get_object (Some (Object ms)) k = GetObjectItem ms k"
  by (simp add: get_object_def)

lemma store_text_inv:
  assumes "text_root r" "plain_edit (Store k v)"
  shows "text_root (store_text k v r)"
    and "text_of (store_text k v r) j = (if stricmp_eq j k then Some v else text_of r j)"
proof -
  obtain ms where ms: "r = Some (Object ms)" "texts ms" "names_distinct ms" using assms(1) by (auto simp: text_root_def)
  let ?f = "if GetObjectItem ms k = None then \<lambda>x. set_string v (String []) else set_string v"
  have f: "text_value (?f x)" if "x = Null \<or> text_value x" for x :: "'a json"
    using that assms(2) by (auto simp: text_value_def)
  then have "texts (set_member k ?f ms)" using ms(2) assms(2) by (intro texts_set_member) auto
  then show "text_root (store_text k v r)"
    using ms by (simp add: text_root_def store_text_def insert_member_Object names_distinct_set_member)
  have "?f (case GetObjectItem ms k of None \<Rightarrow> Null | Some x \<Rightarrow> x) = String v"
    using texts_found [OF ms(2), of k] by (auto simp: text_value_def split: option.split)
  then show "text_of (store_text k v r) j = (if stricmp_eq j k then Some v else text_of r j)"
    unfolding text_of_def store_text_def ms(1) insert_member_Object get_object_Object GetObjectItem_set_member by simp
qed

lemma erase_text_inv:
  assumes "text_root r"
  shows "text_root (object_remove k r)"
    and "text_of (object_remove k r) j = (if stricmp_eq j k then None else text_of r j)"
proof -
  obtain ms where ms: "r = Some (Object ms)" "texts ms" "names_distinct ms" using assms by (auto simp: text_root_def)
  then show "text_root (object_remove k r)" using remove_member_inv by (auto simp: text_root_def object_remove_def)
  show "text_of (object_remove k r) j = (if stricmp_eq j k then None else text_of r j)"
    using GetObjectItem_remove [OF ms(3)] by (simp add: text_of_def object_remove_def ms(1) get_object_Object)
qed

interpretation texts: named_values text_of store_text object_remove text_root plain_edit
  by unfold_locales (simp_all add: store_text_inv erase_text_inv)

section \<open>The document on its file\<close>












section \<open>Properties\<close>



text \<open>
  Two of the operations do not do what they are declared for: a \<^verbatim>\<open>float\<close> inserted under a new name is lost,
  the document then holds the integer 0 there; and asking for a name that is missing adds a null member of that
  name, which the document then contains.
\<close>

theorem float_lost_and_get_adds:
  assumes "doc_root d = Some (Object ms)" "GetObjectItem ms key = None"
  shows "get_object (insert_member key (Integer 0) (set_real v) (doc_root d)) key = Some (Integer 0)
    \<and> (insert_float D W key v (d, disk) = Returns (d', disk') \<longrightarrow> as_float F dflt (get_object (doc_root d') key) = float_of_int F 0)
    \<and> \<not> doc_contains key d \<and> fst (doc_get as key dflt' d) = as dflt' (Some Null)
    \<and> doc_contains key (snd (doc_get as key dflt' d))"
proof -
  have g: "get_object (insert_member key (Integer 0) (set_real v) (doc_root d)) key = Some (Integer 0)"
    unfolding assms(1) insert_member_Object get_object_Object GetObjectItem_set_member by (simp add: assms(2))
  moreover have "as_float F dflt (get_object (doc_root d') key) = float_of_int F 0"
    if "insert_float D W key v (d, disk) = Returns (d', disk')"
    using that g by (auto simp: insert_float_def doc_insert_def bind_outcome_Returns_iff as_float_def c_int_def Let_def)
  moreover have "get_object (doc_root (doc_touch key d)) key = Some Null"
    using assms by (simp add: doc_touch_def get_object_put get_object_Object)
  ultimately show ?thesis using assms by (simp add: doc_get_def doc_contains_def hasMember_def get_object_Object)
qed

theorem float_lost_and_get_adds_witness:
  "get_object (insert_member ''lat'' (Integer 0) (set_real (5 :: nat)) (Some (Object []))) ''lat'' = Some (Integer 0)
    \<and> doc_contains ''lat'' (snd (doc_get (as_string :: string \<Rightarrow> nat obj \<Rightarrow> string) ''lat'' [] \<lparr>doc_root = Some (Object []), doc_filename = []\<rparr>))"
  using float_lost_and_get_adds [of "\<lparr>doc_root = Some (Object []), doc_filename = []\<rparr>" "[]" "''lat''" "5 :: nat",
      where as = "as_string :: string \<Rightarrow> nat obj \<Rightarrow> string" and dflt' = "[]"] by simp

end
