(* ===== verification/EventService.thy ===== *)
theory EventService
  imports SocketIo "HOL-Library.Multiset"
begin

text \<open>
  The event service of \<^verbatim>\<open>xxsocket/refs/async\<close>: \<^verbatim>\<open>epoll_io_service.cpp\<close> with its listening thread and its workers around
  a queue of operations, and the operations of \<^verbatim>\<open>epoll_recv_op.h\<close> and \<^verbatim>\<open>epoll_send_op.h\<close>. Every thread has a place
  in its code, and a step moves one thread. The mutex has an owner, a thread that waits on the condition has
  given it up, and the system decides which events there are and which waiting thread a signal wakes. A
  descriptor that is registered is open. A pointer is an \<open>option\<close>, \<open>None\<close> the null pointer.
\<close>

section \<open>The state\<close>

text \<open>The places of a worker in \<^verbatim>\<open>io_perfmon_entry\<close>. It owns the mutex from \<open>Tests\<close>, the condition of its loop, over
  \<open>Checks\<close>, the test of the flag after it, to \<open>Takes\<close>, or to \<open>Waits\<close>; nothing keeps \<^verbatim>\<open>stop\<close> from coming between two
  of them.\<close>

datatype 'op worker_place = Locks | Tests | Checks | Takes | Waits | Sleeps | Completes "'op option" | Exited | Faulted

text \<open>The places of the listener in \<^verbatim>\<open>svc\<close>: at \<open>Polls\<close> it tests the flag, at \<open>Awaits\<close> it is in \<^verbatim>\<open>epoll_wait\<close>; \<open>Pushes\<close> owns the mutex, and what is left of the events follows.\<close>

datatype 'op listener_place = Polls | Awaits | Handles "'op option list" | Pushes "'op option" "'op option list"
  | Signals "'op option list" | Left

datatype thread_id = Listener | Worker nat

record 'op io_service =
  initialized :: bool
  broadcasting :: bool
  evq :: "nat \<Rightarrow> 'op option option"
  opq :: "'op option list"
  opq_mutex :: "thread_id option"
  listener :: "'op listener_place"
  op_workers :: "'op worker_place list"

text \<open>The service after its constructor and \<^verbatim>\<open>start\<close> with \<open>n\<close> tasks.\<close>

definition started :: "nat \<Rightarrow> 'op io_service" where
  "started n = \<lparr>initialized = True, broadcasting = False, evq = (\<lambda>fd. None), opq = [], opq_mutex = None,
     listener = Polls, op_workers = replicate n Locks\<rparr>"

text \<open>What a step shows: the operation put into the queue, taken from it or completed.\<close>

datatype 'op action = Silent | Posted "'op option" | Taken "'op option" | Completed "'op option"

section \<open>The operations of its users\<close>

text \<open>\<^verbatim>\<open>register_descriptor\<close> adds the descriptor with the data of its initialiser, which is null.\<close>

definition register_descriptor :: "nat \<Rightarrow> 'op \<Rightarrow> 'op io_service \<Rightarrow> bool \<times> 'op io_service" where
  "register_descriptor fd p s =
     (if evq s fd \<noteq> None then (False, s) else (True, s\<lparr>evq := (evq s)(fd := Some None)\<rparr>))"

definition resume_ev :: "nat \<Rightarrow> 'op \<Rightarrow> 'op io_service \<Rightarrow> bool \<times> 'op io_service" where
  "resume_ev fd p s =
     (if evq s fd = None then (False, s) else (True, s\<lparr>evq := (evq s)(fd := Some (Some p))\<rparr>))"

text \<open>
  \<^verbatim>\<open>stop\<close> takes the flag down and then wakes all who wait on the condition, without the mutex. No two threads call
  it at once.
\<close>

definition stop_flag :: "'op io_service \<Rightarrow> 'op io_service" where
  "stop_flag s = (if initialized s then s\<lparr>initialized := False, broadcasting := True\<rparr> else s)"

definition stop_broadcast :: "'op io_service \<Rightarrow> 'op io_service" where
  "stop_broadcast s =
     (if broadcasting s
      then s\<lparr>broadcasting := False, op_workers := map (\<lambda>p. if p = Sleeps then Locks else p) (op_workers s)\<rparr>
      else s)"

text \<open>\<^verbatim>\<open>wait_all\<close> returns when every thread has left its function.\<close>

definition wait_all_returns :: "'op io_service \<Rightarrow> bool" where
  "wait_all_returns s = (listener s = Left \<and> list_all (\<lambda>p. p = Exited) (op_workers s))"

section \<open>The threads\<close>

text \<open>One step of a worker, where it can make one.\<close>

definition move_worker :: "nat \<Rightarrow> 'op worker_place \<Rightarrow> 'op io_service \<Rightarrow> 'op io_service" where
  "move_worker i p s = s\<lparr>op_workers := (op_workers s)[i := p]\<rparr>"

fun io_perfmon_entry :: "nat \<Rightarrow> 'op worker_place \<Rightarrow> 'op io_service \<Rightarrow> ('op action \<times> 'op io_service) option" where
  "io_perfmon_entry i Locks s =
     (if opq_mutex s = None then Some (Silent, move_worker i Tests (s\<lparr>opq_mutex := Some (Worker i)\<rparr>)) else None)"
| "io_perfmon_entry i Tests s =
     Some (Silent, move_worker i (if opq s = [] \<and> initialized s then Waits else Checks) s)"
| "io_perfmon_entry i Checks s =
     (if \<not> initialized s then Some (Silent, move_worker i Exited (s\<lparr>opq_mutex := None\<rparr>))
      else Some (Silent, move_worker i Takes s))"
| "io_perfmon_entry i Takes s =
     (case opq s of
        [] \<Rightarrow> Some (Silent, move_worker i Faulted (s\<lparr>opq_mutex := None\<rparr>))
      | p # rest \<Rightarrow> Some (Taken p, move_worker i (Completes p) (s\<lparr>opq := rest, opq_mutex := None\<rparr>)))"
| "io_perfmon_entry i Waits s = Some (Silent, move_worker i Sleeps (s\<lparr>opq_mutex := None\<rparr>))"
| "io_perfmon_entry i Sleeps s = None"
| "io_perfmon_entry i (Completes (Some p)) s = Some (Completed (Some p), move_worker i Locks s)"
| "io_perfmon_entry i (Completes None) s = Some (Completed None, move_worker i Faulted s)"
| "io_perfmon_entry i Exited s = None"
| "io_perfmon_entry i Faulted s = None"

text \<open>What \<^verbatim>\<open>epoll_wait\<close> answers: descriptors with events, an interruption or an error.\<close>

datatype poll_answer = Ready "nat list" | Interrupted | Poll_failed

definition ready_data :: "(nat \<Rightarrow> 'op option option) \<Rightarrow> nat list \<Rightarrow> 'op option list" where
  "ready_data q fds = List.map_filter q (take 128 (remdups fds))"

text \<open>One step of the listener, with the answer to its poll and the worker that its signal wakes.\<close>

definition wake :: "nat \<Rightarrow> 'op io_service \<Rightarrow> 'op io_service" where
  "wake i s = (if i < length (op_workers s) \<and> op_workers s ! i = Sleeps then move_worker i Locks s else s)"

definition wakes :: "nat \<Rightarrow> 'op io_service \<Rightarrow> bool" where
  "wakes i s = (Sleeps \<in> set (op_workers s) \<longrightarrow> i < length (op_workers s) \<and> op_workers s ! i = Sleeps)"

fun svc :: "poll_answer \<Rightarrow> nat \<Rightarrow> 'op listener_place \<Rightarrow> 'op io_service \<Rightarrow> ('op action \<times> 'op io_service) option" where
  "svc answer i Polls s =
     Some (Silent, s\<lparr>listener := if \<not> initialized s then Left else Awaits\<rparr>)"
| "svc answer i Awaits s =
     (case answer of
        Ready fds \<Rightarrow> Some (Silent, s\<lparr>listener := Handles (ready_data (evq s) fds)\<rparr>)
      | Interrupted \<Rightarrow> Some (Silent, s\<lparr>listener := Polls\<rparr>)
      | Poll_failed \<Rightarrow> Some (Silent, s\<lparr>listener := Left\<rparr>))"
| "svc answer i (Handles []) s = Some (Silent, s\<lparr>listener := Polls\<rparr>)"
| "svc answer i (Handles (p # rest)) s =
     (if opq_mutex s = None then Some (Silent, s\<lparr>listener := Pushes p rest, opq_mutex := Some Listener\<rparr>) else None)"
| "svc answer i (Pushes p rest) s =
     Some (Posted p, s\<lparr>opq := opq s @ [p], opq_mutex := None, listener := Signals rest\<rparr>)"
| "svc answer i (Signals rest) s =
     (if wakes i s then Some (Silent, wake i (s\<lparr>listener := Handles rest\<rparr>)) else None)"
| "svc answer i Left s = None"

text \<open>
  A step of the program. A null pointer that is followed, or the front of an empty queue, ends the process. A waiting thread may also wake
  without a signal, on systems (\<open>spurious\<close>) where POSIX's permission is used.
\<close>

inductive io_step :: "bool \<Rightarrow> 'op io_service \<Rightarrow> 'op action \<Rightarrow> 'op io_service \<Rightarrow> bool" for spurious where
  worker: "i < length (op_workers s) \<Longrightarrow> io_perfmon_entry i (op_workers s ! i) s = Some (a, t) \<Longrightarrow> io_step spurious s a t"
| listens: "svc answer i (listener s) s = Some (a, t) \<Longrightarrow> io_step spurious s a t"
| wakes_up: "spurious \<Longrightarrow> io_step spurious s Silent (wake i s)"
| registers: "io_step spurious s Silent (snd (register_descriptor fd p s))"
| resumes: "io_step spurious s Silent (snd (resume_ev fd p s))"
| stops: "io_step spurious s Silent (stop_flag s)"
| broadcasts: "io_step spurious s Silent (stop_broadcast s)"

inductive io_run :: "bool \<Rightarrow> 'op io_service \<Rightarrow> 'op action list \<Rightarrow> 'op io_service \<Rightarrow> bool" for spurious where
  start: "io_run spurious s [] s"
| more: "io_run spurious s as t \<Longrightarrow> Faulted \<notin> set (op_workers t) \<Longrightarrow> io_step spurious t a u \<Longrightarrow> io_run spurious s (as @ [a]) u"

fun posted :: "'op action list \<Rightarrow> 'op option list" where
  "posted [] = []"
| "posted (Posted p # as) = p # posted as"
| "posted (a # as) = posted as"

fun taken :: "'op action list \<Rightarrow> 'op option list" where
  "taken [] = []"
| "taken (Taken p # as) = p # taken as"
| "taken (a # as) = taken as"

fun completed :: "'op action list \<Rightarrow> 'op option list" where
  "completed [] = []"
| "completed (Completed p # as) = p # completed as"
| "completed (a # as) = completed as"

fun held :: "'op worker_place \<Rightarrow> 'op option multiset" where
  "held (Completes p) = {#p#}"
| "held w = {#}"

lemma posted_append [simp]: "posted (as @ bs) = posted as @ posted bs"
  by (induction as rule: posted.induct) auto

lemma taken_append [simp]: "taken (as @ bs) = taken as @ taken bs"
  by (induction as rule: taken.induct) auto

lemma completed_append [simp]: "completed (as @ bs) = completed as @ completed bs"
  by (induction as rule: completed.induct) auto

lemma move_worker_simps [simp]:
  "initialized (move_worker i p s) = initialized s" "broadcasting (move_worker i p s) = broadcasting s"
  "evq (move_worker i p s) = evq s" "opq (move_worker i p s) = opq s" "opq_mutex (move_worker i p s) = opq_mutex s"
  "listener (move_worker i p s) = listener s" "op_workers (move_worker i p s) = (op_workers s)[i := p]"
  by (simp_all add: move_worker_def)

section \<open>What every run keeps\<close>

definition owns :: "'op worker_place \<Rightarrow> bool" where
  "owns w = (w = Tests \<or> w = Checks \<or> w = Takes \<or> w = Waits)"

definition pushing :: "'op listener_place \<Rightarrow> bool" where "pushing l = (\<exists>p rest. l = Pushes p rest)"

definition signalling :: "'op listener_place \<Rightarrow> bool" where "signalling l = (\<exists>rest. l = Signals rest)"

definition at_work :: "'op worker_place \<Rightarrow> bool" where
  "at_work w = (w = Locks \<or> w = Tests \<or> w = Checks \<or> w = Takes \<or> (\<exists>p. w = Completes p))"

lemma place_simps [simp]:
  "owns Tests" "owns Checks" "owns Takes" "owns Waits" "\<not> owns Locks" "\<not> owns Sleeps" "\<not> owns (Completes p)" "\<not> owns Exited" "\<not> owns Faulted"
  "pushing (Pushes p rest)" "\<not> pushing Polls" "\<not> pushing Awaits" "\<not> pushing (Handles rest)" "\<not> pushing (Signals rest)" "\<not> pushing Left"
  "signalling (Signals rest)" "\<not> signalling Polls" "\<not> signalling Awaits" "\<not> signalling (Handles rest)" "\<not> signalling (Pushes p rest)"
  "\<not> signalling Left" "at_work Locks" "at_work Tests" "at_work Checks" "at_work Takes" "at_work (Completes p)"
  "\<not> at_work Sleeps" "\<not> at_work Waits" "\<not> at_work Exited" "\<not> at_work Faulted"
  by (auto simp: owns_def pushing_def signalling_def at_work_def)

text \<open>The mutex belongs to the thread that is between taking and leaving it.\<close>

definition mutex_ok :: "'op io_service \<Rightarrow> bool" where
  "mutex_ok s \<longleftrightarrow> (\<forall>i < length (op_workers s). owns (op_workers s ! i) \<longleftrightarrow> opq_mutex s = Some (Worker i))
     \<and> (pushing (listener s) \<longleftrightarrow> opq_mutex s = Some Listener)
     \<and> (\<forall>i. opq_mutex s = Some (Worker i) \<longrightarrow> i < length (op_workers s))"

text \<open>Nobody sleeps on a queue that is not empty, unless the signal is on its way.\<close>

definition wake_ok :: "'op io_service \<Rightarrow> bool" where
  "wake_ok s \<longleftrightarrow> op_workers s \<noteq> [] \<and> (Waits \<in> set (op_workers s) \<longrightarrow> opq s = [])
     \<and> (initialized s \<longrightarrow> Exited \<notin> set (op_workers s))
     \<and> (initialized s \<and> opq s \<noteq> [] \<longrightarrow> signalling (listener s) \<or> Faulted \<in> set (op_workers s)
          \<or> (\<exists>w \<in> set (op_workers s). at_work w))"

lemma mutex_free_nobody_owns:
  assumes "mutex_ok s" "opq_mutex s = None" "w \<in> set (op_workers s)"
  shows "\<not> owns w"
  using assms by (auto simp: mutex_ok_def in_set_conv_nth)

lemma mutex_started: "mutex_ok (started n)"
  by (simp add: mutex_ok_def started_def)

lemma wake_started: "n > 0 \<Longrightarrow> wake_ok (started n)"
  by (simp add: wake_ok_def started_def)

lemma mutex_worker:
  assumes ok: "mutex_ok s" and i: "i < length (op_workers s)" and st: "io_perfmon_entry i (op_workers s ! i) s = Some (a, t)"
  shows "mutex_ok t"
proof -
  have own: "owns (op_workers s ! i) \<longleftrightarrow> opq_mutex s = Some (Worker i)" using ok i by (simp add: mutex_ok_def)
  consider "op_workers s ! i = Locks" | "op_workers s ! i = Tests" | "op_workers s ! i = Checks"
    | "op_workers s ! i = Takes" | "op_workers s ! i = Waits" | p where "op_workers s ! i = Completes p"
    using st by (cases "op_workers s ! i") auto
  then show ?thesis
  proof cases
    case 1
    then show ?thesis using ok i st own by (auto simp: mutex_ok_def nth_list_update split: if_splits)
  next
    case 2
    then show ?thesis using ok i st own by (auto simp: mutex_ok_def nth_list_update)
  next
    case 3
    then show ?thesis using ok i st own by (auto simp: mutex_ok_def nth_list_update split: if_splits)
  next
    case 4
    then show ?thesis using ok i st own by (auto simp: mutex_ok_def nth_list_update split: list.splits)
  next
    case 5
    then show ?thesis using ok i st own by (auto simp: mutex_ok_def nth_list_update)
  next
    case 6
    then show ?thesis using ok i st own by (cases p) (auto simp: mutex_ok_def nth_list_update split: if_splits)
  qed
qed

lemma mutex_wake [simp]: "mutex_ok s \<Longrightarrow> mutex_ok (wake i s)"
  by (auto simp: wake_def mutex_ok_def nth_list_update)

lemma wake_keeps [simp]:
  "initialized (wake i s) = initialized s" "broadcasting (wake i s) = broadcasting s" "opq (wake i s) = opq s"
  "opq_mutex (wake i s) = opq_mutex s" "listener (wake i s) = listener s" "length (op_workers (wake i s)) = length (op_workers s)"
  "evq (wake i s) = evq s"
  by (auto simp: wake_def)

lemma mutex_listener_idle:
  "mutex_ok s \<Longrightarrow> \<not> pushing (listener s) \<Longrightarrow> \<not> pushing l \<Longrightarrow> mutex_ok (s\<lparr>listener := l\<rparr>)"
  by (simp add: mutex_ok_def)

lemma svc_cases:
  assumes "svc answer i (listener s) s = Some (a, t)"
  obtains (left) "listener s = Polls \<or> listener s = Awaits" "a = Silent" "t = s\<lparr>listener := Left\<rparr>"
  | (polls) "listener s = Polls" "initialized s" "a = Silent" "t = s\<lparr>listener := Awaits\<rparr>"
  | (polled) q where "listener s = Awaits" "a = Silent" "t = s\<lparr>listener := Handles q\<rparr>"
  | (again) "listener s = Awaits" "a = Silent" "t = s\<lparr>listener := Polls\<rparr>"
  | (finished) "listener s = Handles []" "a = Silent" "t = s\<lparr>listener := Polls\<rparr>"
  | (locked) p rest where "listener s = Handles (p # rest)" "opq_mutex s = None" "a = Silent"
      "t = s\<lparr>listener := Pushes p rest, opq_mutex := Some Listener\<rparr>"
  | (pushed) p rest where "listener s = Pushes p rest" "a = Posted p"
      "t = s\<lparr>opq := opq s @ [p], opq_mutex := None, listener := Signals rest\<rparr>"
  | (signalled) rest where "listener s = Signals rest" "wakes i s" "a = Silent" "t = wake i (s\<lparr>listener := Handles rest\<rparr>)"
proof (cases "listener s")
  case Polls
  then show ?thesis using assms left polls by (auto split: if_splits)
next
  case Awaits
  then show ?thesis using assms left polled again by (auto split: poll_answer.splits)
next
  case (Handles q)
  then show ?thesis using assms finished locked by (cases q) (auto split: if_splits)
next
  case (Pushes p rest)
  then show ?thesis using assms pushed by auto
next
  case (Signals rest)
  then show ?thesis using assms signalled by (auto split: if_splits)
next
  case Left
  then show ?thesis using assms by auto
qed

lemma mutex_svc:
  assumes ok: "mutex_ok s" and st: "svc answer i (listener s) s = Some (a, t)"
  shows "mutex_ok t"
  using st
proof (cases rule: svc_cases)
  case (locked p rest)
  then show ?thesis using ok by (auto simp: mutex_ok_def)
next
  case (pushed p rest)
  then show ?thesis using ok by (auto simp: mutex_ok_def)
next
  case (signalled rest)
  then show ?thesis using ok by (auto intro: mutex_wake simp: mutex_listener_idle)
qed (use ok in \<open>auto simp: mutex_listener_idle\<close>)

lemma mutex_broadcast: "mutex_ok s \<Longrightarrow> mutex_ok (stop_broadcast s)"
  by (auto simp: stop_broadcast_def mutex_ok_def)

lemma users_keep [simp]:
  "op_workers (snd (register_descriptor fd p s)) = op_workers s" "opq (snd (register_descriptor fd p s)) = opq s"
  "opq_mutex (snd (register_descriptor fd p s)) = opq_mutex s" "listener (snd (register_descriptor fd p s)) = listener s"
  "initialized (snd (register_descriptor fd p s)) = initialized s" "broadcasting (snd (register_descriptor fd p s)) = broadcasting s"
  "op_workers (snd (resume_ev fd p s)) = op_workers s" "opq (snd (resume_ev fd p s)) = opq s"
  "opq_mutex (snd (resume_ev fd p s)) = opq_mutex s" "listener (snd (resume_ev fd p s)) = listener s"
  "initialized (snd (resume_ev fd p s)) = initialized s" "broadcasting (snd (resume_ev fd p s)) = broadcasting s"
  "op_workers (stop_flag s) = op_workers s" "opq (stop_flag s) = opq s" "opq_mutex (stop_flag s) = opq_mutex s"
  "listener (stop_flag s) = listener s" "initialized (stop_flag s) = False"
  "initialized (stop_broadcast s) = initialized s" "opq (stop_broadcast s) = opq s"
  "opq_mutex (stop_broadcast s) = opq_mutex s" "listener (stop_broadcast s) = listener s"
  by (auto simp: register_descriptor_def resume_ev_def stop_flag_def stop_broadcast_def)

lemma mutex_step: "io_step spurious s a t \<Longrightarrow> mutex_ok s \<Longrightarrow> mutex_ok t"
  by (induction rule: io_step.induct)
    (auto intro: mutex_worker mutex_svc mutex_broadcast mutex_wake, simp_all add: mutex_ok_def)

lemma wake_move:
  assumes ok: "wake_ok s" and i: "i < length (op_workers s)"
    and new: "p = Waits \<Longrightarrow> q = []" "initialized s \<Longrightarrow> p \<noteq> Exited" "opq s = [] \<Longrightarrow> q = []"
      "initialized s \<Longrightarrow> q \<noteq> [] \<Longrightarrow> at_work p \<or> p = Faulted"
  shows "wake_ok (move_worker i p (s\<lparr>opq_mutex := m, opq := q\<rparr>))"
proof -
  have p: "p \<in> set ((op_workers s)[i := p])" using i by (rule set_update_memI)
  have sub: "w = p \<or> w \<in> set (op_workers s)" if "w \<in> set ((op_workers s)[i := p])" for w
    using that set_update_subset_insert[of "op_workers s" i p] by auto
  show ?thesis using ok new p sub unfolding wake_ok_def by auto
qed

lemma wake_worker:
  assumes ok: "wake_ok s" and i: "i < length (op_workers s)" and st: "io_perfmon_entry i (op_workers s ! i) s = Some (a, t)"
  shows "wake_ok t"
proof -
  have into: "\<exists>p m q. t = move_worker i p (s\<lparr>opq_mutex := m, opq := q\<rparr>) \<and> (p = Waits \<longrightarrow> q = [])
     \<and> (initialized s \<longrightarrow> p \<noteq> Exited) \<and> (opq s = [] \<longrightarrow> q = []) \<and> (initialized s \<longrightarrow> q \<noteq> [] \<longrightarrow> at_work p \<or> p = Faulted)"
  proof (cases "op_workers s ! i")
    case Locks
    then show ?thesis using st by (intro exI[of _ Tests] exI[of _ "Some (Worker i)"] exI[of _ "opq s"]) (auto split: if_splits)
  next
    case Tests
    then show ?thesis using st
      by (intro exI[of _ "if opq s = [] \<and> initialized s then Waits else Checks"] exI[of _ "opq_mutex s"] exI[of _ "opq s"]) auto
  next
    case Checks
    then show ?thesis using st
      by (intro exI[of _ "if initialized s then Takes else Exited"]
        exI[of _ "if initialized s then opq_mutex s else None"] exI[of _ "opq s"]) auto
  next
    case Takes
    show ?thesis
    proof (cases "opq s")
      case Nil
      then show ?thesis using st Takes by (intro exI[of _ Faulted] exI[of _ None] exI[of _ "opq s"]) auto
    next
      case (Cons p rest)
      then show ?thesis using st Takes by (intro exI[of _ "Completes p"] exI[of _ None] exI[of _ rest]) auto
    qed
  next
    case Waits
    have "opq s = []" using ok i Waits by (metis nth_mem wake_ok_def)
    then show ?thesis using st Waits by (intro exI[of _ Sleeps] exI[of _ None] exI[of _ "opq s"]) auto
  next
    case (Completes p)
    show ?thesis
    proof (cases p)
      case None
      then show ?thesis using st Completes by (intro exI[of _ Faulted] exI[of _ "opq_mutex s"] exI[of _ "opq s"]) auto
    next
      case (Some x)
      then show ?thesis using st Completes by (intro exI[of _ Locks] exI[of _ "opq_mutex s"] exI[of _ "opq s"]) auto
    qed
  qed (use st in auto)
  then show ?thesis using wake_move[OF ok i] by auto
qed

lemma workers_of_wake: "w \<in> set (op_workers (wake i s)) \<Longrightarrow> w = Locks \<or> w \<in> set (op_workers s)"
  using set_update_subset_insert[of "op_workers s" i Locks] by (auto simp: wake_def split: if_splits)

lemma awake_stay: "w \<in> set (op_workers s) \<Longrightarrow> w \<noteq> Sleeps \<Longrightarrow> w \<in> set (op_workers (wake i s))"
  by (auto simp: wake_def in_set_conv_nth nth_list_update)

lemma wake_nonempty [simp]: "op_workers (wake i s) = [] \<longleftrightarrow> op_workers s = []"
  using wake_keeps(6)[of i s] by (metis length_0_conv)

lemma wake_wake [simp]:
  assumes "wake_ok s"
  shows "wake_ok (wake i s)"
proof -
  have "w \<in> set (op_workers (wake i s))" if "w \<in> set (op_workers s)" "at_work w \<or> w = Faulted" for w
    using awake_stay[OF that(1)] that(2) by (auto simp: at_work_def)
  moreover have "Waits \<in> set (op_workers s)" if "Waits \<in> set (op_workers (wake i s))"
    using workers_of_wake[OF that] by simp
  moreover have "Exited \<in> set (op_workers s)" if "Exited \<in> set (op_workers (wake i s))"
    using workers_of_wake[OF that] by simp
  ultimately show ?thesis using assms unfolding wake_ok_def wake_keeps wake_nonempty by blast
qed

lemma signal_wakes:
  assumes "wakes i s" "op_workers s \<noteq> []" "Waits \<notin> set (op_workers s)" "Exited \<notin> set (op_workers s)"
  shows "Faulted \<in> set (op_workers (wake i s)) \<or> (\<exists>w \<in> set (op_workers (wake i s)). at_work w)"
proof (cases "Sleeps \<in> set (op_workers s)")
  case True
  then have "op_workers (wake i s) ! i = Locks" "i < length (op_workers (wake i s))"
    using assms(1) by (auto simp: wakes_def wake_def)
  then show ?thesis by (metis at_work_def nth_mem)
next
  case False
  obtain w where w: "w \<in> set (op_workers s)" using assms(2) by (cases "op_workers s") auto
  have places: "w \<noteq> Sleeps" "w \<noteq> Waits" "w \<noteq> Exited" using w False assms(3,4) by blast+
  then have "w = Faulted \<or> at_work w" by (cases w) simp_all
  then show ?thesis using awake_stay[OF w places(1)] by blast
qed

lemma wake_svc:
  assumes ok: "wake_ok s" and mx: "mutex_ok s" and st: "svc answer i (listener s) s = Some (a, t)"
  shows "wake_ok t"
  using st
proof (cases rule: svc_cases)
  case (pushed p rest)
  have "\<not> owns w" if "w \<in> set (op_workers s)" for w
    using mx pushed(1) that by (auto simp: mutex_ok_def in_set_conv_nth)
  then have "Waits \<notin> set (op_workers s)" by force
  then show ?thesis using ok pushed by (auto simp: wake_ok_def)
next
  case (signalled rest)
  have "wake_ok (s\<lparr>listener := Handles rest\<rparr>) \<or> (initialized s \<and> opq s \<noteq> [])"
    using ok by (auto simp: wake_ok_def)
  then show ?thesis
  proof
    assume "wake_ok (s\<lparr>listener := Handles rest\<rparr>)"
    then show ?thesis using signalled by simp
  next
    assume busy: "initialized s \<and> opq s \<noteq> []"
    let ?s = "s\<lparr>listener := Handles rest\<rparr>"
    have no: "op_workers ?s \<noteq> []" "Waits \<notin> set (op_workers ?s)" "Exited \<notin> set (op_workers ?s)" "wakes i ?s"
      using ok busy signalled(2) by (auto simp: wake_ok_def wakes_def)
    have "op_workers (wake i ?s) \<noteq> []" using no(1) by simp
    moreover have "Waits \<notin> set (op_workers (wake i ?s))" "Exited \<notin> set (op_workers (wake i ?s))"
      using workers_of_wake[of _ i ?s] no by auto
    ultimately show ?thesis using signal_wakes[OF no(4) no(1-3)] unfolding wake_ok_def signalled(4) by auto
  qed
qed (use ok in \<open>auto simp: wake_ok_def\<close>)

text \<open>The queue is not empty for a worker that is about to take from it.\<close>

definition finds_ok :: "'op io_service \<Rightarrow> bool" where
  "finds_ok s \<longleftrightarrow> (\<forall>i < length (op_workers s).
     (op_workers s ! i = Takes \<or> op_workers s ! i = Checks \<and> initialized s) \<longrightarrow> opq s \<noteq> [])"

lemma finds_worker:
  assumes mx: "mutex_ok s" and ok: "finds_ok s" and i: "i < length (op_workers s)"
    and st: "io_perfmon_entry i (op_workers s ! i) s = Some (a, t)"
  shows "finds_ok t"
proof -
  have other: "op_workers s ! j \<noteq> Takes \<and> op_workers s ! j \<noteq> Checks"
    if "op_workers s ! i = Takes" "j < length (op_workers s)" "j \<noteq> i" for j
    using mx i that by (metis (no_types) mutex_ok_def option.inject place_simps(2,3) thread_id.inject)
  show ?thesis
  proof (cases "op_workers s ! i")
    case Takes
    then show ?thesis using st i other[OF Takes] by (auto simp: finds_ok_def nth_list_update split: list.splits if_splits)
  next
    case (Completes p)
    then show ?thesis using st ok i by (cases p) (auto simp: finds_ok_def nth_list_update split: if_splits)
  qed (use st ok i in \<open>auto simp: finds_ok_def nth_list_update split: if_splits\<close>)
qed

lemma finds_svc: "svc answer i (listener s) s = Some (a, t) \<Longrightarrow> finds_ok s \<Longrightarrow> finds_ok t"
  by (elim svc_cases) (auto simp: finds_ok_def wake_def nth_list_update)

lemma finds_step: "io_step spurious s a t \<Longrightarrow> mutex_ok s \<Longrightarrow> finds_ok s \<Longrightarrow> finds_ok t"
proof (induction rule: io_step.induct)
  case (worker i s a t)
  then show ?case by (blast intro: finds_worker)
next
  case (listens answer i s a t)
  then show ?case by (blast intro: finds_svc)
qed (auto simp: finds_ok_def wake_def nth_list_update stop_broadcast_def split: if_splits)

lemma wake_broadcast: "wake_ok s \<Longrightarrow> wake_ok (stop_broadcast s)"
  unfolding wake_ok_def stop_broadcast_def by (auto simp: at_work_def)

lemma wake_step: "io_step spurious s a t \<Longrightarrow> mutex_ok s \<Longrightarrow> wake_ok s \<Longrightarrow> wake_ok t"
  by (induction rule: io_step.induct)
    (auto intro: wake_worker wake_svc wake_broadcast wake_wake, auto simp: wake_ok_def)

section \<open>Operations in the order of their events\<close>

definition held_ops :: "'op io_service \<Rightarrow> 'op option multiset" where
  "held_ops s = sum_list (map held (op_workers s))"

lemma held_update:
  "i < length ws \<Longrightarrow> sum_list (map held (ws[i := p])) + held (ws ! i) = sum_list (map held ws) + held p"
proof (induction ws arbitrary: i)
  case (Cons w ws)
  then show ?case by (cases i) (simp_all add: ac_simps)
qed simp

lemma held_move:
  "i < length (op_workers s) \<Longrightarrow> held (op_workers s ! i) = {#} \<Longrightarrow> held_ops (move_worker i p s) = held_ops s + held p"
  using held_update[of i "op_workers s" p] by (simp add: held_ops_def)

lemma held_drop:
  "i < length (op_workers s) \<Longrightarrow> held p = {#} \<Longrightarrow> held_ops s = held_ops (move_worker i p s) + held (op_workers s ! i)"
  using held_update[of i "op_workers s" p] by (simp add: held_ops_def)

lemma held_same [simp]:
  "held_ops (s\<lparr>opq_mutex := m\<rparr>) = held_ops s" "held_ops (s\<lparr>opq := q\<rparr>) = held_ops s"
  "held_ops (s\<lparr>listener := l\<rparr>) = held_ops s"
  by (simp_all add: held_ops_def)

lemma held_wake [simp]: "held_ops (wake i s) = held_ops s"
  by (simp add: wake_def held_move)

lemma held_users [simp]:
  "held_ops (snd (register_descriptor fd p s)) = held_ops s" "held_ops (snd (resume_ev fd p s)) = held_ops s"
  "held_ops (stop_flag s) = held_ops s"
  by (simp_all add: held_ops_def)

lemma held_broadcast [simp]: "held_ops (stop_broadcast s) = held_ops s"
proof -
  have "map held (map (\<lambda>p. if p = Sleeps then Locks else p) ws) = map held ws" for ws :: "'a worker_place list"
    by simp
  then show ?thesis by (simp add: held_ops_def stop_broadcast_def del: map_map)
qed

text \<open>What one step does to the queue and to the operations in hand.\<close>

definition accounts :: "'op io_service \<Rightarrow> 'op action \<Rightarrow> 'op io_service \<Rightarrow> bool" where
  "accounts s a t \<longleftrightarrow> taken [a] @ opq t = opq s @ posted [a]
     \<and> held_ops s + mset (taken [a]) = mset (completed [a]) + held_ops t"

lemma accounts_silent: "opq t = opq s \<Longrightarrow> held_ops t = held_ops s \<Longrightarrow> accounts s Silent t"
  by (simp add: accounts_def)

lemma accounts_worker:
  assumes i: "i < length (op_workers s)" and st: "io_perfmon_entry i (op_workers s ! i) s = Some (a, t)"
  shows "accounts s a t"
proof (cases "op_workers s ! i")
  case (Completes p)
  then show ?thesis using st held_drop[OF i, of Locks] held_drop[OF i, of Faulted]
    by (cases p) (auto simp: accounts_def)
qed (use i st in \<open>auto simp: accounts_def held_move split: if_splits list.splits\<close>)

lemma accounts_svc: "svc answer i (listener s) s = Some (a, t) \<Longrightarrow> accounts s a t"
  by (elim svc_cases) (auto simp: accounts_def)

lemma accounts_step: "io_step spurious s a t \<Longrightarrow> accounts s a t"
  by (induction rule: io_step.induct) (auto intro: accounts_worker accounts_svc accounts_silent)

definition service_ok :: "'op io_service \<Rightarrow> bool" where
  "service_ok s \<longleftrightarrow> mutex_ok s \<and> wake_ok s \<and> finds_ok s"

lemma run_ok: "io_run spurious s as t \<Longrightarrow> service_ok s \<Longrightarrow> service_ok t"
  by (induction rule: io_run.induct) (auto simp: service_ok_def intro: mutex_step wake_step finds_step)

lemma run_accounts:
  "io_run spurious s as t \<Longrightarrow> taken as @ opq t = opq s @ posted as
     \<and> held_ops s + mset (taken as) = mset (completed as) + held_ops t"
proof (induction rule: io_run.induct)
  case (more s as t a u)
  have step: "taken [a] @ opq u = opq t @ posted [a]" "held_ops t + mset (taken [a]) = mset (completed [a]) + held_ops u"
    using accounts_step[OF more.hyps(3)] by (auto simp: accounts_def)
  have "taken (as @ [a]) @ opq u = taken as @ opq t @ posted [a]" using step(1) by simp
  then have q: "taken (as @ [a]) @ opq u = opq s @ posted (as @ [a])" using more.IH by (metis append.assoc posted_append)
  have "held_ops s + mset (taken (as @ [a])) = mset (completed as) + (held_ops t + mset (taken [a]))"
    using more.IH by (simp add: ac_simps)
  then show ?case using q step(2) by (simp add: ac_simps)
qed simp

lemma started_ok: "n > 0 \<Longrightarrow> service_ok (started n)"
  by (simp add: service_ok_def mutex_started wake_started) (simp add: finds_ok_def started_def)

lemma started_holds: "opq (started n) = []" "held_ops (started n) = {#}"
  by (induction n) (auto simp: started_def held_ops_def)

text \<open>
  C29. From its start with at least one task, through any interleaving of its threads, its users and \<^verbatim>\<open>stop\<close>: the
  operations are taken from the queue in the order their events were put there, each once, and those taken
  are the completed ones and those in a worker's hand; at most one thread is between taking and leaving the
  mutex; and while the service is not stopped, no operation waits in the queue with every worker asleep,
  unless the listener is about to signal.
\<close>
theorem operations_taken_in_order:
  assumes "io_run spurious (started n) as s" "n > 0"
  shows "taken as @ opq s = posted as
     \<and> mset (taken as) = mset (completed as) + held_ops s
     \<and> (\<forall>i j. i < length (op_workers s) \<and> j < length (op_workers s) \<and> owns (op_workers s ! i) \<and> owns (op_workers s ! j)
          \<longrightarrow> i = j \<and> \<not> pushing (listener s))
     \<and> (initialized s \<and> opq s \<noteq> [] \<and> Faulted \<notin> set (op_workers s)
          \<longrightarrow> signalling (listener s) \<or> (\<exists>w \<in> set (op_workers s). at_work w))"
proof -
  have ok: "mutex_ok s" "wake_ok s" using run_ok[OF assms(1) started_ok[OF assms(2)]] by (auto simp: service_ok_def)
  have "i = j \<and> \<not> pushing (listener s)"
    if "i < length (op_workers s)" "j < length (op_workers s)" "owns (op_workers s ! i)" "owns (op_workers s ! j)" for i j
    using ok(1) that by (auto simp: mutex_ok_def)
  moreover have "initialized s \<and> opq s \<noteq> [] \<and> Faulted \<notin> set (op_workers s)
     \<longrightarrow> signalling (listener s) \<or> (\<exists>w \<in> set (op_workers s). at_work w)"
    using ok(2) by (auto simp: wake_ok_def)
  ultimately show ?thesis using run_accounts[OF assms(1)] by (auto simp: started_holds)
qed

section \<open>Stopping\<close>

text \<open>The workers that have passed their test of the flag and not yet taken their operation.\<close>

definition takers :: "'op io_service \<Rightarrow> nat" where
  "takers s = count_list (op_workers s) Takes"

lemma count_update:
  "i < length ws \<Longrightarrow> count_list (ws[i := p]) w + (if ws ! i = w then 1 else 0) = count_list ws w + (if p = w then 1 else 0)"
proof (induction ws arbitrary: i)
  case (Cons v ws)
  show ?case
  proof (cases i)
    case (Suc k)
    then show ?thesis using Cons.IH[of k] Cons.prems by (simp split: if_splits)
  qed simp
qed simp

lemma count_at_most_one:
  "(\<And>i j. i < length ws \<Longrightarrow> j < length ws \<Longrightarrow> ws ! i = w \<Longrightarrow> ws ! j = w \<Longrightarrow> i = j) \<Longrightarrow> count_list ws w \<le> 1"
proof (induction ws)
  case (Cons v ws)
  have tail: "count_list ws w \<le> 1" by (rule Cons.IH) (use Cons.prems[of "Suc _" "Suc _"] in auto)
  show ?case
  proof (cases "v = w")
    case True
    have "w \<notin> set ws"
    proof
      assume "w \<in> set ws"
      then obtain j where "j < length ws" "ws ! j = w" by (auto simp: in_set_conv_nth)
      then show False using Cons.prems[of 0 "Suc j"] True by simp
    qed
    then show ?thesis by (simp add: count_notin)
  qed (use tail in simp)
qed simp

lemma one_taker:
  assumes ok: "mutex_ok s"
  shows "takers s \<le> 1"
  unfolding takers_def
proof (rule count_at_most_one)
  fix i j assume "i < length (op_workers s)" "j < length (op_workers s)" "op_workers s ! i = Takes" "op_workers s ! j = Takes"
  then have "opq_mutex s = Some (Worker i)" "opq_mutex s = Some (Worker j)"
    using ok place_simps(3) unfolding mutex_ok_def by metis+
  then show "i = j" by simp
qed

lemma takers_move:
  "i < length (op_workers s) \<Longrightarrow> takers (move_worker i p s) + (if op_workers s ! i = Takes then 1 else 0)
     = takers s + (if p = Takes then 1 else 0)"
  by (simp add: takers_def count_update)

lemma takers_same [simp]:
  "takers (s\<lparr>opq_mutex := m\<rparr>) = takers s" "takers (s\<lparr>opq := q\<rparr>) = takers s" "takers (s\<lparr>listener := l\<rparr>) = takers s"
  "takers (snd (register_descriptor fd p s)) = takers s" "takers (snd (resume_ev fd p s)) = takers s"
  "takers (stop_flag s) = takers s" "takers (stop_broadcast s) = takers s"
proof -
  have "count_list (map (\<lambda>p. if p = Sleeps then Locks else p) ws) Takes = count_list ws Takes" for ws :: "'a worker_place list"
    by (induction ws) auto
  then show "takers (stop_broadcast s) = takers s" by (simp add: takers_def stop_broadcast_def)
qed (simp_all add: takers_def)

lemma takers_wake [simp]: "takers (wake i s) = takers s"
  using takers_move[of i s Locks] by (auto simp: wake_def)

lemma takers_move_other [simp]:
  "i < length (op_workers s) \<Longrightarrow> op_workers s ! i \<noteq> Takes \<Longrightarrow> p \<noteq> Takes \<Longrightarrow> takers (move_worker i p s) = takers s"
  using takers_move[of i s p] by simp

text \<open>After \<^verbatim>\<open>stop\<close> no worker becomes one of them.\<close>

lemma stopped_step:
  "io_step spurious s a t \<Longrightarrow> \<not> initialized s \<Longrightarrow> \<not> initialized t \<and> length (taken [a]) + takers t \<le> takers s"
proof (induction rule: io_step.induct)
  case (worker i s a t)
  show ?case
  proof (cases "op_workers s ! i")
    case (Completes p)
    then show ?thesis using worker.hyps worker.prems by (cases p) auto
  next
    case Takes
    have leaves: "takers (move_worker i p u) + 1 = takers s" if "p \<noteq> Takes" "op_workers u = op_workers s" for p u
      using takers_move[of i u p] Takes worker.hyps(1) that by (simp add: takers_def)
    from leaves[of "Completes (hd (opq s))" "s\<lparr>opq := tl (opq s), opq_mutex := None\<rparr>"]
      leaves[of Faulted "s\<lparr>opq_mutex := None\<rparr>"] show ?thesis
      using Takes worker.hyps worker.prems by (cases "opq s") auto
  qed (use worker.hyps worker.prems in \<open>auto split: if_splits\<close>)
next
  case (listens answer i s a t)
  from listens.hyps show ?case by (cases rule: svc_cases) (use listens.prems in auto)
qed auto

lemma stopped_run:
  "io_run spurious s as t \<Longrightarrow> \<not> initialized s \<Longrightarrow> \<not> initialized t \<and> length (taken as) + takers t \<le> takers s"
proof (induction rule: io_run.induct)
  case (more s as t a u)
  then show ?case using stopped_step[OF more.hyps(3)] by simp
qed simp

text \<open>A worker that sleeps when the broadcast is over and the listener has nothing to signal.\<close>

definition hung :: "'op io_service \<Rightarrow> bool" where
  "hung s \<longleftrightarrow> \<not> initialized s \<and> \<not> broadcasting s \<and> Sleeps \<in> set (op_workers s)
     \<and> (listener s = Polls \<or> listener s = Left \<or> listener s = Handles [])"

lemma sleeper_stays:
  "Sleeps \<in> set ws \<Longrightarrow> i < length ws \<Longrightarrow> ws ! i \<noteq> Sleeps \<Longrightarrow> Sleeps \<in> set (ws[i := p])"
  by (metis in_set_conv_nth length_list_update nth_list_update_neq)

lemma hung_step: "io_step False s a t \<Longrightarrow> hung s \<Longrightarrow> hung t"
proof (induction rule: io_step.induct)
  case (worker i s a t)
  have "op_workers s ! i \<noteq> Sleeps" using worker.hyps(2) by auto
  then have sl: "Sleeps \<in> set ((op_workers s)[i := p])" for p
    using worker sleeper_stays by (auto simp: hung_def)
  show ?case
  proof (cases "op_workers s ! i")
    case (Completes p)
    then show ?thesis using worker sl by (cases p) (auto simp: hung_def)
  qed (use worker sl in \<open>auto simp: hung_def split: if_splits list.splits\<close>)
next
  case (listens answer i s a t)
  from listens.hyps show ?case by (cases rule: svc_cases) (use listens.prems in \<open>auto simp: hung_def\<close>)
qed (auto simp: hung_def stop_flag_def stop_broadcast_def)

lemma hung_run: "io_run False s as t \<Longrightarrow> hung s \<Longrightarrow> hung t"
  by (induction rule: io_run.induct) (auto dest: hung_step)

lemma hung_never_joins: "hung s \<Longrightarrow> \<not> wait_all_returns s"
  by (auto simp: hung_def wait_all_returns_def list_all_iff)

text \<open>The run: a worker finds the queue empty and the flag up, \<^verbatim>\<open>stop\<close> does all it does, and the worker waits.\<close>

definition hang_state :: "nat \<Rightarrow> 'op worker_place \<Rightarrow> bool \<Rightarrow> thread_id option \<Rightarrow> 'op io_service" where
  "hang_state n w up m = (started n)\<lparr>initialized := up, opq_mutex := m, op_workers := w # replicate (n - 1) Locks\<rparr>"

lemma hang_run:
  assumes "n > 0"
  shows "io_run False (started n :: 'op io_service) [Silent, Silent, Silent, Silent, Silent] (hang_state n Sleeps False None)"
proof -
  let ?h = "hang_state n :: 'op worker_place \<Rightarrow> bool \<Rightarrow> thread_id option \<Rightarrow> 'op io_service"
  have start: "(started n :: 'op io_service) = ?h Locks True None"
    using assms by (cases n) (simp_all add: hang_state_def started_def)
  have 1: "io_step False (?h Locks True None) Silent (?h Tests True (Some (Worker 0)))"
    by (rule io_step.worker[of 0]) (simp_all add: hang_state_def started_def move_worker_def)
  have 2: "io_step False (?h Tests True (Some (Worker 0))) Silent (?h Waits True (Some (Worker 0)))"
    by (rule io_step.worker[of 0]) (simp_all add: hang_state_def started_def move_worker_def)
  have 3: "io_step False (?h Waits True (Some (Worker 0))) Silent (stop_flag (?h Waits True (Some (Worker 0))))"
    by (rule io_step.stops)
  have 4: "io_step False (stop_flag (?h Waits True (Some (Worker 0)))) Silent (?h Waits False (Some (Worker 0)))"
    using io_step.broadcasts[of False "stop_flag (?h Waits True (Some (Worker 0)))"]
    by (simp add: hang_state_def started_def stop_flag_def stop_broadcast_def map_replicate_const)
  have 5: "io_step False (?h Waits False (Some (Worker 0))) Silent (?h Sleeps False None)"
    by (rule io_step.worker[of 0]) (simp_all add: hang_state_def started_def move_worker_def)
  have fine: "Faulted \<notin> set (op_workers (?h w up m)) \<longleftrightarrow> w \<noteq> Faulted" for w :: "'op worker_place" and up m
    by (auto simp: hang_state_def)
  show ?thesis unfolding start
    using io_run.more[OF io_run.more[OF io_run.more[OF io_run.more[OF io_run.more[OF io_run.start _ 1] _ 2] _ 3] _ 4] _ 5]
    by (simp add: fine)
qed

text \<open>
  C34. Once \<^verbatim>\<open>stop\<close> has taken the flag down at most one operation is still taken, by a worker that has tested
  the flag before and holds the mutex; all others stay in the queue and are never completed. And \<^verbatim>\<open>stop\<close> need not
  return: it changes the flag without the mutex, and a worker that has tested it but does not yet wait misses the
  broadcast. Without spurious wake-ups it then sleeps for ever, and \<^verbatim>\<open>wait_all\<close> never returns.
\<close>
theorem stop_loses_operations_and_hangs:
  assumes "n > 0"
  shows "(\<forall>spurious as s as' t. io_run spurious (started n :: 'op io_service) as s \<and> \<not> initialized s \<and> io_run spurious s as' t
            \<longrightarrow> length (taken as') \<le> 1 \<and> (Takes \<notin> set (op_workers s) \<longrightarrow> taken as' = [])
                \<and> taken as' @ opq t = opq s @ posted as')
     \<and> (\<exists>as s. io_run False (started n :: 'op io_service) as s \<and> \<not> initialized s \<and> \<not> broadcasting s \<and> Faulted \<notin> set (op_workers s)
            \<and> (\<forall>as' t. io_run False s as' t \<longrightarrow> \<not> wait_all_returns t))"
proof -
  have "length (taken as') \<le> 1 \<and> (Takes \<notin> set (op_workers s) \<longrightarrow> taken as' = []) \<and> taken as' @ opq t = opq s @ posted as'"
    if "io_run spurious (started n) as s" "\<not> initialized s" "io_run spurious s as' t" for spurious as as' and s t :: "'op io_service"
  proof -
    have "length (taken as') \<le> takers s" using stopped_run[OF that(3,2)] by simp
    moreover have "takers s \<le> 1" using run_ok[OF that(1) started_ok[OF assms]] using one_taker by (auto simp: service_ok_def)
    moreover have "takers s = 0" if "Takes \<notin> set (op_workers s)" using that by (simp add: takers_def count_notin)
    ultimately show ?thesis using run_accounts[OF that(3)] by auto
  qed
  moreover have "hung (hang_state n Sleeps False None :: 'op io_service)" "Faulted \<notin> set (op_workers (hang_state n Sleeps False None :: 'op io_service))"
    by (simp_all add: hung_def hang_state_def started_def)
  moreover have "\<not> wait_all_returns t" if "hung s" "io_run False s as' t" for as' and s t :: "'op io_service"
    using hung_never_joins[OF hung_run[OF that(2,1)]] .
  moreover have "io_run False (started n :: 'op io_service) [Silent, Silent, Silent, Silent, Silent] (hang_state n Sleeps False None)"
    using assms by (rule hang_run)
  ultimately show ?thesis unfolding hung_def by blast
qed

lemma operations_taken_in_order_witness:
  "taken [Silent, Silent, Silent, Silent, Silent] @ opq (hang_state 2 Sleeps False None :: nat io_service)
     = posted [Silent, Silent, Silent, Silent, Silent]"
  using operations_taken_in_order[OF hang_run[of 2, where 'op = nat]] by simp

lemma stop_loses_operations_and_hangs_witness:
  "\<exists>as s. io_run False (started 3 :: nat io_service) as s \<and> \<not> initialized s
     \<and> (\<forall>as' t. io_run False s as' t \<longrightarrow> \<not> wait_all_returns t)"
  using stop_loses_operations_and_hangs[of 3, where 'op = nat] by auto

section \<open>The null operation\<close>

text \<open>An event of a descriptor that was only registered completes the null pointer.\<close>

definition registered :: "nat \<Rightarrow> 'op io_service" where
  "registered fd = (started 1)\<lparr>evq := (\<lambda>d. None)(fd := Some None)\<rparr>"

lemma registered_event_faults:
  fixes p :: 'op
  shows "register_descriptor fd p (started 1) = (True, registered fd)"
    and "\<exists>as s. io_run False (registered fd :: 'op io_service) as s \<and> completed as = [None] \<and> Faulted \<in> set (op_workers s)"
proof -
  show "register_descriptor fd p (started 1) = (True, registered fd)"
    by (simp add: register_descriptor_def registered_def started_def)
  let ?s = "\<lambda>q m l w. (registered fd)\<lparr>opq := q, opq_mutex := m, listener := l, op_workers := [w]\<rparr> :: 'op io_service"
  have 0: "(registered fd :: 'op io_service) = ?s [] None Polls Locks" by (simp add: registered_def started_def)
  have tests: "io_step False (?s [] None Polls Locks) Silent (?s [] None Awaits Locks)"
    by (rule io_step.listens) (simp add: registered_def started_def)
  have 1: "io_step False (?s [] None Awaits Locks) Silent (?s [] None (Handles [None]) Locks)"
    by (rule io_step.listens[of "Ready [fd]" 0]) (simp add: registered_def started_def ready_data_def List.map_filter_def)
  have 2: "io_step False (?s [] None (Handles [None]) Locks) Silent (?s [] (Some Listener) (Pushes None []) Locks)"
    by (rule io_step.listens) simp
  have 3: "io_step False (?s [] (Some Listener) (Pushes None []) Locks) (Posted None) (?s [None] None (Signals []) Locks)"
    by (rule io_step.listens) simp
  have 4: "io_step False (?s [None] None (Signals []) Locks) Silent (?s [None] (Some (Worker 0)) (Signals []) Tests)"
    by (rule io_step.worker[of 0]) (simp_all add: move_worker_def)
  have 5: "io_step False (?s [None] (Some (Worker 0)) (Signals []) Tests) Silent (?s [None] (Some (Worker 0)) (Signals []) Checks)"
    by (rule io_step.worker[of 0]) (simp_all add: move_worker_def)
  have 6: "io_step False (?s [None] (Some (Worker 0)) (Signals []) Checks) Silent (?s [None] (Some (Worker 0)) (Signals []) Takes)"
    by (rule io_step.worker[of 0]) (simp_all add: move_worker_def registered_def started_def)
  have 7: "io_step False (?s [None] (Some (Worker 0)) (Signals []) Takes) (Taken None) (?s [] None (Signals []) (Completes None))"
    by (rule io_step.worker[of 0]) (simp_all add: move_worker_def)
  have 8: "io_step False (?s [] None (Signals []) (Completes None)) (Completed None) (?s [] None (Signals []) Faulted)"
    by (rule io_step.worker[of 0]) (simp_all add: move_worker_def)
  have "io_run False (?s [] None Polls Locks)
     [Silent, Silent, Silent, Posted None, Silent, Silent, Silent, Taken None, Completed None] (?s [] None (Signals []) Faulted)"
    using io_run.more[OF io_run.more[OF io_run.more[OF io_run.more[OF io_run.more[OF io_run.more[OF io_run.more[OF io_run.more[OF
      io_run.more[OF io_run.start _ tests] _ 1] _ 2] _ 3] _ 4] _ 5] _ 6] _ 7] _ 8]
    by simp
  then show "\<exists>as s. io_run False (registered fd :: 'op io_service) as s \<and> completed as = [None] \<and> Faulted \<in> set (op_workers s)"
    unfolding 0[symmetric] by (intro exI conjI) auto
qed

section \<open>Receiving and sending operations\<close>

text \<open>
  The \<^verbatim>\<open>do_complete\<close> of a receiving and of a sending operation on a script of the system's answers: \<open>nreq\<close>
  counts down what is asked for while \<open>got\<close> counts up what was transferred, and the loop compares the two. They
  give the error and the count to the handler; the sizes fit an \<^verbatim>\<open>int\<close>.
\<close>

fun recv_complete :: "errno \<Rightarrow> nat \<Rightarrow> string \<Rightarrow> string \<Rightarrow> recv_result list \<Rightarrow> (errno \<times> nat \<times> string \<times> string) option" where
  "recv_complete err nreq data stream [] = (if length data < nreq then None else Some (err, length data, data, stream))"
| "recv_complete err nreq data stream (res # rs) =
     (if length data < nreq then
        let n = recv_ret nreq stream res;
            err' = errno_after_recv err res
        in if n > 0 then recv_complete err' (nreq - nat n) (data @ take (nat n) stream) (drop (nat n) stream) rs
           else Some (err', length data, data, stream)
      else Some (err, length data, data, stream))"

fun send_complete :: "errno \<Rightarrow> nat \<Rightarrow> string \<Rightarrow> string \<Rightarrow> send_result list \<Rightarrow> (errno \<times> nat \<times> string) option" where
  "send_complete err nreq wire buf [] = (if length wire < nreq then None else Some (err, length wire, wire))"
| "send_complete err nreq wire buf (res # rs) =
     (if length wire < nreq then
        let n = send_ret nreq res;
            err' = errno_after_send err res
        in if n > 0 then send_complete err' (nreq - nat n) (wire @ take (nat n) buf) (drop (nat n) buf) rs
           else Some (err', length wire, wire)
      else Some (err, length wire, wire))"

lemma recv_complete_prefix:
  "recv_complete err nreq data stream rs = Some (e, n, data', rest) \<Longrightarrow>
    n = length data' \<and> data' @ rest = data @ stream \<and> length data \<le> n \<and> n \<le> length data + nreq"
proof (induction rs arbitrary: err nreq data stream)
  case (Cons res rs)
  let ?n = "recv_ret nreq stream res"
  have le: "nat ?n \<le> nreq" "nat ?n \<le> length stream" by (cases res; simp)+
  show ?case
  proof (cases "length data < nreq \<and> ?n > 0")
    case True
    then have "recv_complete (errno_after_recv err res) (nreq - nat ?n) (data @ take (nat ?n) stream) (drop (nat ?n) stream) rs
        = Some (e, n, data', rest)"
      using Cons.prems by (simp add: Let_def)
    from Cons.IH[OF this] show ?thesis using le by simp
  next
    case False
    then show ?thesis using Cons.prems by (auto simp: Let_def split: if_splits)
  qed
qed (auto split: if_splits)

lemma recv_complete_bytewise:
  "length data < nreq \<Longrightarrow> length stream \<ge> nreq \<Longrightarrow> 2 * m = nreq - length data \<or> 2 * m = Suc (nreq - length data)
    \<Longrightarrow> recv_complete err nreq data stream (replicate m (Arrived 1)) = Some (err, length data + m, data @ take m stream, drop m stream)"
proof (induction m arbitrary: nreq data stream)
  case (Suc m)
  obtain c cs where stream: "stream = c # cs" using Suc.prems by (cases stream) auto
  have ret: "recv_ret nreq stream (Arrived 1) = 1" using Suc.prems stream by simp
  show ?case
  proof (cases "length (data @ [c]) < nreq - 1")
    case True
    have "recv_complete err (nreq - 1) (data @ [c]) cs (replicate m (Arrived 1))
        = Some (err, length (data @ [c]) + m, (data @ [c]) @ take m cs, drop m cs)"
      by (rule Suc.IH) (use Suc.prems stream True in auto)
    then show ?thesis using Suc.prems stream ret by (simp add: Let_def)
  next
    case False
    then have "m = 0" using Suc.prems by auto
    then show ?thesis using Suc.prems stream ret False by (simp add: Let_def)
  qed
qed auto

text \<open>When bytes arrive one at a time, a receiving operation of \<open>2 * k\<close> bytes completes with \<open>k\<close>, though more arrive.\<close>

lemma recv_operation_completes_half:
  assumes "k > 0" "length stream \<ge> 2 * k"
  shows "recv_complete err (2 * k) [] stream (replicate k (Arrived 1)) = Some (err, k, take k stream, drop k stream)"
  using recv_complete_bytewise[of "[]" "2 * k" stream k] assms by simp

end
