(* ===== verification/ServiceThread.thy ===== *)
theory ServiceThread
  imports ClientService
begin

text \<open>
  The life of the client's service thread, \<^verbatim>\<open>xxsocket/src/async_tcp_client.cpp\<close>: its start, the outer loop of
  \<^verbatim>\<open>service\<close> with the wait for a notification, \<^verbatim>\<open>notify_connect\<close> and the destructor. \<open>AsyncClient\<close> has what the
  thread does between two waits; here a place says where in \<^verbatim>\<open>service\<close> it is. The condition variable keeps no
  record of a notification, and its mutex is held for nothing else. \<^verbatim>\<open>suspended_\<close> is never set.
\<close>

section \<open>The thread and the destructor\<close>

text \<open>A thread that waits keeps the seconds its wait began with.\<close>

datatype service_place = Not_started | At_exit_test | Before_wait | In_wait int | Before_connect | In_loop | Ended

text \<open>How far the destructor is: the flag is set, the connection closed, all are notified, the thread joined.\<close>

datatype destructor_place = Alive | Flag_set | Connection_closed | All_notified | Joined

record service_thread =
  thread_client :: async_client
  thread_started :: bool
  place :: service_place
  exiting :: bool
  destructor :: destructor_place

definition thread_new :: "async_client \<Rightarrow> service_thread" where
  "thread_new s = \<lparr>thread_client = s, thread_started = False, place = Not_started, exiting = False, destructor = Alive\<rparr>"

definition start_service :: "service_thread \<Rightarrow> service_thread" where
  "start_service t = (if \<not> thread_started t then t\<lparr>thread_started := True, place := At_exit_test\<rparr> else t)"

definition notify_connect :: "service_thread \<Rightarrow> service_thread" where
  "notify_connect t = (case place t of In_wait seconds \<Rightarrow> t\<lparr>place := Before_connect\<rparr> | _ \<Rightarrow> t)"

text \<open>What the system answers to a step: to a connect, to one pass of the loop and after an error.\<close>

record service_answers =
  conn_flags :: ip_support
  conn_pconnect :: "string \<Rightarrow> u16 \<Rightarrow> int \<Rightarrow> int"
  conn_errno :: int
  conn_fd :: nat
  conn_ifd :: nat
  conn_listening :: bool
  pass_answers :: loop_answers
  lost_listening :: bool
  lost_errno :: int

definition connect_again :: "service_answers \<Rightarrow> async_client \<Rightarrow> bool \<times> async_client" where
  "connect_again a s = connect (conn_flags a) (conn_pconnect a) (conn_errno a) (conn_fd a) (conn_ifd a) (conn_listening a)
     (s\<lparr>total_connect_times := total_connect_times s + 1\<rparr>)"

text \<open>One step of \<^verbatim>\<open>service\<close>; a thread that waits without a time limit makes none of its own.\<close>

definition service_advance :: "loop_env \<Rightarrow> service_answers \<Rightarrow> service_thread \<Rightarrow> service_thread option" where
  "service_advance e a t =
     (let s = thread_client t in
      case place t of
        Not_started \<Rightarrow> None
      | At_exit_test \<Rightarrow>
          Some (if exiting t then t\<lparr>place := Ended\<rparr>
                else if impl_open s then t\<lparr>place := In_loop\<rparr>
                else if total_connect_times s \<ge> 0 then t\<lparr>place := Before_wait\<rparr>
                else t\<lparr>place := Before_connect\<rparr>)
      | Before_wait \<Rightarrow> Some (t\<lparr>place := In_wait (connect_wait_timeout s)\<rparr>)
      | In_wait seconds \<Rightarrow> if seconds = -1 then None else Some (t\<lparr>place := Before_connect\<rparr>)
      | Before_connect \<Rightarrow>
          (case connect_again a s of (ok, s') \<Rightarrow>
             Some (t\<lparr>thread_client := s', place := if ok then In_loop else At_exit_test\<rparr>))
      | In_loop \<Rightarrow>
          if exiting t then Some (t\<lparr>place := At_exit_test\<rparr>)
          else (case loop_pass e (pass_answers a) s of
                  Again s' \<Rightarrow> Some (t\<lparr>thread_client := s'\<rparr>)
                | Failed s' \<Rightarrow> Some (t\<lparr>thread_client := handle_error (lost_listening a) (lost_errno a) s', place := At_exit_test\<rparr>))
      | Ended \<Rightarrow> None)"

text \<open>The destructor's steps; \<^verbatim>\<open>join\<close> returns when the thread has ended, at once when it was never started.\<close>

definition destroy_advance :: "service_thread \<Rightarrow> service_thread option" where
  "destroy_advance t =
     (case destructor t of
        Alive \<Rightarrow> Some (t\<lparr>exiting := True, destructor := Flag_set\<rparr>)
      | Flag_set \<Rightarrow> Some (t\<lparr>thread_client := client_close (thread_client t), destructor := Connection_closed\<rparr>)
      | Connection_closed \<Rightarrow> Some ((notify_connect t)\<lparr>destructor := All_notified\<rparr>)
      | All_notified \<Rightarrow> if \<not> thread_started t \<or> place t = Ended then Some (t\<lparr>destructor := Joined\<rparr>) else None
      | Joined \<Rightarrow> None)"

text \<open>
  A step of the program: of the thread, of a user while the client is not being destroyed, of the destructor;
  and a wake-up without a notification where the system makes such (\<open>spurious\<close>).
\<close>

inductive thread_step :: "loop_env \<Rightarrow> bool \<Rightarrow> service_thread \<Rightarrow> service_thread \<Rightarrow> bool" for e spurious where
  advances: "length (recv_data (ans_recv (pass_answers a))) \<le> buffer_size - nat (rx_offset (thread_client t))
    \<Longrightarrow> service_advance e a t = Some t' \<Longrightarrow> thread_step e spurious t t'"
| wakes: "spurious \<Longrightarrow> thread_step e spurious t (notify_connect t)"
| uses: "destructor t = Alive \<Longrightarrow> user_step e (thread_client t) s \<Longrightarrow> thread_step e spurious t (t\<lparr>thread_client := s\<rparr>)"
| starts: "destructor t = Alive \<Longrightarrow> thread_step e spurious t (start_service t)"
| notifies: "destructor t = Alive \<Longrightarrow> thread_step e spurious t (notify_connect t)"
| destroys: "destroy_advance t = Some t' \<Longrightarrow> thread_step e spurious t t'"

inductive thread_reachable :: "loop_env \<Rightarrow> bool \<Rightarrow> service_thread \<Rightarrow> bool" for e spurious where
  created: "length buf = buffer_size \<Longrightarrow> thread_reachable e spurious (thread_new (client_new buf sock ts efds))"
| stepped: "thread_reachable e spurious t \<Longrightarrow> thread_step e spurious t t' \<Longrightarrow> thread_reachable e spurious t'"

section \<open>The service is refined\<close>

text \<open>
  The worker of \<open>AsyncClient\<close> that a thread stands for: looping in the loop, waiting elsewhere, and either
  once the thread is on its way out.
\<close>

fun around_wait :: "service_place \<Rightarrow> bool" where
  "around_wait Not_started = True"
| "around_wait Before_wait = True"
| "around_wait (In_wait seconds) = True"
| "around_wait Before_connect = True"
| "around_wait At_exit_test = False"
| "around_wait In_loop = False"
| "around_wait Ended = False"

definition stands_for :: "service_thread \<Rightarrow> worker \<Rightarrow> bool" where
  "stands_for t w \<longleftrightarrow> client w = thread_client t
     \<and> (place t = In_loop \<longrightarrow> w = Looping (thread_client t))
     \<and> (around_wait (place t) \<or> place t = At_exit_test \<and> \<not> exiting t
          \<longrightarrow> w = Waiting (thread_client t))
     \<and> (place t = Ended \<longrightarrow> exiting t) \<and> (destructor t \<noteq> Alive \<longrightarrow> exiting t)
     \<and> (thread_started t \<longleftrightarrow> place t \<noteq> Not_started)"

lemma stands_new: "stands_for (thread_new s) (Waiting s)"
  by (simp add: stands_for_def thread_new_def)

lemma stands_notify: "stands_for t w \<Longrightarrow> stands_for (notify_connect t) w"
  by (cases "place t") (auto simp: stands_for_def notify_connect_def)

lemma notify_client [simp]:
  "thread_client (notify_connect t) = thread_client t" "exiting (notify_connect t) = exiting t"
  by (simp_all add: notify_connect_def split: service_place.splits)

lemma stands_start: "stands_for t w \<Longrightarrow> stands_for (start_service t) w"
  by (auto simp: stands_for_def start_service_def)

lemma stands_user:
  assumes "stands_for t w" "user_step e (thread_client t) s"
  shows "\<exists>w'. service_step e w w' \<and> stands_for (t\<lparr>thread_client := s\<rparr>) w'"
proof (cases w)
  case (Waiting c)
  then have "service_step e w (Waiting s)" using assms by (auto simp: stands_for_def intro: step_user_waiting)
  moreover have "stands_for (t\<lparr>thread_client := s\<rparr>) (Waiting s)" using assms Waiting by (auto simp: stands_for_def)
  ultimately show ?thesis by blast
next
  case (Looping c)
  then have "service_step e w (Looping s)" using assms by (auto simp: stands_for_def intro: step_user_looping)
  moreover have "stands_for (t\<lparr>thread_client := s\<rparr>) (Looping s)" using assms Looping by (auto simp: stands_for_def)
  ultimately show ?thesis by blast
qed

lemma stands_advance:
  assumes st: "stands_for t w" and inv: "service_inv dec w"
    and len: "length (recv_data (ans_recv (pass_answers a))) \<le> buffer_size - nat (rx_offset (thread_client t))"
    and adv: "service_advance e a t = Some t'"
  shows "stands_for t' w \<or> (\<exists>w'. service_step e w w' \<and> stands_for t' w')"
proof (cases "place t")
  case At_exit_test
  show ?thesis
  proof (cases "exiting t")
    case True
    then have "stands_for t' w" using st adv At_exit_test by (auto simp: service_advance_def stands_for_def)
    then show ?thesis ..
  next
    case False
    then have "w = Waiting (thread_client t)" using st At_exit_test by (simp add: stands_for_def)
    moreover from this have "\<not> impl_open (thread_client t)" using inv by simp
    ultimately have "stands_for t' w" using st adv At_exit_test False by (auto simp: service_advance_def stands_for_def split: if_splits)
    then show ?thesis ..
  qed
next
  case Before_wait
  then have "stands_for t' w" using st adv by (auto simp: service_advance_def stands_for_def)
  then show ?thesis ..
next
  case In_wait
  then have "stands_for t' w" using st adv by (auto simp: service_advance_def stands_for_def split: if_splits)
  then show ?thesis ..
next
  case Before_connect
  then have w: "w = Waiting (thread_client t)" using st by (simp add: stands_for_def)
  obtain ok s' where con: "connect_again a (thread_client t) = (ok, s')" by (cases "connect_again a (thread_client t)")
  then have t': "t' = t\<lparr>thread_client := s', place := if ok then In_loop else At_exit_test\<rparr>"
    using adv Before_connect by (simp add: service_advance_def)
  show ?thesis
  proof (cases ok)
    case True
    then have "service_step e w (Looping s')" using con w by (auto simp: connect_again_def intro: step_connected)
    moreover have "stands_for t' (Looping s')" using st Before_connect True t' by (auto simp: stands_for_def)
    ultimately show ?thesis by blast
  next
    case False
    then have "service_step e w (Waiting s')" using con w by (auto simp: connect_again_def intro: step_connect_failed)
    moreover have "stands_for t' (Waiting s')" using st Before_connect False t' by (auto simp: stands_for_def)
    ultimately show ?thesis by blast
  qed
next
  case In_loop
  then have w: "w = Looping (thread_client t)" using st by (simp add: stands_for_def)
  show ?thesis
  proof (cases "exiting t")
    case True
    then have "stands_for t' w" using st adv In_loop by (auto simp: service_advance_def stands_for_def)
    then show ?thesis ..
  next
    case up: False
    show ?thesis
    proof (cases "loop_pass e (pass_answers a) (thread_client t)")
      case (Again s')
      then have "service_step e w (Looping s')" using w len by (auto intro: step_pass)
      moreover have "stands_for t' (Looping s')"
        using st adv In_loop up Again by (auto simp: service_advance_def stands_for_def)
      ultimately show ?thesis by blast
    next
      case (Failed s')
      let ?s = "handle_error (lost_listening a) (lost_errno a) s'"
      have "service_step e w (Waiting ?s)" using w len Failed by (auto intro: step_error)
      moreover have "stands_for t' (Waiting ?s)"
        using st adv In_loop up Failed by (auto simp: service_advance_def stands_for_def)
      ultimately show ?thesis by blast
    qed
  qed
qed (use adv in \<open>auto simp: service_advance_def\<close>)

lemma stands_flag: "stands_for t w \<Longrightarrow> stands_for (t\<lparr>exiting := True, destructor := d\<rparr>) w"
  by (simp add: stands_for_def)

lemma stands_going: "stands_for t w \<Longrightarrow> exiting t \<Longrightarrow> stands_for (t\<lparr>destructor := d\<rparr>) w"
  by (simp add: stands_for_def)

lemma stands_destroy:
  assumes st: "stands_for t w" and adv: "destroy_advance t = Some t'"
  shows "stands_for t' w \<or> (\<exists>w'. service_step e w w' \<and> stands_for t' w')"
proof (cases "destructor t")
  case Alive
  then have "t' = t\<lparr>exiting := True, destructor := Flag_set\<rparr>" using adv by (simp add: destroy_advance_def)
  then show ?thesis using stands_flag[OF st] by simp
next
  case Flag_set
  let ?s = "client_close (thread_client t)"
  have ex: "exiting t" using st Flag_set by (simp add: stands_for_def)
  obtain w' where w': "service_step e w w'" "stands_for (t\<lparr>thread_client := ?s\<rparr>) w'"
    using stands_user[OF st user_close] by blast
  have "t' = (t\<lparr>thread_client := ?s\<rparr>)\<lparr>destructor := Connection_closed\<rparr>"
    using adv Flag_set by (simp add: destroy_advance_def)
  then have "stands_for t' w'" using stands_going[OF w'(2)] ex by simp
  then show ?thesis using w'(1) by blast
next
  case Connection_closed
  then have t': "t' = (notify_connect t)\<lparr>destructor := All_notified\<rparr>" "exiting t"
    using st adv by (simp_all add: destroy_advance_def stands_for_def)
  have "stands_for t' w" unfolding t'(1) by (rule stands_going[OF stands_notify[OF st]]) (simp add: t'(2))
  then show ?thesis ..
next
  case All_notified
  then have t': "t' = t\<lparr>destructor := Joined\<rparr>" "exiting t"
    using st adv by (simp_all add: destroy_advance_def stands_for_def split: if_splits)
  have "stands_for t' w" unfolding t'(1) by (rule stands_going[OF st t'(2)])
  then show ?thesis ..
next
  case Joined
  then show ?thesis using adv by (simp add: destroy_advance_def)
qed

lemma thread_stands:
  assumes "thread_reachable e spurious t" "pdu_decoder (env_decode e)" "sorts_descending (env_sort e)"
  shows "\<exists>w. service_reachable e w \<and> stands_for t w"
  using assms(1)
proof (induction rule: thread_reachable.induct)
  case (created buf sock ts efds)
  then show ?case using stands_new service_start by blast
next
  case (stepped t t')
  then obtain w where w: "service_reachable e w" "stands_for t w" by blast
  have inv: "service_inv (env_decode e) w" by (rule service_reachable_inv[OF w(1) assms(2,3)])
  have "stands_for t' w \<or> (\<exists>w'. service_step e w w' \<and> stands_for t' w')"
    using stepped.hyps(2)
  proof cases
    case (advances a)
    then show ?thesis using stands_advance[OF w(2) inv] by blast
  next
    case wakes
    then show ?thesis using stands_notify[OF w(2)] by simp
  next
    case (uses s)
    then show ?thesis using stands_user[OF w(2) uses(3)] by simp
  next
    case starts
    then show ?thesis using stands_start[OF w(2)] by simp
  next
    case notifies
    then show ?thesis using stands_notify[OF w(2)] by simp
  next
    case destroys
    then show ?thesis by (rule stands_destroy[OF w(2)])
  qed
  then show ?case using w(1) service_run by blast
qed

text \<open>
  C16. The thread with its waits, its notifications and its destructor refines the service of \<^verbatim>\<open>AsyncClient\<close>: what it
  reaches, that service reaches, so that all that holds there holds here. Before its start,
  before, in and after the wait, and at the exit test unless the flag of the destructor is set, the socket is closed;
  in the loop the connection stands; and the thread ends only on that flag.
\<close>
theorem thread_refines_service:
  assumes "thread_reachable e spurious t" "pdu_decoder (env_decode e)" "sorts_descending (env_sort e)"
  shows "\<exists>w. service_reachable e w \<and> client w = thread_client t
     \<and> (around_wait (place t) \<or> place t = At_exit_test \<and> \<not> exiting t
          \<longrightarrow> w = Waiting (thread_client t) \<and> \<not> impl_open (thread_client t))
     \<and> (place t = In_loop \<longrightarrow> w = Looping (thread_client t) \<and> connected (thread_client t))
     \<and> (place t = Ended \<longrightarrow> exiting t)"
proof -
  obtain w where w: "service_reachable e w" "stands_for t w" using thread_stands[OF assms] by blast
  have "service_inv (env_decode e) w" by (rule service_reachable_inv[OF w(1) assms(2,3)])
  then have "(around_wait (place t) \<or> place t = At_exit_test \<and> \<not> exiting t
        \<longrightarrow> w = Waiting (thread_client t) \<and> \<not> impl_open (thread_client t))
     \<and> (place t = In_loop \<longrightarrow> w = Looping (thread_client t) \<and> connected (thread_client t))"
    using w(2) by (auto simp: stands_for_def)
  then show ?thesis using w by (intro exI[of _ w]) (simp add: stands_for_def)
qed

section \<open>Ways to lose a notification\<close>

text \<open>The states of the two runs: a client made with any timers, and the answers of a connect that succeeds.\<close>

definition quiet_client :: async_client where
  "quiet_client = client_new (replicate buffer_size 0) 0 (\<lambda>i. \<lparr>dt_loop = False, dt_duration = 0, dt_expire = 0\<rparr>) {}"

definition good_answers :: service_answers where
  "good_answers = \<lparr>conn_flags = \<lparr>ipsv_ipv4 = True, ipsv_ipv6 = False\<rparr>, conn_pconnect = (\<lambda>ad po ti. 0), conn_errno = 0,
     conn_fd = 5, conn_ifd = 6, conn_listening = False,
     pass_answers = \<lparr>sel_nfds = 0, sel_bad_fd = False, sel_interrupter = False, ans_recv = RecvFailed 0, ans_send = 0,
       ans_send_errno = 0, ans_now = 0\<rparr>, lost_listening = False, lost_errno = 0\<rparr>"

lemma advance_good:
  "service_advance e good_answers t = Some t' \<Longrightarrow> thread_step e spurious t t'"
  by (rule advances) (simp_all add: good_answers_def)

definition thread_at :: "service_place \<Rightarrow> async_client \<Rightarrow> destructor_place \<Rightarrow> service_thread" where
  "thread_at p c d = \<lparr>thread_client = c, thread_started = True, place = p, exiting = (d \<noteq> Alive), destructor = d\<rparr>"

lemma quiet_fields:
  "\<not> impl_open quiet_client" "total_connect_times quiet_client = 0" "connect_wait_timeout quiet_client = -1"
  by (simp_all add: quiet_client_def client_new_def)

lemma reach_before_wait: "thread_reachable e spurious (thread_at Before_wait quiet_client Alive)"
proof (rule stepped)
  have "thread_reachable e spurious (thread_new quiet_client)"
    unfolding quiet_client_def by (rule created) simp
  then have "thread_reachable e spurious (start_service (thread_new quiet_client))"
    by (rule stepped) (rule starts, simp add: thread_new_def)
  then show "thread_reachable e spurious (thread_at At_exit_test quiet_client Alive)"
    by (simp add: start_service_def thread_new_def thread_at_def)
  show "thread_step e spurious (thread_at At_exit_test quiet_client Alive) (thread_at Before_wait quiet_client Alive)"
    by (rule advance_good) (simp add: service_advance_def thread_at_def quiet_fields)
qed

text \<open>The destructor runs until it waits for the thread, wherever the thread stands.\<close>

lemma destructor_notifies:
  assumes "thread_reachable e spurious (thread_at p c Alive)"
  shows "thread_reachable e spurious ((notify_connect (thread_at p (client_close c) Connection_closed))\<lparr>destructor := All_notified\<rparr>)"
proof -
  have "thread_reachable e spurious (thread_at p c Flag_set)"
    by (rule stepped[OF assms], rule destroys) (simp add: destroy_advance_def thread_at_def)
  then have "thread_reachable e spurious (thread_at p (client_close c) Connection_closed)"
    by (rule stepped) (rule destroys, simp add: destroy_advance_def thread_at_def)
  then show ?thesis
    by (rule stepped) (rule destroys, simp add: destroy_advance_def thread_at_def)
qed

lemma close_fields:
  "connect_wait_timeout (client_close c) = connect_wait_timeout c" "total_connect_times (client_close c) = total_connect_times c"
  by (simp_all add: client_close_def interrupt_def)

lemma stuck_thread:
  assumes "place t = In_wait (-1)" "destructor t = All_notified" "thread_started t"
  shows "\<not> thread_step e False t t'"
proof
  assume "thread_step e False t t'"
  then show False
    by cases (use assms in \<open>auto simp: service_advance_def destroy_advance_def\<close>)
qed

lemma reach_stuck:
  "\<exists>t. thread_reachable e spurious t \<and> destructor t = All_notified \<and> place t = In_wait (-1) \<and> thread_started t"
proof -
  have "thread_reachable e spurious (thread_at Before_wait (client_close quiet_client) All_notified)"
    using destructor_notifies[OF reach_before_wait] by (simp add: notify_connect_def thread_at_def)
  then have "thread_reachable e spurious (thread_at (In_wait (-1)) (client_close quiet_client) All_notified)"
    by (rule stepped) (rule advance_good, simp add: service_advance_def thread_at_def close_fields quiet_fields)
  then show ?thesis by (intro exI[of _ "thread_at (In_wait (-1)) (client_close quiet_client) All_notified"]) (simp add: thread_at_def)
qed

lemma connect_good:
  assumes "connect_again good_answers c = (ok, s)"
  shows "ok \<and> impl_open s"
  using assms by (auto simp: connect_again_def good_answers_def connect_def Let_def register_descriptor_read split: if_splits)

lemma reach_joined_open:
  "\<exists>t. thread_reachable e spurious t \<and> destructor t = Joined \<and> impl_open (thread_client t)"
proof -
  let ?c = "client_close quiet_client"
  obtain ok s where con: "connect_again good_answers ?c = (ok, s)" by (cases "connect_again good_answers ?c")
  then have s: "ok" "impl_open s" using connect_good by auto
  have "thread_reachable e spurious (thread_at (In_wait (-1)) quiet_client Alive)"
    by (rule stepped[OF reach_before_wait], rule advance_good) (simp add: service_advance_def thread_at_def quiet_fields)
  then have "thread_reachable e spurious (thread_at Before_connect ?c All_notified)"
    using destructor_notifies by (force simp: notify_connect_def thread_at_def)
  then have "thread_reachable e spurious (thread_at In_loop s All_notified)"
    by (rule stepped) (rule advance_good, simp add: service_advance_def thread_at_def con s)
  then have "thread_reachable e spurious (thread_at At_exit_test s All_notified)"
    by (rule stepped) (rule advance_good, simp add: service_advance_def thread_at_def)
  then have "thread_reachable e spurious (thread_at Ended s All_notified)"
    by (rule stepped) (rule advance_good, simp add: service_advance_def thread_at_def)
  then have "thread_reachable e spurious (thread_at Ended s Joined)"
    by (rule stepped) (rule destroys, simp add: destroy_advance_def thread_at_def)
  then show ?thesis using s(2) by (intro exI[of _ "thread_at Ended s Joined"]) (simp add: thread_at_def)
qed

lemma notify_unheard: "(\<forall>seconds. place t \<noteq> In_wait seconds) \<Longrightarrow> notify_connect t = t"
  by (simp add: notify_connect_def split: service_place.splits)

text \<open>
  C32. A notification counts only for a thread that waits already. So the destructor can hang: when it sets its
  flag and notifies after the thread's test of the flag and before its wait, the thread, waiting without a
  limit as it does by default, is never woken and the destructor never returns from its \<^verbatim>\<open>join\<close>. And a thread that
  the destructor does wake connects once more before it tests the flag: the client may end with a connection
  made after it was closed.
\<close>
theorem destructor_hangs_or_reconnects:
  "(\<exists>t. thread_reachable e False t \<and> destructor t = All_notified \<and> (\<forall>t'. \<not> thread_step e False t t'))
   \<and> (\<exists>t. thread_reachable e False t \<and> destructor t = Joined \<and> impl_open (thread_client t))"
  using reach_stuck stuck_thread reach_joined_open by blast

lemma thread_refines_service_witness:
  "\<exists>w. service_reachable example_env w \<and> client w = client_close quiet_client"
proof -
  have r: "thread_reachable example_env False (thread_at Before_wait (client_close quiet_client) All_notified)"
    using destructor_notifies[OF reach_before_wait] by (simp add: notify_connect_def thread_at_def)
  show ?thesis
    using thread_refines_service[OF r] prefixed.pdu_decoder_axioms stable_descending_sorts
    by (auto simp: example_env_def thread_at_def)
qed

end
