(* ===== verification/Spec2Isabelle.thy ===== *)
theory Spec2Isabelle
  imports BinaryStream MD5 ObjectPool ClientService Base64 NsConv RequestHandler HttpConnection GameResponses SortedMultilist HttpClient
    JsonMinify GpsChat SocketIo MemPool SizeClasses CsvParser CJsonTree Twister AesModes JsonDocument EventService ServiceThread
begin

text \<open>
  \<^bold>\<open>A verification library of the GPS tracker's C++ code.\<close> The repository holds an iOS application with a
  socket library, a game and message server it was built from, and Java demos. The C++ code of its own
  is modelled here; paths below are relative to \<^verbatim>\<open>src/GPSIOSDemo/\<close>.

  \<^bold>\<open>Parts and how they interact.\<close>

  \<^item> \<^bold>\<open>The client\<close> (\<^verbatim>\<open>xxsocket/src\<close>). Messages are built and read with the binary streams
    (\<^theory_text>\<open>BinaryStream\<close>: \<^verbatim>\<open>obinarystream\<close>, \<^verbatim>\<open>ibinarystream\<close>) whose scalars are converted to network order
    (\<^theory_text>\<open>Endian\<close>: \<^verbatim>\<open>endian_portable.h\<close>). \<^verbatim>\<open>async_tcp_client\<close> runs one service thread around
    \<^verbatim>\<open>select\<close>: \<^theory_text>\<open>AsyncClient\<close> has its state, its steps for receiving, sending, connecting and failing
    and one round of its loop; \<^theory_text>\<open>Timers\<close> has the deadline timers and the sorted queue that bounds the
    wait; \<^theory_text>\<open>ObjectPool\<close> the cells its PDUs are allocated from. \<^theory_text>\<open>ClientService\<close> holds what the client
    guarantees, and how a send that races the loss of its connection comes out on the next one, and \<^theory_text>\<open>ServiceThread\<close> the life of its thread: its start, its waits for a notification, its end. \<^theory_text>\<open>SortedMultilist\<close> is the sorted list of \<^verbatim>\<open>refs/async\<close> and
    \<^theory_text>\<open>EventService\<close> its event service, a listener and workers around a queue (\<^verbatim>\<open>epoll_io_service.cpp\<close>). \<^theory_text>\<open>NsConv\<close> and \<^theory_text>\<open>Base64\<close> are the text helpers, \<^theory_text>\<open>CsvParser\<close> the reader of
    \<^verbatim>\<open>fastest_csv_parser.h\<close>, \<^theory_text>\<open>MD5\<close> the digest class of \<^verbatim>\<open>MD5.hpp\<close> and \<^verbatim>\<open>MD5.cpp\<close>.
  \<^item> \<^bold>\<open>The application\<close> (\<^verbatim>\<open>GPS connect\<close>). \<^theory_text>\<open>GpsChat\<close> has its chat client (\<^verbatim>\<open>GPSChat.cpp\<close>) and the messages its
    view sends (\<^verbatim>\<open>ViewController.mm\<close>), which are JSON texts and are read here with the repository's JSON reader.
  \<^item> \<^bold>\<open>The server\<close> (\<^verbatim>\<open>xxsocket/refs/httpserver\<close>). A connection (\<^theory_text>\<open>HttpConnection\<close>) feeds what it reads to
    the request parser (\<^theory_text>\<open>HttpParser\<close>), gathers a body, calls the request handler and writes its reply
    (\<^theory_text>\<open>HttpReply\<close>). \<^theory_text>\<open>RequestHandler\<close> is \<^verbatim>\<open>request_handler::handle_request\<close>: it decodes the path, decrypts
    (\<^theory_text>\<open>CryptoWrapper\<close>) and parses the content (\<^theory_text>\<open>Json\<close>, of \<^verbatim>\<open>cjson.cpp\<close>), dispatches on the request type
    and prints, pads and encrypts the response. \<^theory_text>\<open>GameHandlers\<close> has the nineteen handlers, over the JSON
    accessors (\<^theory_text>\<open>JsonObject\<close>, of \<^verbatim>\<open>cjson_wrapper.cpp\<close>), the database client (\<^theory_text>\<open>SqlClient\<close>, of
    \<^verbatim>\<open>mysql_client.cpp\<close>) and the server's own MD5 (\<^theory_text>\<open>ServerMd5\<close>, of \<^verbatim>\<open>crypto_utils.c\<close>). \<^theory_text>\<open>GameService\<close>
    holds what the handlers guarantee and \<^theory_text>\<open>GameResponses\<close> the shape of their responses. \<^theory_text>\<open>HttpClient\<close>
    (\<^verbatim>\<open>http_client.cpp\<close>) is the server's own client for other servers; it connects with \<^verbatim>\<open>connect_n\<close> of \<^theory_text>\<open>SocketIo\<close>.
  \<^item> \<^bold>\<open>The server's utilities\<close> (\<^verbatim>\<open>thelib/utils\<close>). \<^theory_text>\<open>CJsonTree\<close> has the operations of \<^verbatim>\<open>cjson.cpp\<close> on linked nodes, on a
    heap of nodes; \<^theory_text>\<open>JsonMinify\<close> its \<^verbatim>\<open>cJSON_Minify\<close>; \<^theory_text>\<open>SocketIo\<close> the loops of \<^verbatim>\<open>xxsocket.cpp\<close> around \<^verbatim>\<open>send\<close>,
    \<^verbatim>\<open>recv\<close> and \<^verbatim>\<open>select\<close>; \<^theory_text>\<open>MemPool\<close> the pool of blocks of any size (\<^verbatim>\<open>mempool.cpp\<close>) and \<^theory_text>\<open>SizeClasses\<close> the
    pools of equal cells and of size classes (\<^verbatim>\<open>memblock.cpp\<close>, \<^verbatim>\<open>mempool2.cpp\<close>, \<^verbatim>\<open>mempool3.cpp\<close>).
    \<^theory_text>\<open>JsonDocument\<close> is the document of \<^verbatim>\<open>cjson_wrapper.cpp\<close>, kept in a file; \<^theory_text>\<open>AesModes\<close> the other modes of
    \<^verbatim>\<open>aes_wrapper.cpp\<close> and the functions of \<^verbatim>\<open>crypto_wrapper.cpp\<close> over them; \<^theory_text>\<open>Twister\<close> the generator of \<^verbatim>\<open>random.h\<close>.

  \<^bold>\<open>How the code appears.\<close> A class is a record, an enumeration or tagged union a datatype, a method a
  function from the state to a result and the new state; constructors and operations keep the names of
  the code. Machine integers are words where bits matter (\<^theory_text>\<open>Endian\<close>, \<^theory_text>\<open>MD5\<close>, \<^theory_text>\<open>ServerMd5\<close>, the buffers),
  and integers reduced with \<^verbatim>\<open>mod\<close> or \<open>c_int\<close> where they are numbers. An exception and an access outside a
  buffer are values of \<open>outcome\<close> (\<^theory_text>\<open>GPS_Prelude\<close>), and so is a failed assertion (\<open>Aborts\<close>: the makefiles do
  not define \<^verbatim>\<open>NDEBUG\<close>), so a theorem that an operation gives \<open>Returns\<close> is also one of memory safety. Where a test
  and what follows it are not under one mutex they are two steps, with the steps of the other threads in between: the
  two halves of \<^verbatim>\<open>async_send\<close> (\<open>send_open\<close> and \<open>send_queued\<close> of \<^theory_text>\<open>AsyncClient\<close>), a worker's test of its flag and its
  dequeue (\<^theory_text>\<open>EventService\<close>), the waits of the service thread (\<^theory_text>\<open>ServiceThread\<close>). The handlers' macros with early returns (\<^verbatim>\<open>CHECK_SESSION_RETURN\<close>,
  \<^verbatim>\<open>CHECK_EXEC_SQL_RETURN_\<close>) take the rest of the handler as their continuation.

  \<^bold>\<open>Interfaces.\<close> Eight locales state what one part expects of another, and each is interpreted on the
  code's model: \<open>stream_codec\<close> (\<^theory_text>\<open>Codec\<close>: writing then reading, interpreted in \<^theory_text>\<open>BinaryStream\<close>),
  \<open>incremental_hash\<close> (\<^theory_text>\<open>Hashing\<close>: the context of a digest, interpreted in \<^theory_text>\<open>MD5\<close>), \<open>allocator\<close>
  (\<^theory_text>\<open>Allocator\<close>: cells and their release, interpreted in \<^theory_text>\<open>ObjectPool\<close> and on the pools of \<^theory_text>\<open>SizeClasses\<close>), \<open>pdu_decoder\<close> (\<^theory_text>\<open>AsyncClient\<close>: the
  length callback of a client, interpreted in \<^theory_text>\<open>ClientService\<close> on the prefix the streams write),
  \<open>answer_rules\<close> (\<^theory_text>\<open>AnswerRules\<close>: a property of answers that the handlers' operators keep, interpreted in
  \<^theory_text>\<open>GameService\<close> as returning and in \<^theory_text>\<open>GameResponses\<close> as being typed), \<open>ordered_bag\<close> (\<^theory_text>\<open>SortedMultilist\<close>), \<open>size_classes\<close> (\<^theory_text>\<open>SizeClasses\<close>: how a size chooses
  its class, interpreted on the doubling and on the linear classes) and \<open>named_values\<close> (\<^theory_text>\<open>JsonDocument\<close>: values
  under names compared without case, interpreted on the documents of texts).

  \<^bold>\<open>Groups of lemmas.\<close>

  \<^item> Round trips: messages of scalars and strings (\<^theory_text>\<open>BinaryStream\<close>), base 64 in any division into blocks
    (\<^theory_text>\<open>Base64\<close>), printed requests (\<^theory_text>\<open>HttpParser\<close>), printed JSON (\<^theory_text>\<open>JsonLexical\<close>, \<^theory_text>\<open>JsonRoundtrip\<close>), percent
    encoding, padding and chaining (\<^theory_text>\<open>CryptoWrapper\<close>, \<^theory_text>\<open>AesModes\<close>), hexadecimal text (\<^theory_text>\<open>NsConv\<close>).
  \<^item> Both digests are RFC 1321, which \<^theory_text>\<open>MD5\<close> states as the reference algorithm.
  \<^item> State machines: reachable states of the client's service and its invariant, the order of its
    sends, the delivery of framed messages (\<^theory_text>\<open>ClientService\<close>); the parser fed in pieces; a connection's
    single reply; the free list of a pool; the threads of the event service in every interleaving (\<^theory_text>\<open>EventService\<close>);
    the service thread, whose every state is one of the service's (\<^theory_text>\<open>ServiceThread\<close>).
  \<^item> Termination: the JSON reader needs no more than \<open>2 * n + 1\<close> levels of recursion for \<open>n\<close> characters
    (\<^theory_text>\<open>JsonFuel\<close>), the fuel its model starts with, and more fuel never changes a result; on which texts it also
    stays in its buffers is \<^theory_text>\<open>JsonSafety\<close>; \<open>replace\<close> of
    \<^theory_text>\<open>NsConv\<close> returns but for an empty key. Loops over buffers run on the bytes left.
  \<^item> Bounds: which values outgrow the JSON printer's buffers, which statements fit the 512 bytes of the
    database client, what truncated messages read, where 32-bit lengths wrap; in \<^theory_text>\<open>SizeClasses\<close> that the cells of a size
    class do not overlap, in \<^theory_text>\<open>MemPool\<close> that a block in use is given out again;
    in \<^theory_text>\<open>Twister\<close> the word behind its state that a new generator reads.
  \<^item> A session of edits on a document and the map they make, which its file keeps (\<^theory_text>\<open>JsonDocument\<close>).
  \<^item> The heap of JSON nodes: each operation on an array is the operation on the list of its items
    (\<^theory_text>\<open>CJsonTree\<close>); text that is minified (\<^theory_text>\<open>JsonMinify\<close>); loops over scripts of the system's answers (\<^theory_text>\<open>SocketIo\<close>).
  \<^item> The client for other servers against the server's connection: a request made by one is what the other
    handles, and the content of its reply comes back (\<^theory_text>\<open>HttpClient\<close>).
  \<^item> Sessions of the game service: admission, the ids of a login, what a handler stores.

  \<^bold>\<open>Parameters.\<close> Code outside the repository is an argument with its documented behaviour as hypotheses
  where a property needs it: \<^verbatim>\<open>std::sort\<close> (a permutation sorted by the comparison), the operating
  system's \<^verbatim>\<open>select\<close>, \<^verbatim>\<open>recv\<close>, \<^verbatim>\<open>send\<close> and connects (the events of a round), \<^verbatim>\<open>double\<close> arithmetic and its
  conversions (\<open>doubles\<close>), the MySQL library (\<open>mysql\<close>), the clock, random numbers and requests to other
  servers (\<open>services\<close>), and OpenSSL's block functions, of which it is used that decryption inverts
  encryption of a block. For requests to other servers these are the descriptor of the socket opened, the
  descriptors that become writable and the reads a connection delivers (\<open>network\<close>). The hosts are little-endian with 64-bit \<^verbatim>\<open>size_t\<close>.

  \<^bold>\<open>Not modelled.\<close> boost, SQLite, APR, dlmalloc, nginx pools, OpenSSL's AES and MD6 are vendored. The Java
  demos and the Objective-C views are other languages. The Lua bindings, the interrupters, the
  IOCP loop, logging, start-up and the rest of the socket wrapper are calls of systems outside the
  repository. Of \<^verbatim>\<open>cjson.cpp\<close> the duplication of nodes, of \<^verbatim>\<open>cjson_wrapper.cpp\<close> the
  ownership of nodes, of \<^verbatim>\<open>random.h\<close> the fractions, of the AES wrappers the forms compressed with zlib, of \<^verbatim>\<open>nsconv.h\<close> the stream conversions, code pages and GUIDs,
  and of the client its resolver and its channels to peers are left out. Memory that runs out is not modelled.
\<close>

section \<open>A request through the whole server\<close>

text \<open>
  The request handler as the connection calls it: a function \<open>h\<close> that gives the handler's reply for
  the connection's reply object \<open>rep\<close> and the state \<open>c\<close> of the database, wherever that returns.
\<close>

definition serves :: "(string \<Rightarrow> string) \<Rightarrow> (string \<Rightarrow> string) \<Rightarrow> ('w, 'd) services \<Rightarrow> reply \<Rightarrow> 'w client
    \<Rightarrow> (request \<Rightarrow> reply) \<Rightarrow> bool" where
  "serves enc dec S rep c h = (\<forall>q out. fst (RequestHandler.handle_request enc dec S q rep c) = Returns out \<longrightarrow> h q = out)"

lemma content_headers_eq: "content_headers body ty = length_and_type (length body) ty"
  by (simp add: content_headers_def length_and_type_def)

lemma length_pkcs_le: "length (pkcs s) \<le> length s + 16"
  by (simp add: pkcs_def AES_BLOCK_SIZE_def Let_def)

definition ready_json :: "int json" where
  "ready_json = Object [(''request_type'', Integer 60000)]"

lemma printed_ready:
  "cJSON_Print D False ready_json = Returns (CHR ''{'' # json_quoted ''request_type'' @ '':60000}'')"
  "cJSON_Print D False (Object [(''ret'', Integer 0)]) = Returns (CHR ''{'' # json_quoted ''ret'' @ '':0}'')"
proof -
  have q: "print_string_ptr ''request_type'' = Returns (json_quoted ''request_type'')"
    "print_string_ptr ''ret'' = Returns (json_quoted ''ret'')" by code_simp+
  have n: "show_int 60000 = ''60000''" "show_int 0 = ''0''"
  proof -
    have "char_of (54 :: nat) = CHR ''6''" "char_of (48 :: nat) = CHR ''0''" by code_simp+
    then show "show_int 60000 = ''60000''" "show_int 0 = ''0''"
      by (simp_all add: show_int_def show_nat.simps digit_char_def)
  qed
  show "cJSON_Print D False ready_json = Returns (CHR ''{'' # json_quoted ''request_type'' @ '':60000}'')"
    "cJSON_Print D False (Object [(''ret'', Integer 0)]) = Returns (CHR ''{'' # json_quoted ''ret'' @ '':0}'')"
    by (simp_all add: ready_json_def cJSON_Print_def q n)
      (simp_all add: print_object_def in_asserted_buffer_def assert_written_def in_buffer_def object_len_def json_quoted_def)
qed

definition post_ready :: request where
  "post_ready = request_init\<lparr>req_method := ''POST'', req_uri := ''/'', req_major := 1,
     req_headers := [\<lparr>hd_name = ''Content-Length'', hd_value = ''32''\<rparr>]\<rparr>"

definition scripted_server :: "request \<Rightarrow> reply" where
  "scripted_server q = (case fst (RequestHandler.handle_request rev rev scripted q (stock_reply Bad_request) (scripted_client [])) of
     Returns out \<Rightarrow> out | _ \<Rightarrow> stock_reply Bad_request)"

section \<open>Properties\<close>

text \<open>
  C1. A sealed request end to end: a client prints an object without nulls, pads and encrypts it and sends
  it as a POST that arrives in any pieces. The connection gathers it, the request handler decrypts and
  parses it and calls the handler of its request type, and the one reply written is a status line, headers
  and a body such that a reader of the headers stops exactly at the body, finds its length announced, and
  decrypts it to the printed response of the handler. Of the block cipher it is used that decryption of
  a block inverts encryption.
\<close>

theorem sealed_post_answered:
  assumes cipher: "\<forall>b. length b = 16 \<longrightarrow> length (enc b) = 16 \<and> dec (enc b) = b"
    and path: "url_decode (req_uri r) = Some path" "path \<noteq> ''/notify_url.api''"
    and sent_text: "cJSON_Print (doubles_of S) False j = Returns msg" "printable j"
    and content: "aes_cbc_encrypt enc (pkcs msg) = Returns content"
    and sent: "wf_request r" "stricmp_eq (req_method r) ''POST''" "announced 0 (req_headers r) = length content"
      "concat (map snd ds) = print_request r @ content" "\<forall>(t, d) \<in> set ds. d \<noteq> []"
      "length (print_request r @ content) \<le> max_http_package_size"
    and target: "find_handler (getInt (doubles_of S) (Some (unsigned j)) ''request_type'' 0) = Some ty"
    and handled: "handler ty S (Some (unsigned j)) None c = (Returns resp, c')"
      "toString (doubles_of S) resp = Returns answer" "length answer < 2 ^ 30"
    and server: "serves enc dec S rep c h"
  shows "\<exists>headers q body. written (conn_run h (map (\<lambda>(t, d). Data t d) ds) (connection_start now))
        = [status_string Ok @ headers @ body]
    \<and> parse Header_line_start request_init (headers @ body) = (Good, Expecting_newline_3, q, body)
    \<and> req_content_length q = length body \<and> plain_content dec body = Returns answer"
proof -
  let ?q = "received r content"
  have "url_decode (req_uri ?q) = Some path" "aes_cbc_encrypt enc (pkcs msg) = Returns (req_content ?q)"
    using path content by (simp_all add: received_def)
  from request_is_served [OF cipher this(1) path(2) sent_text this(2) target handled(1,2), of rep]
  obtain body where body: "fst (RequestHandler.handle_request enc dec S ?q rep c) =
      Returns (rep\<lparr>rep_status := Ok, rep_content := body, rep_headers := content_headers body ''application/json''\<rparr>)"
    "plain_content dec body = Returns answer" "length body = length (pkcs answer)" by auto
  let ?hs = "length_and_type (length body) ''application/json''"
  have "h ?q = rep\<lparr>rep_status := Ok, rep_content := body, rep_headers := ?hs\<rparr>"
    using server body(1) by (simp add: serves_def content_headers_eq)
  then have "to_buffers (h ?q) = status_string Ok @ (print_headers ?hs @ crlf) @ body" by (simp add: to_buffers_parts)
  then have w: "written (conn_run h (pieces ds) (connection_start now))
      = [status_string Ok @ (print_headers ?hs @ crlf) @ body]"
    using post_answered [OF sent, of h now] by (simp add: answered_def connection_start_def)
  have "list_all (\<lambda>c. \<not> is_ctl (schar c)) ''application/json''" by code_simp
  from headers_read_back [OF length_and_type_wf [OF this], of "length body" body]
  obtain q where q: "parse Header_line_start request_init (print_headers ?hs @ crlf @ body) = (Good, Expecting_newline_3, q, body)"
    "req_content_length q = announced 0 ?hs" by auto
  have "length body < 2 ^ 31" using body(3) length_pkcs_le [of answer] handled(3) by simp
  then have "req_content_length q = length body" using q(2) announced_length_and_type by simp
  then show ?thesis using w q(1) body(2)
    by (intro exI [of _ "print_headers ?hs @ crlf"] exI [of _ q] exI [of _ body]) simp
qed

lemma sealed_post_answered_witness:
  "\<exists>content headers body. written (conn_run scripted_server (map (\<lambda>(t, d). Data t d) [(0, print_request post_ready @ content)])
        (connection_start 0)) = [status_string Ok @ headers @ body]
    \<and> plain_content rev body = toString plain_doubles (ret Success None)"
proof -
  have cipher: "\<forall>b. length b = 16 \<longrightarrow> length (rev b) = 16 \<and> rev (rev b) = (b :: string)" by simp
  have D: "doubles_of scripted = plain_doubles" by (simp add: scripted_def)
  let ?msg = "CHR ''{'' # json_quoted ''request_type'' @ '':60000}''"
  have msg: "cJSON_Print plain_doubles False ready_json = Returns ?msg" by (rule printed_ready)
  have len: "length (pkcs ?msg) = 32" by (simp add: pkcs_def json_quoted_def AES_BLOCK_SIZE_def Let_def)
  obtain content where content: "aes_cbc_encrypt rev (pkcs ?msg) = Returns content" "length content = 32"
    using aes_roundtrip [OF cipher, of ?msg] len by auto
  have answer: "toString plain_doubles (ret Success None) = Returns (CHR ''{'' # json_quoted ''ret'' @ '':0}'')"
    using printed_ready(2) [of plain_doubles] by (simp add: toString_def ret_def put_def)
  have "announced 0 (req_headers post_ready) = 32" "length (print_request post_ready) \<le> 1000" by code_simp+
  moreover have "url_decode (req_uri post_ready) = Some ''/''" "wf_request post_ready"
    "stricmp_eq (req_method post_ready) ''POST''" by code_simp+
  moreover have "print_request post_ready \<noteq> []" by code_simp
  moreover have "printable ready_json" by (simp add: ready_json_def)
  moreover have "find_handler (getInt plain_doubles (Some (unsigned ready_json)) ''request_type'' 0) = Some Check_server_ready"
    by code_simp
  moreover have "handler Check_server_ready scripted (Some (unsigned ready_json)) None (scripted_client [])
      = (Returns (ret Success None), scripted_client [])"
    by (simp add: handle_check_server_ready_def respond_def)
  moreover have "serves rev rev scripted (stock_reply Bad_request) (scripted_client []) scripted_server"
    by (simp add: serves_def scripted_server_def)
  moreover have "length (CHR ''{'' # json_quoted ''ret'' @ '':0}'') < 2 ^ 30" by (simp add: json_quoted_def)
  ultimately show ?thesis
    using sealed_post_answered [OF cipher, of post_ready "''/''" scripted ready_json ?msg content
        "[(0, print_request post_ready @ content)]" Check_server_ready "scripted_client []" "ret Success None" "scripted_client []"
        "CHR ''{'' # json_quoted ''ret'' @ '':0}''" "stock_reply Bad_request" scripted_server 0] msg content answer
    unfolding D by (auto simp: max_http_package_size_def)
qed

text \<open>
  The two MD5 implementations agree: the hexadecimal digest the client computes of a text shorter than
  2^32 - 64 bytes is the one the server stores and compares passwords with.
\<close>

theorem client_and_server_digests:
  assumes "length buf = 64" and "length s < 2 ^ 32 - 64"
  shows "md5 buf dig (map (\<lambda>c. word_of_nat (char_code c)) s) = Some (Returns (hash_md5 s))"
proof -
  have "md5 buf dig (map (\<lambda>c. word_of_nat (char_code c)) s)
      = Some (Returns (concat (map hex_byte (rfc_md5 (map (\<lambda>c. word_of_nat (char_code c)) s)))))"
    using md5_hash.feed_finish [OF init_represents [OF assms(1)], of "[map (\<lambda>c. word_of_nat (char_code c)) s]"] assms(2)
    by (simp add: md5_string_feed md5_accepted_def)
  then show ?thesis by (simp add: hash_md5_def server_md5_rfc)
qed

lemma client_and_server_digests_witness:
  "md5 (replicate 64 0) [] [112, 119] = Some (Returns (hash_md5 ''pw''))"
proof -
  have "map (\<lambda>c. word_of_nat (char_code c)) ''pw'' = ([112, 119] :: byte list)" by code_simp
  then show ?thesis using client_and_server_digests [of "replicate 64 0" "''pw''" "[]"] by simp
qed

end
